(* ===== verification/WC_Prelude.thy ===== *)
theory WC_Prelude
  imports Main "HOL-Library.Word" "HOL-Library.Monad_Syntax"
begin

text \<open>
  Shared vocabulary of the WireCommand development: the machine types, the
  \<open>errno\<close> values, the system state threaded through every modelled C function
  (allocator, list nodes, child processes, trace of external effects), the
  pieces of the C library the sources use on memory, and the generic lemmas
  on words, lists and options that the component theories share.

  A modelled C function returns \<open>None\<close> when the C call has no defined result:
  it reads or writes outside an object, follows a dangling pointer, or never
  returns. Every property that a call succeeds or fails with a given status is
  therefore also a proof that the call is defined.
\<close>

named_theorems wc_defs \<open>definitions of small accessors, unfolded by the component proofs\<close>
named_theorems wc_size \<open>facts that move size computations from words to naturals\<close>

section \<open>Machine types and error numbers\<close>

type_synonym byte = "8 word"
type_synonym uint16 = "16 word"
type_synonym size_t = "64 word"
type_synonym fd = int

definition UINT16_MAX :: size_t where
  "UINT16_MAX = 65535"

definition SIZE_MAX :: size_t where
  "SIZE_MAX = 18446744073709551615"

text \<open>
  \<open>Errno_stale\<close> is the status of a path that returns -1 without assigning
  \<open>errno\<close>; \<open>Errno_other\<close> covers every value the sources do not name.
\<close>

datatype errno =
    EINVAL | EMSGSIZE | ENOMEM | EOVERFLOW | ENOENT | EPROTO | ENOBUFS | EIO
  | EMFILE | EINTR | EAGAIN | EWOULDBLOCK | ECONNRESET | EPIPE | ENAMETOOLONG
  | Errno_stale | Errno_other nat

text \<open>The result of a C function that returns 0, or -1 with \<open>errno\<close> set.\<close>

type_synonym status = "errno + unit"

abbreviation wc_ok :: status where
  "wc_ok \<equiv> Inr ()"

section \<open>The system state\<close>

text \<open>
  What \<open>popen\<close> can do: fail, or start a child whose standard output is the given
  bytes, whether the stream then reports an error, and the status \<open>pclose\<close> returns.
\<close>

datatype wait_status = Pclose_failed | Exited nat | Signaled

datatype popen_outcome =
    Popen_failed errno
  | Popen_ok "byte list" bool wait_status

text \<open>Effects that leave the process, in the order they happen.\<close>

datatype event =
    Ev_open fd
  | Ev_recv fd "byte list"
  | Ev_send fd "byte list"
  | Ev_close fd
  | Ev_run "byte list"
  | Ev_unlink "byte list"

text \<open>
  The allocator is an oracle: the \<open>k\<close>-th call is granted or refused by
  \<open>s_grant k\<close>, and the bytes it does not initialise are \<open>s_fill k\<close>. Byte blocks are
  counted by \<open>s_live\<close>; queue nodes are kept in the store \<open>s_nodes\<close>, where an address
  with no entry has been freed or was never allocated. The \<open>k\<close>-th child process is
  described by \<open>s_popen k\<close>.
\<close>

record 'n sys =
  s_clock :: nat
  s_grant :: "nat \<Rightarrow> size_t \<Rightarrow> bool"
  s_fill :: "nat \<Rightarrow> nat \<Rightarrow> byte"
  s_live :: int
  s_nodes :: "nat \<rightharpoonup> 'n"
  s_popen :: "nat \<Rightarrow> byte list \<Rightarrow> popen_outcome"
  s_trace :: "event list"

definition s_emit :: "event \<Rightarrow> 'n sys \<Rightarrow> 'n sys" where
  "s_emit e s = s\<lparr>s_trace := s_trace s @ [e]\<rparr>"

definition s_tick :: "'n sys \<Rightarrow> 'n sys" where
  "s_tick s = s\<lparr>s_clock := Suc (s_clock s)\<rparr>"

section \<open>Memory functions of the C library\<close>

text \<open>\<open>realloc\<close> keeps the common prefix and leaves the rest indeterminate.\<close>

definition c_realloc :: "byte list option \<Rightarrow> size_t \<Rightarrow> 'n sys \<Rightarrow> byte list option \<times> 'n sys" where
  "c_realloc p n s =
     (if s_grant s (s_clock s) n then
        (let old = (case p of None \<Rightarrow> [] | Some d \<Rightarrow> d) in
         (Some (take (unat n) old @ map (s_fill s (s_clock s)) [length old..<unat n]),
          (s_tick s)\<lparr>s_live := s_live s + (if p = None then 1 else 0)\<rparr>))
      else (None, s_tick s))"

text \<open>\<open>malloc\<close> of a byte block, which is \<open>realloc\<close> of a null pointer.\<close>

definition c_malloc :: "size_t \<Rightarrow> 'n sys \<Rightarrow> byte list option \<times> 'n sys" where
  "c_malloc n s = c_realloc None n s"

definition c_free :: "'p option \<Rightarrow> 'n sys \<Rightarrow> 'n sys" where
  "c_free p s = (case p of None \<Rightarrow> s | Some _ \<Rightarrow> s\<lparr>s_live := s_live s - 1\<rparr>)"

text \<open>
  \<open>memcpy (dst + off, src, n)\<close>: undefined unless the source has \<open>n\<close> bytes and the
  destination has room for them.
\<close>

definition c_memcpy :: "byte list \<Rightarrow> nat \<Rightarrow> byte list \<Rightarrow> nat \<Rightarrow> byte list option" where
  "c_memcpy dst off src n =
     (if n \<le> length src \<and> off + n \<le> length dst
      then Some (take off dst @ take n src @ drop (off + n) dst) else None)"

text \<open>\<open>memmove (dst, dst + off, n)\<close>.\<close>

definition c_memmove_down :: "byte list \<Rightarrow> nat \<Rightarrow> nat \<Rightarrow> byte list option" where
  "c_memmove_down dst off n =
     (if off + n \<le> length dst then Some (take n (drop off dst) @ drop n dst) else None)"

text \<open>A string literal as the bytes of the C string, without and with the terminator.\<close>

definition c_str :: "string \<Rightarrow> byte list" where
  "c_str t = map (\<lambda>c. word_of_nat (of_char c)) t"

definition c_lit :: "string \<Rightarrow> byte list" where
  "c_lit t = c_str t @ [0]"

text \<open>The string a pointer designates; undefined when the object has no terminator.\<close>

definition c_string :: "byte list \<Rightarrow> byte list option" where
  "c_string d = (if 0 \<in> set d then Some (takeWhile (\<lambda>b. b \<noteq> 0) d) else None)"

text \<open>A store of one byte, \<open>memchr (d, 0, n)\<close>, and \<open>snprintf (dst, n, ...)\<close> of a text.\<close>

definition c_store :: "byte list \<Rightarrow> nat \<Rightarrow> byte \<Rightarrow> byte list option" where
  "c_store d i b = (if i < length d then Some (d[i := b]) else None)"

definition c_memchr_nul :: "byte list \<Rightarrow> nat \<Rightarrow> bool option" where
  "c_memchr_nul d n =
     (if 0 \<in> set (take n d) then Some True else if n \<le> length d then Some False else None)"

definition c_snprintf :: "byte list \<Rightarrow> size_t \<Rightarrow> byte list \<Rightarrow> byte list option" where
  "c_snprintf dst n txt =
     (if n = 0 then Some dst
      else c_memcpy dst 0 (take (unat n - 1) txt @ [0]) (Suc (min (unat n - 1) (length txt))))"

section \<open>Shared lemmas\<close>

lemmas wc_word_nat [wc_size] =
  word_le_nat_alt word_less_nat_alt unat_sub_if' unat_plus_if'

lemma unat_size_bound [simp]: "unat (n :: size_t) < 18446744073709551616"
  using unsigned_less [of n] by simp

lemma unat_u16_bound [simp]: "unat (n :: uint16) < 65536"
  using unsigned_less [of n] by simp

lemma unat_u16_le [simp]: "unat (n :: uint16) \<le> 65535"
  using unat_u16_bound [of n] by linarith

lemma unat_UINT16_MAX [simp]: "unat UINT16_MAX = 65535"
  by (simp add: UINT16_MAX_def)

lemma unat_SIZE_MAX: "unat SIZE_MAX = 18446744073709551615"
  by (simp add: SIZE_MAX_def)

lemma unat_of_nat_size [simp]:
  "n < 18446744073709551616 \<Longrightarrow> unat (of_nat n :: size_t) = n"
  by (simp add: unat_of_nat)

lemma unat_zero_iff_size [simp]: "(unat (n :: size_t) = 0) = (n = 0)"
  by (simp add: unat_eq_zero)

lemma s_emit_simps [simp]:
  "s_clock (s_emit e s) = s_clock s" "s_grant (s_emit e s) = s_grant s"
  "s_fill (s_emit e s) = s_fill s" "s_live (s_emit e s) = s_live s"
  "s_nodes (s_emit e s) = s_nodes s" "s_popen (s_emit e s) = s_popen s"
  "s_trace (s_emit e s) = s_trace s @ [e]"
  by (simp_all add: s_emit_def)

lemma s_tick_simps [simp]:
  "s_clock (s_tick s) = Suc (s_clock s)" "s_grant (s_tick s) = s_grant s"
  "s_fill (s_tick s) = s_fill s" "s_live (s_tick s) = s_live s"
  "s_nodes (s_tick s) = s_nodes s" "s_popen (s_tick s) = s_popen s"
  "s_trace (s_tick s) = s_trace s"
  by (simp_all add: s_tick_def)

text \<open>
  What an operation on byte blocks leaves alone: the oracles, the list nodes and
  the trace. An allocator that never refuses is \<open>mem_ample\<close>.
\<close>

definition sys_frame :: "'n sys \<Rightarrow> 'n sys \<Rightarrow> bool" where
  "sys_frame s s' \<longleftrightarrow> s_grant s' = s_grant s \<and> s_fill s' = s_fill s \<and> s_popen s' = s_popen s \<and>
     s_nodes s' = s_nodes s \<and> s_trace s' = s_trace s \<and> s_clock s \<le> s_clock s'"

definition mem_ample :: "'n sys \<Rightarrow> bool" where
  "mem_ample s \<longleftrightarrow> (\<forall>k n. s_grant s k n)"

lemma sys_frame_refl [simp, intro]: "sys_frame s s"
  by (simp add: sys_frame_def)

lemma sys_frame_trans [trans]: "sys_frame s t \<Longrightarrow> sys_frame t u \<Longrightarrow> sys_frame s u"
  by (simp add: sys_frame_def)

lemma sys_frame_mem_ample: "sys_frame s t \<Longrightarrow> mem_ample t = mem_ample s"
  by (simp add: sys_frame_def mem_ample_def)

text \<open>
  \<open>effect s s' evs\<close>: from \<open>s\<close> to \<open>s'\<close> the events \<open>evs\<close> happened and the oracles are the same.
\<close>

definition effect :: "'n sys \<Rightarrow> 'n sys \<Rightarrow> event list \<Rightarrow> bool" where
  "effect s s' evs \<longleftrightarrow> s_grant s' = s_grant s \<and> s_fill s' = s_fill s \<and> s_popen s' = s_popen s \<and>
     s_clock s \<le> s_clock s' \<and> s_trace s' = s_trace s @ evs"

lemma effect_refl [simp, intro]: "effect s s []"
  by (simp add: effect_def)

lemma effect_trans: "effect s t xs \<Longrightarrow> effect t u ys \<Longrightarrow> effect s u (xs @ ys)"
  by (simp add: effect_def)

lemma effect_trans_Nil: "effect s t [] \<Longrightarrow> effect t u ys \<Longrightarrow> effect s u ys"
  by (simp add: effect_def)

lemma effect_mem_ample: "effect s t xs \<Longrightarrow> mem_ample t = mem_ample s"
  by (simp add: effect_def mem_ample_def)

lemma effect_popen: "effect s t xs \<Longrightarrow> s_popen t = s_popen s"
  by (simp add: effect_def)

lemma effect_trace: "effect s t xs \<Longrightarrow> s_trace t = s_trace s @ xs"
  by (simp add: effect_def)

lemma effect_emit [simp]: "effect s (s_emit e s) [e]"
  by (simp add: effect_def)

lemma sys_frame_effect: "sys_frame s t \<Longrightarrow> effect s t []"
  by (simp add: sys_frame_def effect_def)

lemma c_realloc_frame: "c_realloc p n s = (r, s') \<Longrightarrow> sys_frame s s'"
  by (auto simp: c_realloc_def sys_frame_def Let_def split: if_splits)

lemma c_free_frame [simp]: "sys_frame s (c_free p s)"
  by (simp add: c_free_def sys_frame_def split: option.split)

lemma c_free_live: "s_live (c_free p s) = s_live s - (if p = None then 0 else 1)"
  by (simp add: c_free_def split: option.split)

lemma c_realloc_length:
  "c_realloc p n s = (Some d, s') \<Longrightarrow> length d = unat n"
  by (auto simp: c_realloc_def Let_def split: if_splits option.splits)

lemma c_realloc_prefix:
  "c_realloc (Some old) n s = (Some d, s') \<Longrightarrow> k \<le> length old \<Longrightarrow> k \<le> unat n \<Longrightarrow>
   take k d = take k old"
  by (auto simp: c_realloc_def Let_def min_def split: if_splits)

lemma c_memcpy_Some:
  "n \<le> length src \<Longrightarrow> off + n \<le> length dst \<Longrightarrow>
   c_memcpy dst off src n = Some (take off dst @ take n src @ drop (off + n) dst)"
  by (simp add: c_memcpy_def)

lemma c_memmove_down_Some:
  "off + n \<le> length dst \<Longrightarrow> c_memmove_down dst off n = Some (take n (drop off dst) @ drop n dst)"
  by (simp add: c_memmove_down_def)

lemma length_c_str [simp]: "length (c_str t) = length t"
  by (simp add: c_str_def)

lemma take_append_exact: "length xs = n \<Longrightarrow> take n (xs @ ys) = xs"
  by simp

end
