(* ===== verification/WC_Buffer.thy ===== *)
theory WC_Buffer
  imports WC_Prelude
begin

text \<open>
  The bounded byte buffer of \<^verbatim>\<open>src/src/buffer.c\<close>: the struct, its growth policy and
  its four operations, the well-formedness invariant every operation keeps, and
  the refinement of the struct to the byte sequence it holds.

  \<open>buf_data\<close> is the allocation, \<open>None\<close> for the null pointer; the list has one entry
  per allocated byte, of which the first \<open>buf_length\<close> are the contents. An operation
  named \<open>f\<close> models \<open>f\<close> on an existing buffer object; \<open>f_ptr\<close> is the entry point with
  its test for a null buffer.
\<close>

section \<open>The struct and its operations\<close>

record wc_buffer =
  buf_data :: "byte list option"
  buf_length :: size_t
  buf_capacity :: size_t
  buf_max_size :: size_t

definition WC_BUFFER_INITIAL_CAPACITY :: size_t where
  "WC_BUFFER_INITIAL_CAPACITY = 64"

text \<open>The doubling loop; \<open>None\<close> when it never ends.\<close>

partial_function (option) wc_buffer_grow_loop ::
  "size_t \<Rightarrow> size_t \<Rightarrow> size_t \<Rightarrow> size_t option" where
  "wc_buffer_grow_loop max_size required_capacity new_capacity =
     (if new_capacity < required_capacity then
        wc_buffer_grow_loop max_size required_capacity
          (if new_capacity > max_size div 2 then max_size else new_capacity * 2)
      else Some new_capacity)"

declare wc_buffer_grow_loop.simps [code]

text \<open>The capacity the loop starts from.\<close>

definition wc_buffer_grow_start :: "wc_buffer \<Rightarrow> size_t" where
  "wc_buffer_grow_start buffer =
     (let c0 = (if buf_capacity buffer = 0 then WC_BUFFER_INITIAL_CAPACITY
                else buf_capacity buffer)
      in if c0 > buf_max_size buffer then buf_max_size buffer else c0)"

definition wc_buffer_grow ::
  "wc_buffer \<Rightarrow> size_t \<Rightarrow> 'n sys \<Rightarrow> (status \<times> wc_buffer \<times> 'n sys) option" where
  "wc_buffer_grow buffer required_capacity s =
     (if required_capacity \<le> buf_capacity buffer then Some (wc_ok, buffer, s)
      else do {
          new_capacity \<leftarrow> wc_buffer_grow_loop (buf_max_size buffer) required_capacity
                           (wc_buffer_grow_start buffer);
          case c_realloc (buf_data buffer) new_capacity s of
            (None, s') \<Rightarrow> Some (Inl ENOMEM, buffer, s')
          | (Some new_data, s') \<Rightarrow>
              Some (wc_ok, buffer\<lparr>buf_data := Some new_data, buf_capacity := new_capacity\<rparr>, s')
        })"

definition wc_buffer_init :: "size_t \<Rightarrow> status \<times> wc_buffer" where
  "wc_buffer_init max_size =
     (wc_ok, \<lparr>buf_data = None, buf_length = 0, buf_capacity = 0, buf_max_size = max_size\<rparr>)"

definition wc_buffer_append ::
  "wc_buffer \<Rightarrow> byte list option \<Rightarrow> size_t \<Rightarrow> 'n sys \<Rightarrow> (status \<times> wc_buffer \<times> 'n sys) option" where
  "wc_buffer_append buffer data sz s =
     (if data = None \<and> sz \<noteq> 0 then Some (Inl EINVAL, buffer, s)
      else if sz > buf_max_size buffer - buf_length buffer then Some (Inl EMSGSIZE, buffer, s)
      else if sz = 0 then Some (wc_ok, buffer, s)
      else do {
        (r, b, s') \<leftarrow> wc_buffer_grow buffer (buf_length buffer + sz) s;
        case r of
          Inl e \<Rightarrow> Some (Inl e, b, s')
        | Inr _ \<Rightarrow> do {
            dst \<leftarrow> buf_data b;
            src \<leftarrow> data;
            d \<leftarrow> c_memcpy dst (unat (buf_length b)) src (unat sz);
            Some (wc_ok, b\<lparr>buf_data := Some d, buf_length := buf_length b + sz\<rparr>, s')
          }
      })"

definition wc_buffer_consume :: "wc_buffer \<Rightarrow> size_t \<Rightarrow> (status \<times> wc_buffer) option" where
  "wc_buffer_consume buffer sz =
     (if sz > buf_length buffer then Some (Inl EINVAL, buffer)
      else if sz = 0 then Some (wc_ok, buffer)
      else let remaining = buf_length buffer - sz in do {
        dst \<leftarrow> buf_data buffer;
        d \<leftarrow> c_memmove_down dst (unat sz) (unat remaining);
        Some (wc_ok, buffer\<lparr>buf_data := Some d, buf_length := remaining\<rparr>)
      })"

definition wc_buffer_destroy :: "wc_buffer \<Rightarrow> 'n sys \<Rightarrow> wc_buffer \<times> 'n sys" where
  "wc_buffer_destroy buffer s =
     (buffer\<lparr>buf_data := None, buf_length := 0, buf_capacity := 0, buf_max_size := 0\<rparr>,
      c_free (buf_data buffer) s)"

text \<open>The entry points, which first test the buffer pointer itself.\<close>

definition wc_buffer_init_ptr :: "wc_buffer option \<Rightarrow> size_t \<Rightarrow> status \<times> wc_buffer option" where
  "wc_buffer_init_ptr p max_size =
     (case p of None \<Rightarrow> (Inl EINVAL, None) | Some _ \<Rightarrow> map_prod id Some (wc_buffer_init max_size))"

definition wc_buffer_append_ptr ::
  "wc_buffer option \<Rightarrow> byte list option \<Rightarrow> size_t \<Rightarrow> 'n sys \<Rightarrow>
   (status \<times> wc_buffer option \<times> 'n sys) option" where
  "wc_buffer_append_ptr p data sz s =
     (case p of None \<Rightarrow> Some (Inl EINVAL, None, s)
      | Some b \<Rightarrow> map_option (map_prod id (map_prod Some id)) (wc_buffer_append b data sz s))"

definition wc_buffer_consume_ptr ::
  "wc_buffer option \<Rightarrow> size_t \<Rightarrow> (status \<times> wc_buffer option) option" where
  "wc_buffer_consume_ptr p sz =
     (case p of None \<Rightarrow> Some (Inl EINVAL, None)
      | Some b \<Rightarrow> map_option (map_prod id Some) (wc_buffer_consume b sz))"

definition wc_buffer_destroy_ptr ::
  "wc_buffer option \<Rightarrow> 'n sys \<Rightarrow> wc_buffer option \<times> 'n sys" where
  "wc_buffer_destroy_ptr p s =
     (case p of None \<Rightarrow> (None, s) | Some b \<Rightarrow> map_prod Some id (wc_buffer_destroy b s))"

section \<open>Invariant and abstraction\<close>

definition buf_block :: "wc_buffer \<Rightarrow> byte list" where
  "buf_block b = (case buf_data b of None \<Rightarrow> [] | Some d \<Rightarrow> d)"

definition buf_wf :: "wc_buffer \<Rightarrow> bool" where
  "buf_wf b \<longleftrightarrow>
     unat (buf_length b) \<le> unat (buf_capacity b) \<and>
     unat (buf_capacity b) \<le> unat (buf_max_size b) \<and>
     length (buf_block b) = unat (buf_capacity b) \<and>
     (buf_data b = None \<longleftrightarrow> buf_capacity b = 0)"

definition buf_bytes :: "wc_buffer \<Rightarrow> byte list" where
  "buf_bytes b = take (unat (buf_length b)) (buf_block b)"

text \<open>The byte blocks a buffer owns.\<close>

definition buf_owned :: "wc_buffer \<Rightarrow> int" where
  "buf_owned b = (if buf_data b = None then 0 else 1)"

lemma buf_wf_D:
  assumes "buf_wf b"
  shows "unat (buf_length b) \<le> unat (buf_max_size b)"
    and "unat (buf_length b) \<le> length (buf_block b)"
    and "length (buf_bytes b) = unat (buf_length b)"
  using assms by (auto simp: buf_wf_def buf_bytes_def)

lemma buf_length_zero_iff: "buf_wf b \<Longrightarrow> buf_length b = 0 \<longleftrightarrow> buf_bytes b = []"
  using buf_wf_D(3) [of b] by (metis length_0_conv unat_zero_iff_size)

lemma buf_wf_null: "buf_wf b \<Longrightarrow> buf_data b = None \<Longrightarrow> buf_length b = 0"
  by (auto simp: buf_wf_def)

lemma buf_length_of_nat:
  "buf_wf b \<Longrightarrow> buf_length b = of_nat (length (buf_bytes b))"
  by (simp add: buf_wf_D)

section \<open>The growth loop\<close>

lemma half_max_double:
  fixes m c :: size_t
  assumes "\<not> c > m div 2"
  shows "unat (c * 2) = 2 * unat c" and "2 * unat c \<le> unat m"
proof -
  have "unat c \<le> unat m div 2"
    using assms by (simp add: word_less_nat_alt unat_div)
  then show *: "2 * unat c \<le> unat m" by linarith
  from * unat_size_bound [of m] have "2 * unat c < 18446744073709551616"
    by linarith
  then show "unat (c * 2) = 2 * unat c"
    by (simp add: unat_word_ariths mult.commute)
qed

lemma grow_loop_total:
  assumes "0 < unat c" "unat c \<le> unat m" "unat r \<le> unat m"
  shows "\<exists>n. wc_buffer_grow_loop m r c = Some n \<and> unat r \<le> unat n \<and> unat n \<le> unat m \<and>
             unat c \<le> unat n"
  using assms
proof (induction "unat r - unat c" arbitrary: c rule: less_induct)
  case less
  show ?case
  proof (cases "c < r")
    case False
    with less.prems show ?thesis
      by (auto simp: wc_buffer_grow_loop.simps [of m r c] word_less_nat_alt)
  next
    case lt: True
    let ?c = "if c > m div 2 then m else c * 2"
    have c: "unat c < unat ?c" "unat ?c \<le> unat m"
      using less.prems lt half_max_double [of m c] by (auto simp: word_less_nat_alt)
    have "\<exists>n. wc_buffer_grow_loop m r ?c = Some n \<and> unat r \<le> unat n \<and> unat n \<le> unat m \<and>
          unat ?c \<le> unat n"
      using less.hyps [of ?c] less.prems lt c by (auto simp: word_less_nat_alt)
    with lt c show ?thesis
      by (auto simp: wc_buffer_grow_loop.simps [of m r c])
  qed
qed

text \<open>Without the bound the loop never returns: the guard in \<open>wc_buffer_append\<close> matters.\<close>

lemma grow_loop_result:
  assumes "wc_buffer_grow_loop m r c = Some n"
  shows "unat r \<le> unat n \<and> (unat c \<le> unat m \<longrightarrow> unat n \<le> unat m)"
proof (rule wc_buffer_grow_loop.raw_induct
    [where P = "\<lambda>m r c n. unat r \<le> unat n \<and> (unat c \<le> unat m \<longrightarrow> unat n \<le> unat m)", OF _ assms])
  fix f m r c n
  assume IH: "\<And>m r c n. f m r c = Some n \<Longrightarrow>
      unat (r :: size_t) \<le> unat (n :: size_t) \<and> (unat (c :: size_t) \<le> unat (m :: size_t) \<longrightarrow> unat n \<le> unat m)"
    and eq: "(if c < r then f m r (if c > m div 2 then m else c * 2) else Some c) = Some n"
  show "unat r \<le> unat n \<and> (unat c \<le> unat m \<longrightarrow> unat n \<le> unat m)"
  proof (cases "c < r")
    case True
    with eq have "f m r (if c > m div 2 then m else c * 2) = Some n" by simp
    from IH [OF this] show ?thesis
      using half_max_double [of m c] by (auto split: if_splits)
  next
    case False
    with eq show ?thesis by (auto simp: word_less_nat_alt)
  qed
qed

lemma grow_loop_diverges:
  assumes "unat m < unat r" "unat c \<le> unat m"
  shows "wc_buffer_grow_loop m r c = None"
  using grow_loop_result [of m r c] assms
  by (cases "wc_buffer_grow_loop m r c") auto

section \<open>What each operation does\<close>

lemma buf_room:
  assumes "buf_wf b"
  shows "(n > buf_max_size b - buf_length b) =
         (unat n > unat (buf_max_size b) - unat (buf_length b))"
  using buf_wf_D(1) [OF assms] by (simp add: word_less_nat_alt unat_sub_if')

lemma buf_length_add:
  assumes "buf_wf b" "unat n \<le> unat (buf_max_size b) - unat (buf_length b)"
  shows "unat (buf_length b + n) = unat (buf_length b) + unat n"
proof -
  have "unat (buf_length b) + unat n \<le> unat (buf_max_size b)"
    using assms buf_wf_D(1) [OF assms(1)] by linarith
  with unat_size_bound [of "buf_max_size b"]
  have "unat (buf_length b) + unat n < 18446744073709551616" by linarith
  then show ?thesis by (simp add: unat_plus_if')
qed

lemma grow_start:
  assumes "buf_wf b" "0 < unat r" "unat r \<le> unat (buf_max_size b)"
  shows "0 < unat (wc_buffer_grow_start b)"
    and "unat (wc_buffer_grow_start b) \<le> unat (buf_max_size b)"
proof -
  have "0 < unat (buf_max_size b)" using assms(2,3) by linarith
  then show "0 < unat (wc_buffer_grow_start b)"
    by (auto simp: wc_buffer_grow_start_def WC_BUFFER_INITIAL_CAPACITY_def Let_def unat_gt_0)
  show "unat (wc_buffer_grow_start b) \<le> unat (buf_max_size b)"
    by (auto simp: wc_buffer_grow_start_def Let_def word_less_nat_alt)
qed

lemma grow_spec:
  assumes wf: "buf_wf b" and r: "0 < unat r" "unat r \<le> unat (buf_max_size b)"
  obtains st b' s' where "wc_buffer_grow b r s = Some (st, b', s')"
    "buf_wf b'" "buf_bytes b' = buf_bytes b" "buf_max_size b' = buf_max_size b"
    "buf_length b' = buf_length b" "sys_frame s s'"
    "s_live s' = s_live s + buf_owned b' - buf_owned b"
    "st = wc_ok \<and> unat r \<le> unat (buf_capacity b') \<or> st = Inl ENOMEM \<and> b' = b \<and> \<not> mem_ample s"
proof (cases "r \<le> buf_capacity b")
  case True
  then show ?thesis
    using wf by (intro that [of wc_ok b s]) (auto simp: wc_buffer_grow_def word_le_nat_alt)
next
  case False
  obtain n where n: "wc_buffer_grow_loop (buf_max_size b) r (wc_buffer_grow_start b) = Some n"
      "unat r \<le> unat n" "unat n \<le> unat (buf_max_size b)"
    using grow_loop_total [OF grow_start [OF wf r] r(2)] by blast
  obtain q s' where q: "c_realloc (buf_data b) n s = (q, s')" by fastforce
  have run: "wc_buffer_grow b r s =
      (case q of None \<Rightarrow> Some (Inl ENOMEM, b, s')
       | Some d \<Rightarrow> Some (wc_ok, b\<lparr>buf_data := Some d, buf_capacity := n\<rparr>, s'))"
    using False n(1) q by (simp add: wc_buffer_grow_def split: option.split)
  show ?thesis
  proof (cases q)
    case None
    then have "\<not> mem_ample s" "s_live s' = s_live s"
      using q by (auto simp: c_realloc_def mem_ample_def Let_def split: if_splits)
    with None run wf q show ?thesis
      by (intro that [of "Inl ENOMEM" b s']) (auto simp: c_realloc_frame)
  next
    case (Some d)
    let ?b = "b\<lparr>buf_data := Some d, buf_capacity := n\<rparr>"
    have len: "length d = unat n" using q Some by (simp add: c_realloc_length)
    have lim: "unat (buf_length b) \<le> unat n" "unat (buf_capacity b) < unat n" "n \<noteq> 0"
      using wf False n(2) r by (auto simp: buf_wf_def word_le_nat_alt)
    have "buf_wf ?b"
      using len lim n(3) wf by (auto simp: buf_wf_def buf_block_def)
    moreover have "take (unat (buf_length b)) d = buf_bytes b"
      using q Some lim wf
      by (cases "buf_data b")
         (auto simp: buf_bytes_def buf_block_def buf_wf_def c_realloc_prefix)
    moreover have "s_live s' = s_live s + buf_owned ?b - buf_owned b"
      using q Some by (auto simp: c_realloc_def buf_owned_def Let_def split: if_splits)
    ultimately show ?thesis
      using run Some q n(2)
      by (intro that [of wc_ok ?b s']) (auto simp: c_realloc_frame buf_bytes_def buf_block_def)
  qed
qed

lemma append_bytes:
  assumes wf: "buf_wf b" and cap: "unat (buf_length b) + unat n \<le> unat (buf_capacity b)"
    and dst: "buf_data b = Some dst" and src: "unat n \<le> length src"
    and add: "unat (buf_length b + n) = unat (buf_length b) + unat n"
  defines "d \<equiv> take (unat (buf_length b)) dst @ take (unat n) src @
                drop (unat (buf_length b) + unat n) dst"
  defines "b' \<equiv> b\<lparr>buf_data := Some d, buf_length := buf_length b + n\<rparr>"
  shows "buf_wf b'" and "buf_bytes b' = buf_bytes b @ take (unat n) src"
proof -
  have l: "length dst = unat (buf_capacity b)"
    using wf dst by (simp add: buf_wf_def buf_block_def)
  show "buf_wf b'"
    using wf cap dst src add l by (auto simp: b'_def d_def buf_wf_def buf_block_def)
  show "buf_bytes b' = buf_bytes b @ take (unat n) src"
    using cap dst src add l by (simp add: b'_def d_def buf_bytes_def buf_block_def)
qed

lemma append_spec:
  assumes wf: "buf_wf b" and src: "case data of None \<Rightarrow> n = 0 | Some d \<Rightarrow> unat n \<le> length d"
    and room: "unat n \<le> unat (buf_max_size b) - unat (buf_length b)"
  obtains st b' s' where "wc_buffer_append b data n s = Some (st, b', s')"
    "buf_wf b'" "buf_max_size b' = buf_max_size b" "sys_frame s s'"
    "s_live s' = s_live s + buf_owned b' - buf_owned b"
    "st = wc_ok \<and> buf_bytes b' = buf_bytes b @ take (unat n) (case data of None \<Rightarrow> [] | Some d \<Rightarrow> d)
     \<or> st = Inl ENOMEM \<and> b' = b \<and> \<not> mem_ample s"
proof (cases "n = 0")
  case True
  then show ?thesis
    using wf room buf_room [OF wf, of 0] by (intro that [of wc_ok b s]) (auto simp: wc_buffer_append_def)
next
  case False
  then obtain src' where d: "data = Some src'" and ls: "unat n \<le> length src'"
    using src by (cases data) auto
  have add: "unat (buf_length b + n) = unat (buf_length b) + unat n"
    by (rule buf_length_add [OF wf room])
  have pos: "0 < unat (buf_length b + n)" "unat (buf_length b + n) \<le> unat (buf_max_size b)"
    using add False room buf_wf_D(1) [OF wf] by (auto simp: unat_gt_0)
  obtain st b1 s1 where g: "wc_buffer_grow b (buf_length b + n) s = Some (st, b1, s1)"
    and b1: "buf_wf b1" "buf_bytes b1 = buf_bytes b" "buf_max_size b1 = buf_max_size b"
      "buf_length b1 = buf_length b" "sys_frame s s1"
      "s_live s1 = s_live s + buf_owned b1 - buf_owned b"
    and st: "st = wc_ok \<and> unat (buf_length b + n) \<le> unat (buf_capacity b1)
             \<or> st = Inl ENOMEM \<and> b1 = b \<and> \<not> mem_ample s"
    using grow_spec [OF wf pos, of s] by blast
  have guard: "\<not> n > buf_max_size b - buf_length b"
    using room buf_room [OF wf] by simp
  from st show ?thesis
  proof
    assume "st = Inl ENOMEM \<and> b1 = b \<and> \<not> mem_ample s"
    then show ?thesis
      using g b1 d guard False
      by (intro that [of "Inl ENOMEM" b s1]) (auto simp: wc_buffer_append_def)
  next
    assume ok: "st = wc_ok \<and> unat (buf_length b + n) \<le> unat (buf_capacity b1)"
    then obtain dst where dst: "buf_data b1 = Some dst"
      using b1(1) pos by (cases "buf_data b1") (auto simp: buf_wf_def)
    have cap: "unat (buf_length b1) + unat n \<le> unat (buf_capacity b1)"
      using ok add b1(4) by simp
    have l: "length dst = unat (buf_capacity b1)"
      using b1(1) dst by (simp add: buf_wf_def buf_block_def)
    let ?d = "take (unat (buf_length b1)) dst @ take (unat n) src' @
              drop (unat (buf_length b1) + unat n) dst"
    let ?b = "b1\<lparr>buf_data := Some ?d, buf_length := buf_length b1 + n\<rparr>"
    have "wc_buffer_append b data n s = Some (wc_ok, ?b, s1)"
      using ok g d dst guard False cap l ls
      by (simp add: wc_buffer_append_def c_memcpy_def)
    moreover have "buf_wf ?b" "buf_bytes ?b = buf_bytes b1 @ take (unat n) src'"
      using append_bytes [OF b1(1) cap dst ls] add b1(4) by simp_all
    moreover have "buf_owned ?b = buf_owned b1" using dst by (simp add: buf_owned_def)
    ultimately show ?thesis
      using b1 d by (intro that [of wc_ok ?b s1]) auto
  qed
qed

lemma append_too_big:
  assumes "buf_wf b" "unat n > unat (buf_max_size b) - unat (buf_length b)" "data \<noteq> None"
  shows "wc_buffer_append b data n s = Some (Inl EMSGSIZE, b, s)"
  using assms buf_room [of b n] by (auto simp: wc_buffer_append_def)

text \<open>With an allocator that never refuses, an append that fits succeeds.\<close>

lemma append_ample:
  assumes "buf_wf b" "case data of None \<Rightarrow> n = 0 | Some d \<Rightarrow> unat n \<le> length d"
    "unat n \<le> unat (buf_max_size b) - unat (buf_length b)" "mem_ample s"
  obtains b' s' where "wc_buffer_append b data n s = Some (wc_ok, b', s')"
    "buf_wf b'" "buf_max_size b' = buf_max_size b" "sys_frame s s'" "mem_ample s'"
    "buf_bytes b' = buf_bytes b @ take (unat n) (case data of None \<Rightarrow> [] | Some d \<Rightarrow> d)"
    "s_live s' = s_live s + buf_owned b' - buf_owned b"
  using append_spec [OF assms(1-3), of s] assms(4)
  by (metis sys_frame_mem_ample)

lemma consume_spec:
  assumes wf: "buf_wf b" and n: "unat n \<le> length (buf_bytes b)"
  obtains b' where "wc_buffer_consume b n = Some (wc_ok, b')" "buf_wf b'"
    "buf_bytes b' = drop (unat n) (buf_bytes b)" "buf_max_size b' = buf_max_size b"
    "buf_owned b' = buf_owned b"
proof (cases "n = 0")
  case True
  then show ?thesis using wf by (intro that [of b]) (auto simp: wc_buffer_consume_def)
next
  case False
  have le: "unat n \<le> unat (buf_length b)" using n buf_wf_D(3) [OF wf] by simp
  have "0 < unat n" using False by (simp add: unat_gt_0)
  with le wf obtain dst where dst: "buf_data b = Some dst"
    by (cases "buf_data b") (auto simp: buf_wf_def)
  have l: "length dst = unat (buf_capacity b)" "unat (buf_length b) \<le> length dst"
    using wf dst by (auto simp: buf_wf_def buf_block_def)
  have rem: "unat (buf_length b - n) = unat (buf_length b) - unat n"
    using le by (simp add: unat_sub_if')
  let ?d = "take (unat (buf_length b - n)) (drop (unat n) dst) @ drop (unat (buf_length b - n)) dst"
  let ?b = "b\<lparr>buf_data := Some ?d, buf_length := buf_length b - n\<rparr>"
  have "wc_buffer_consume b n = Some (wc_ok, ?b)"
    using False le dst l rem
    by (simp add: wc_buffer_consume_def c_memmove_down_def Let_def word_less_nat_alt)
  moreover have "buf_wf ?b"
    using wf dst l rem by (auto simp: buf_wf_def buf_block_def)
  moreover have "buf_bytes ?b = drop (unat n) (buf_bytes b)"
    using dst l rem le by (simp add: buf_bytes_def buf_block_def drop_take)
  ultimately show ?thesis
    using dst by (intro that [of ?b]) (auto simp: buf_owned_def)
qed

text \<open>Consuming what a call of \<open>send\<close> has accepted.\<close>

lemma consume_sent:
  assumes wf: "buf_wf b"
  obtains b' where "wc_buffer_consume b (of_nat (min k (length (buf_bytes b)))) = Some (wc_ok, b')" "buf_wf b'"
    "buf_bytes b = take k (buf_bytes b) @ buf_bytes b'" "buf_max_size b' = buf_max_size b" "buf_owned b' = buf_owned b"
proof -
  let ?k = "min k (length (buf_bytes b))"
  have "?k < 18446744073709551616"
    using buf_wf_D(3) [OF wf] unat_size_bound [of "buf_length b"] by (intro le_less_trans [OF min.cobounded2]) linarith
  then have uk: "unat (of_nat ?k :: size_t) = ?k" by (rule unat_of_nat_size)
  have le: "unat (of_nat ?k :: size_t) \<le> length (buf_bytes b)" unfolding uk by simp
  obtain b' where b': "wc_buffer_consume b (of_nat ?k) = Some (wc_ok, b')" "buf_wf b'"
    "buf_bytes b' = drop (unat (of_nat ?k :: size_t)) (buf_bytes b)" "buf_max_size b' = buf_max_size b" "buf_owned b' = buf_owned b"
    by (rule consume_spec [OF wf le])
  have "drop ?k (buf_bytes b) = drop k (buf_bytes b)" by (simp add: min_def)
  then have "buf_bytes b = take k (buf_bytes b) @ buf_bytes b'" unfolding b'(3) uk by simp
  from that [OF b'(1,2) this b'(4,5)] show thesis .
qed

lemma consume_too_much:
  assumes "buf_wf b" "unat n > length (buf_bytes b)"
  shows "wc_buffer_consume b n = Some (Inl EINVAL, b)"
  using assms by (simp add: wc_buffer_consume_def word_less_nat_alt buf_wf_D)

lemma init_spec [simp]:
  "fst (wc_buffer_init m) = wc_ok" "buf_wf (snd (wc_buffer_init m))"
  "buf_bytes (snd (wc_buffer_init m)) = []" "buf_max_size (snd (wc_buffer_init m)) = m"
  "buf_owned (snd (wc_buffer_init m)) = 0" "buf_length (snd (wc_buffer_init m)) = 0"
  by (simp_all add: wc_buffer_init_def buf_wf_def buf_bytes_def buf_block_def buf_owned_def)

lemma destroy_spec:
  assumes "wc_buffer_destroy b s = (b', s')"
  shows "buf_wf b'" "buf_bytes b' = []" "buf_max_size b' = 0" "buf_owned b' = 0"
    "sys_frame s s'" "s_live s' = s_live s - buf_owned b"
  using assms
  by (auto simp: wc_buffer_destroy_def buf_wf_def buf_bytes_def buf_block_def buf_owned_def
        c_free_live)

text \<open>Rolling the length back, as the encoders do when the second append fails.\<close>

lemma truncate_spec:
  assumes "buf_wf b" "unat l \<le> unat (buf_length b)"
  shows "buf_wf (b\<lparr>buf_length := l\<rparr>)"
    and "buf_bytes (b\<lparr>buf_length := l\<rparr>) = take (unat l) (buf_bytes b)"
    and "buf_owned (b\<lparr>buf_length := l\<rparr>) = buf_owned b"
  using assms by (auto simp: buf_wf_def buf_bytes_def buf_block_def buf_owned_def min_def)

section \<open>Sequences of operations\<close>

text \<open>
  The contract of the component: a byte sequence that never exceeds its limit. A
  client appends at the end and consumes from the front; an operation that does not
  fit is refused and changes nothing.
\<close>

datatype buf_op = Buf_append "byte list" | Buf_consume nat

fun spec_step :: "nat \<Rightarrow> byte list \<Rightarrow> buf_op \<Rightarrow> status \<times> byte list" where
  "spec_step limit xs (Buf_append d) =
     (if length xs + length d \<le> limit then (wc_ok, xs @ d) else (Inl EMSGSIZE, xs))"
| "spec_step limit xs (Buf_consume n) =
     (if n \<le> length xs then (wc_ok, drop n xs) else (Inl EINVAL, xs))"

fun spec_run :: "nat \<Rightarrow> byte list \<Rightarrow> buf_op list \<Rightarrow> status list \<times> byte list" where
  "spec_run limit xs [] = ([], xs)"
| "spec_run limit xs (x # ops) =
     (let (st, ys) = spec_step limit xs x; (sts, zs) = spec_run limit ys ops in (st # sts, zs))"

fun buf_step :: "wc_buffer \<Rightarrow> buf_op \<Rightarrow> 'n sys \<Rightarrow> (status \<times> wc_buffer \<times> 'n sys) option" where
  "buf_step b (Buf_append d) s = wc_buffer_append b (Some d) (of_nat (length d)) s"
| "buf_step b (Buf_consume n) s =
     map_option (\<lambda>(st, b'). (st, b', s)) (wc_buffer_consume b (of_nat n))"

fun buf_run :: "wc_buffer \<Rightarrow> buf_op list \<Rightarrow> 'n sys \<Rightarrow> (status list \<times> wc_buffer \<times> 'n sys) option" where
  "buf_run b [] s = Some ([], b, s)"
| "buf_run b (x # ops) s = do {
     (st, b', s') \<leftarrow> buf_step b x s;
     (sts, b'', s'') \<leftarrow> buf_run b' ops s';
     Some (st # sts, b'', s'')
   }"

text \<open>The arguments of an operation are C sizes.\<close>

fun op_sized :: "buf_op \<Rightarrow> bool" where
  "op_sized (Buf_append d) = (length d < 2 ^ 64)"
| "op_sized (Buf_consume n) = (n < 2 ^ 64)"

lemma buf_step_refines:
  assumes wf: "buf_wf b" and "mem_ample s" and sz: "op_sized x"
  obtains b' s' where
    "buf_step b x s = Some (fst (spec_step (unat (buf_max_size b)) (buf_bytes b) x), b', s')"
    "buf_wf b'" "buf_max_size b' = buf_max_size b" "mem_ample s'" "sys_frame s s'"
    "buf_bytes b' = snd (spec_step (unat (buf_max_size b)) (buf_bytes b) x)"
    "s_live s' - buf_owned b' = s_live s - buf_owned b"
proof (cases x)
  case (Buf_append d)
  have u: "unat (of_nat (length d) :: size_t) = length d" using sz Buf_append by simp
  have le: "length (buf_bytes b) \<le> unat (buf_max_size b)" using buf_wf_D [OF wf] by simp
  show ?thesis
  proof (cases "length (buf_bytes b) + length d \<le> unat (buf_max_size b)")
    case True
    then have room: "unat (of_nat (length d) :: size_t) \<le> unat (buf_max_size b) - unat (buf_length b)"
      using u buf_wf_D(3) [OF wf] by simp
    obtain b' s' where "wc_buffer_append b (Some d) (of_nat (length d)) s = Some (wc_ok, b', s')"
      "buf_wf b'" "buf_max_size b' = buf_max_size b" "sys_frame s s'" "mem_ample s'"
      "buf_bytes b' = buf_bytes b @ d" "s_live s' = s_live s + buf_owned b' - buf_owned b"
      using append_ample [OF wf _ room \<open>mem_ample s\<close>, of "Some d"] u by auto
    with Buf_append True show ?thesis by (intro that [of b' s']) auto
  next
    case False
    then have "wc_buffer_append b (Some d) (of_nat (length d)) s = Some (Inl EMSGSIZE, b, s)"
      using u le buf_wf_D(3) [OF wf] by (intro append_too_big [OF wf]) auto
    with Buf_append False wf \<open>mem_ample s\<close> show ?thesis by (intro that [of b s]) auto
  qed
next
  case (Buf_consume n)
  have u: "unat (of_nat n :: size_t) = n" using sz Buf_consume by simp
  show ?thesis
  proof (cases "n \<le> length (buf_bytes b)")
    case True
    then obtain b' where "wc_buffer_consume b (of_nat n) = Some (wc_ok, b')" "buf_wf b'"
      "buf_bytes b' = drop n (buf_bytes b)" "buf_max_size b' = buf_max_size b"
      "buf_owned b' = buf_owned b"
      using consume_spec [OF wf, of "of_nat n"] u by auto
    with Buf_consume True \<open>mem_ample s\<close> show ?thesis by (intro that [of b' s]) auto
  next
    case False
    then have "wc_buffer_consume b (of_nat n) = Some (Inl EINVAL, b)"
      using u by (intro consume_too_much [OF wf]) auto
    with Buf_consume False wf \<open>mem_ample s\<close> show ?thesis by (intro that [of b s]) auto
  qed
qed

lemma buf_run_refines:
  assumes "buf_wf b" "mem_ample s" "list_all op_sized ops"
  obtains b' s' where
    "buf_run b ops s = Some (fst (spec_run (unat (buf_max_size b)) (buf_bytes b) ops), b', s')"
    "buf_wf b'" "buf_max_size b' = buf_max_size b"
    "buf_bytes b' = snd (spec_run (unat (buf_max_size b)) (buf_bytes b) ops)"
    "s_live s' - buf_owned b' = s_live s - buf_owned b"
  using assms
proof (induction ops arbitrary: b s thesis)
  case Nil
  then show ?case by simp
next
  case (Cons x ops)
  obtain b1 s1 where step:
      "buf_step b x s = Some (fst (spec_step (unat (buf_max_size b)) (buf_bytes b) x), b1, s1)"
    and b1: "buf_wf b1" "buf_max_size b1 = buf_max_size b" "mem_ample s1"
      "buf_bytes b1 = snd (spec_step (unat (buf_max_size b)) (buf_bytes b) x)"
      "s_live s1 - buf_owned b1 = s_live s - buf_owned b"
    by (rule buf_step_refines [OF Cons.prems(2,3)]) (use Cons.prems(4) in auto)
  obtain b2 s2 where
      "buf_run b1 ops s1 = Some (fst (spec_run (unat (buf_max_size b1)) (buf_bytes b1) ops), b2, s2)"
      "buf_wf b2" "buf_max_size b2 = buf_max_size b1"
      "buf_bytes b2 = snd (spec_run (unat (buf_max_size b1)) (buf_bytes b1) ops)"
      "s_live s2 - buf_owned b2 = s_live s1 - buf_owned b1"
    by (rule Cons.IH [OF _ b1(1,3)]) (use Cons.prems(4) in auto)
  with step b1 show ?case
    by (intro Cons.prems(1) [of b2 s2]) (auto simp: Let_def split_beta)
qed

section \<open>Properties\<close>

text \<open>
  C33. The doubling loop of \<^verbatim>\<open>wc_buffer_grow\<close>, started from a positive capacity within the
  limit: when the required capacity is within the limit, it ends with a capacity between the
  required one and the limit; when it is not, the loop runs forever.
\<close>

theorem grow_loop_returns:
  assumes "0 < unat new_capacity" "unat new_capacity \<le> unat max_size"
  shows "if unat required \<le> unat max_size
         then \<exists>n. wc_buffer_grow_loop max_size required new_capacity = Some n \<and>
                unat required \<le> unat n \<and> unat n \<le> unat max_size
         else wc_buffer_grow_loop max_size required new_capacity = None"
proof (cases "unat required \<le> unat max_size")
  case True
  with grow_loop_total [OF assms] grow_loop_result [of max_size required new_capacity] assms
  show ?thesis by fastforce
next
  case False
  with grow_loop_result [of max_size required new_capacity] assms show ?thesis
    by (cases "wc_buffer_grow_loop max_size required new_capacity") fastforce+
qed

theorem grow_loop_returns_witness:
  "wc_buffer_grow_loop 1000 500 64 = Some 512 \<and> (500 :: nat) \<le> 512 \<and> (512 :: nat) \<le> 1000"
  using grow_loop_returns [of 64 1000 500] by (simp add: wc_buffer_grow_loop.simps)

text \<open>
  C34. Appending to a well-formed buffer is defined for every source that has the announced
  bytes: it is refused with EMSGSIZE when the bytes do not fit below the limit, it fails with
  ENOMEM only if the allocator refuses, and otherwise it adds exactly the announced bytes at
  the end. A failed append changes nothing, and the buffer stays well formed.
\<close>

theorem append_correct:
  assumes "buf_wf b" "unat n \<le> length d"
  shows "\<exists>st b' s'. wc_buffer_append b (Some d) n s = Some (st, b', s') \<and>
           buf_wf b' \<and> buf_max_size b' = buf_max_size b \<and>
           (if unat n > unat (buf_max_size b) - length (buf_bytes b)
            then st = Inl EMSGSIZE \<and> b' = b \<and> s' = s
            else st = wc_ok \<and> buf_bytes b' = buf_bytes b @ take (unat n) d
               \<or> st = Inl ENOMEM \<and> b' = b \<and> \<not> mem_ample s)"
proof (cases "unat n > unat (buf_max_size b) - length (buf_bytes b)")
  case True
  then show ?thesis
    using append_too_big [OF assms(1), of n "Some d" s] buf_wf_D(3) [OF assms(1)] assms(1) by simp
next
  case False
  then have room: "unat n \<le> unat (buf_max_size b) - unat (buf_length b)"
    using buf_wf_D(3) [OF assms(1)] by simp
  have src: "case Some d of None \<Rightarrow> n = 0 | Some d \<Rightarrow> unat n \<le> length d"
    using assms(2) by simp
  show ?thesis
    by (rule append_spec [OF assms(1) src room, of s]) (use False in auto)
qed

text \<open>
  Consuming from a well-formed buffer is always defined: it removes exactly the first
  bytes, keeping the rest in order, or returns EINVAL and changes nothing when fewer bytes
  are held.
\<close>

theorem consume_correct:
  assumes "buf_wf b"
  shows "\<exists>st b'. wc_buffer_consume b n = Some (st, b') \<and> buf_wf b' \<and>
           buf_max_size b' = buf_max_size b \<and>
           (if unat n \<le> length (buf_bytes b) then st = wc_ok \<and> buf_bytes b' = drop (unat n) (buf_bytes b)
            else st = Inl EINVAL \<and> b' = b)"
proof (cases "unat n \<le> length (buf_bytes b)")
  case True
  then show ?thesis using consume_spec [OF assms True] by metis
next
  case False
  then show ?thesis using consume_too_much [OF assms] assms by simp
qed

text \<open>
  C32. A buffer made by \<^verbatim>\<open>wc_buffer_init\<close> refines a bounded byte sequence: with an allocator
  that never refuses, every sequence of appends and consumes, of fewer than \<open>2 ^ 64\<close> bytes each,
  returns the statuses and holds the bytes of the specification, and \<^verbatim>\<open>wc_buffer_destroy\<close> then gives back every block.
\<close>

theorem buffer_refines_bounded_sequence:
  assumes "mem_ample s" "list_all op_sized ops"
  shows "\<exists>b s'. buf_run (snd (wc_buffer_init m)) ops s = Some (fst (spec_run (unat m) [] ops), b, s') \<and>
           buf_wf b \<and> buf_bytes b = snd (spec_run (unat m) [] ops) \<and>
           length (buf_bytes b) \<le> unat m \<and>
           s_live (snd (wc_buffer_destroy b s')) = s_live s"
proof -
  obtain b s' where "buf_run (snd (wc_buffer_init m)) ops s = Some (fst (spec_run (unat m) [] ops), b, s')"
      "buf_wf b" "buf_max_size b = m" "buf_bytes b = snd (spec_run (unat m) [] ops)"
      "s_live s' - buf_owned b = s_live s"
    using buf_run_refines [of "snd (wc_buffer_init m)" s ops] assms by auto
  then show ?thesis
    using buf_wf_D [of b] by (auto simp: wc_buffer_destroy_def c_free_live buf_owned_def)
qed

section \<open>Witnesses\<close>

definition sys0 :: "'n sys" where
  "sys0 = \<lparr>s_clock = 0, s_grant = (\<lambda>_ _. True), s_fill = (\<lambda>_ _. 170), s_live = 0,
     s_nodes = Map.empty, s_popen = (\<lambda>_ _. Popen_ok [] False (Exited 0)), s_trace = []\<rparr>"

definition buf_ab :: wc_buffer where
  "buf_ab = \<lparr>buf_data = Some [97, 98, 0, 0], buf_length = 2, buf_capacity = 4, buf_max_size = 4\<rparr>"

lemma buf_ab_facts: "buf_wf buf_ab" "buf_bytes buf_ab = [97, 98]"
  by (simp_all add: buf_ab_def buf_wf_def buf_bytes_def buf_block_def)

lemma mem_ample_sys0: "mem_ample (sys0 :: 'n sys)"
  by (simp add: mem_ample_def sys0_def)

theorem append_correct_witness:
  "wc_buffer_append buf_ab (Some [99, 100, 101]) 3 (sys0 :: unit sys) = Some (Inl EMSGSIZE, buf_ab, sys0)"
  using append_correct [of buf_ab 3 "[99, 100, 101]" "sys0 :: unit sys"] buf_ab_facts
  by (auto simp: buf_ab_def)

theorem consume_correct_witness:
  "\<exists>b'. wc_buffer_consume buf_ab 1 = Some (wc_ok, b') \<and> buf_bytes b' = [98]"
  using consume_correct [of buf_ab 1] buf_ab_facts by auto

theorem buffer_refines_bounded_sequence_witness:
  "\<exists>b s'. buf_run (snd (wc_buffer_init 3)) [Buf_append [1, 2], Buf_append [3, 4], Buf_consume 1]
            (sys0 :: unit sys) = Some ([wc_ok, Inl EMSGSIZE, wc_ok], b, s') \<and> buf_bytes b = [2]"
  using buffer_refines_bounded_sequence [of "sys0 :: unit sys"
      "[Buf_append [1, 2], Buf_append [3, 4], Buf_consume 1]" 3] mem_ample_sys0
  by auto

end
