(* ===== verification/WC_Protocol.thy ===== *)
theory WC_Protocol
  imports WC_Buffer
begin

unbundle bit_operations_syntax

text \<open>
  The binary protocol of \<^verbatim>\<open>src/src/protocol.c\<close>: the two encoders, the two incremental
  parsers and their private integer helpers; an arithmetic specification of the
  two frame layouts; and the interface \<open>framing\<close> that both parsers implement, in
  which the independence of parsing from the fragmentation of the stream is proved
  once.

  A C enumeration is an \<open>int\<close>, so that values outside the enumeration reach the
  validity tests. A parsed request or response borrows its payload: the pointer
  \<open>data + k\<close> is the offset \<open>k\<close> into the parsed data, read through \<open>request_view\<close> and
  \<open>response_view\<close>. The outer \<open>None\<close> of a parser is a read outside the data; the
  message and the consumed count are \<open>None\<close> when the call does not assign them.
\<close>

section \<open>Constants and data\<close>

abbreviation (input) WC_PROTOCOL_REQUEST_LENGTH_OFFSET :: nat where
  "WC_PROTOCOL_REQUEST_LENGTH_OFFSET \<equiv> 0"

abbreviation (input) WC_PROTOCOL_REQUEST_TYPE_OFFSET :: nat where
  "WC_PROTOCOL_REQUEST_TYPE_OFFSET \<equiv> 2"

abbreviation (input) WC_PROTOCOL_REQUEST_ARGUMENT_LENGTH_OFFSET :: nat where
  "WC_PROTOCOL_REQUEST_ARGUMENT_LENGTH_OFFSET \<equiv> 4"

abbreviation (input) WC_PROTOCOL_REQUEST_HEADER_SIZE :: size_t where
  "WC_PROTOCOL_REQUEST_HEADER_SIZE \<equiv> 6"

abbreviation (input) WC_PROTOCOL_RESPONSE_LENGTH_OFFSET :: nat where
  "WC_PROTOCOL_RESPONSE_LENGTH_OFFSET \<equiv> 0"

abbreviation (input) WC_PROTOCOL_RESPONSE_HEADER_SIZE :: size_t where
  "WC_PROTOCOL_RESPONSE_HEADER_SIZE \<equiv> 2"

type_synonym wc_request_type = int

abbreviation (input) WC_REQUEST_LS :: wc_request_type where "WC_REQUEST_LS \<equiv> 1"
abbreviation (input) WC_REQUEST_PWD :: wc_request_type where "WC_REQUEST_PWD \<equiv> 2"
abbreviation (input) WC_REQUEST_CAT :: wc_request_type where "WC_REQUEST_CAT \<equiv> 3"

datatype wc_parse_result = WC_PARSE_COMPLETE | WC_PARSE_NEED_MORE | WC_PARSE_INVALID

record wc_request =
  req_type :: wc_request_type
  req_argument :: nat
  req_argument_length :: size_t
  req_message_length :: size_t

record wc_response =
  rsp_data :: nat
  rsp_data_length :: size_t
  rsp_message_length :: size_t

definition request_view :: "byte list \<Rightarrow> wc_request \<Rightarrow> byte list" where
  "request_view d r = take (unat (req_argument_length r)) (drop (req_argument r) d)"

definition response_view :: "byte list \<Rightarrow> wc_response \<Rightarrow> byte list" where
  "response_view d r = take (unat (rsp_data_length r)) (drop (rsp_data r) d)"

section \<open>Integer helpers\<close>

definition c_byte :: "byte list \<Rightarrow> nat \<Rightarrow> byte option" where
  "c_byte d i = (if i < length d then Some (d ! i) else None)"

definition wc_protocol_decode_u16 :: "byte list \<Rightarrow> nat \<Rightarrow> uint16 option" where
  "wc_protocol_decode_u16 data off = do {
     b0 \<leftarrow> c_byte data off;
     b1 \<leftarrow> c_byte data (Suc off);
     Some (push_bit 8 (ucast b0) OR ucast b1)
   }"

definition wc_protocol_encode_u16 :: "byte list \<Rightarrow> nat \<Rightarrow> uint16 \<Rightarrow> byte list" where
  "wc_protocol_encode_u16 destination off v =
     destination[off := ucast (drop_bit 8 v), Suc off := ucast v]"

definition wc_protocol_request_type_valid :: "int \<Rightarrow> bool" where
  "wc_protocol_request_type_valid type \<longleftrightarrow>
     type = WC_REQUEST_LS \<or> type = WC_REQUEST_PWD \<or> type = WC_REQUEST_CAT"

text \<open>A local array that has not been written yet.\<close>

definition c_local :: "nat \<Rightarrow> 'n sys \<Rightarrow> byte list" where
  "c_local n s = map (s_fill s (s_clock s)) [0..<n]"

section \<open>Encoders\<close>

definition wc_protocol_encode_request ::
  "wc_buffer \<Rightarrow> int \<Rightarrow> byte list option \<Rightarrow> size_t \<Rightarrow> 'n sys \<Rightarrow> (status \<times> wc_buffer \<times> 'n sys) option" where
  "wc_protocol_encode_request output type argument argument_length s =
     (if argument = None \<and> argument_length \<noteq> 0 then Some (Inl EINVAL, output, s)
      else if \<not> wc_protocol_request_type_valid type then Some (Inl EINVAL, output, s)
      else if argument_length > UINT16_MAX - WC_PROTOCOL_REQUEST_HEADER_SIZE
        then Some (Inl EMSGSIZE, output, s)
      else let message_length = WC_PROTOCOL_REQUEST_HEADER_SIZE + argument_length in
        if buf_length output > buf_max_size output \<or>
           message_length > buf_max_size output - buf_length output
        then Some (Inl EMSGSIZE, output, s)
        else let h0 = c_local 6 s;
                 h1 = wc_protocol_encode_u16 h0 WC_PROTOCOL_REQUEST_LENGTH_OFFSET
                        (ucast message_length);
                 h2 = wc_protocol_encode_u16 h1 WC_PROTOCOL_REQUEST_TYPE_OFFSET (word_of_int type);
                 header = wc_protocol_encode_u16 h2 WC_PROTOCOL_REQUEST_ARGUMENT_LENGTH_OFFSET
                            (ucast argument_length);
                 original_length = buf_length output
             in do {
               (r1, o1, s1) \<leftarrow> wc_buffer_append output (Some header) 6 s;
               case r1 of
                 Inl e \<Rightarrow> Some (Inl e, o1, s1)
               | Inr _ \<Rightarrow> do {
                   (r2, o2, s2) \<leftarrow> wc_buffer_append o1 argument argument_length s1;
                   case r2 of
                     Inl e \<Rightarrow> Some (Inl e, o2\<lparr>buf_length := original_length\<rparr>, s2)
                   | Inr _ \<Rightarrow> Some (wc_ok, o2, s2)
                 }
             })"

definition wc_protocol_encode_response ::
  "wc_buffer \<Rightarrow> byte list option \<Rightarrow> size_t \<Rightarrow> 'n sys \<Rightarrow> (status \<times> wc_buffer \<times> 'n sys) option" where
  "wc_protocol_encode_response output data data_length s =
     (if data = None \<and> data_length \<noteq> 0 then Some (Inl EINVAL, output, s)
      else if data_length > UINT16_MAX then Some (Inl EMSGSIZE, output, s)
      else let message_length = WC_PROTOCOL_RESPONSE_HEADER_SIZE + data_length in
        if buf_length output > buf_max_size output \<or>
           message_length > buf_max_size output - buf_length output
        then Some (Inl EMSGSIZE, output, s)
        else let header = wc_protocol_encode_u16 (c_local 2 s) WC_PROTOCOL_RESPONSE_LENGTH_OFFSET
                            (ucast data_length);
                 original_length = buf_length output
             in do {
               (r1, o1, s1) \<leftarrow> wc_buffer_append output (Some header) 2 s;
               case r1 of
                 Inl e \<Rightarrow> Some (Inl e, o1, s1)
               | Inr _ \<Rightarrow> do {
                   (r2, o2, s2) \<leftarrow> wc_buffer_append o1 data data_length s1;
                   case r2 of
                     Inl e \<Rightarrow> Some (Inl e, o2\<lparr>buf_length := original_length\<rparr>, s2)
                   | Inr _ \<Rightarrow> Some (wc_ok, o2, s2)
                 }
             })"

section \<open>Parsers\<close>

type_synonym 'm parse_out = "wc_parse_result \<times> 'm option \<times> size_t option"

definition wc_protocol_parse_request ::
  "byte list option \<Rightarrow> size_t \<Rightarrow> wc_request parse_out option" where
  "wc_protocol_parse_request data data_size =
     (if data = None \<and> data_size \<noteq> 0 then Some (WC_PARSE_INVALID, None, None)
      else if data_size < WC_PROTOCOL_REQUEST_HEADER_SIZE
        then Some (WC_PARSE_NEED_MORE, None, Some 0)
      else do {
        d \<leftarrow> data;
        request_length \<leftarrow> wc_protocol_decode_u16 d WC_PROTOCOL_REQUEST_LENGTH_OFFSET;
        request_type \<leftarrow> wc_protocol_decode_u16 d WC_PROTOCOL_REQUEST_TYPE_OFFSET;
        argument_length \<leftarrow> wc_protocol_decode_u16 d WC_PROTOCOL_REQUEST_ARGUMENT_LENGTH_OFFSET;
        if \<not> wc_protocol_request_type_valid (uint request_type)
          then Some (WC_PARSE_INVALID, None, Some 0)
        else if (ucast request_length :: size_t) < WC_PROTOCOL_REQUEST_HEADER_SIZE
          then Some (WC_PARSE_INVALID, None, Some 0)
        else if (ucast request_length :: size_t) \<noteq>
                WC_PROTOCOL_REQUEST_HEADER_SIZE + ucast argument_length
          then Some (WC_PARSE_INVALID, None, Some 0)
        else if data_size < ucast request_length
          then Some (WC_PARSE_NEED_MORE, None, Some 0)
        else Some (WC_PARSE_COMPLETE,
               Some \<lparr>req_type = uint request_type,
                     req_argument = unat WC_PROTOCOL_REQUEST_HEADER_SIZE,
                     req_argument_length = ucast argument_length,
                     req_message_length = ucast request_length\<rparr>,
               Some (ucast request_length))
      })"

definition wc_protocol_parse_response ::
  "byte list option \<Rightarrow> size_t \<Rightarrow> wc_response parse_out option" where
  "wc_protocol_parse_response data data_size =
     (if data = None \<and> data_size \<noteq> 0 then Some (WC_PARSE_INVALID, None, None)
      else if data_size < WC_PROTOCOL_RESPONSE_HEADER_SIZE
        then Some (WC_PARSE_NEED_MORE, None, Some 0)
      else do {
        d \<leftarrow> data;
        response_length \<leftarrow> wc_protocol_decode_u16 d WC_PROTOCOL_RESPONSE_LENGTH_OFFSET;
        let message_length = WC_PROTOCOL_RESPONSE_HEADER_SIZE + ucast response_length in
        if data_size < message_length then Some (WC_PARSE_NEED_MORE, None, Some 0)
        else Some (WC_PARSE_COMPLETE,
               Some \<lparr>rsp_data = unat WC_PROTOCOL_RESPONSE_HEADER_SIZE,
                     rsp_data_length = ucast response_length,
                     rsp_message_length = message_length\<rparr>,
               Some message_length)
      })"

text \<open>The entry points with null object pointers.\<close>

definition wc_protocol_encode_request_ptr ::
  "wc_buffer option \<Rightarrow> int \<Rightarrow> byte list option \<Rightarrow> size_t \<Rightarrow> 'n sys \<Rightarrow>
   (status \<times> wc_buffer option \<times> 'n sys) option" where
  "wc_protocol_encode_request_ptr p type argument n s =
     (case p of None \<Rightarrow> Some (Inl EINVAL, None, s)
      | Some b \<Rightarrow> map_option (map_prod id (map_prod Some id))
                    (wc_protocol_encode_request b type argument n s))"

definition wc_protocol_encode_response_ptr ::
  "wc_buffer option \<Rightarrow> byte list option \<Rightarrow> size_t \<Rightarrow> 'n sys \<Rightarrow>
   (status \<times> wc_buffer option \<times> 'n sys) option" where
  "wc_protocol_encode_response_ptr p data n s =
     (case p of None \<Rightarrow> Some (Inl EINVAL, None, s)
      | Some b \<Rightarrow> map_option (map_prod id (map_prod Some id))
                    (wc_protocol_encode_response b data n s))"

text \<open>The flags say whether the two result pointers are non-null.\<close>

definition wc_protocol_parse_request_ptr ::
  "byte list option \<Rightarrow> size_t \<Rightarrow> bool \<Rightarrow> bool \<Rightarrow> wc_request parse_out option" where
  "wc_protocol_parse_request_ptr data n request consumed =
     (if \<not> request \<or> \<not> consumed then Some (WC_PARSE_INVALID, None, None)
      else wc_protocol_parse_request data n)"

definition wc_protocol_parse_response_ptr ::
  "byte list option \<Rightarrow> size_t \<Rightarrow> bool \<Rightarrow> bool \<Rightarrow> wc_response parse_out option" where
  "wc_protocol_parse_response_ptr data n response consumed =
     (if \<not> response \<or> \<not> consumed then Some (WC_PARSE_INVALID, None, None)
      else wc_protocol_parse_response data n)"

section \<open>Frame layouts\<close>

text \<open>
  The layouts of the protocol header, in plain arithmetic: a two-byte field is the
  number \<open>256 * high + low\<close>.
\<close>

definition u16_bytes :: "nat \<Rightarrow> byte list" where
  "u16_bytes n = [of_nat (n div 256), of_nat n]"

definition u16_at :: "byte list \<Rightarrow> nat \<Rightarrow> nat" where
  "u16_at xs i = unat (xs ! i) * 256 + unat (xs ! Suc i)"

definition request_frame :: "int \<Rightarrow> byte list \<Rightarrow> byte list" where
  "request_frame t arg =
     u16_bytes (6 + length arg) @ u16_bytes (nat t) @ u16_bytes (length arg) @ arg"

definition response_frame :: "byte list \<Rightarrow> byte list" where
  "response_frame xs = u16_bytes (length xs) @ xs"

datatype 'm frame = Frame 'm nat | More | Bad

definition request_spec :: "byte list \<Rightarrow> (int \<times> byte list) frame" where
  "request_spec xs =
     (if length xs < 6 then More
      else let len = u16_at xs 0; ty = u16_at xs 2; al = u16_at xs 4 in
        if ty \<notin> {1, 2, 3} \<or> len \<noteq> 6 + al then Bad
        else if length xs < len then More
        else Frame (int ty, take al (drop 6 xs)) len)"

definition response_spec :: "byte list \<Rightarrow> byte list frame" where
  "response_spec xs =
     (if length xs < 2 \<or> length xs < 2 + u16_at xs 0 then More
      else Frame (take (u16_at xs 0) (drop 2 xs)) (2 + u16_at xs 0))"

subsection \<open>The integer helpers compute the layout\<close>

lemma unat_byte_le [simp]: "unat (b :: byte) \<le> 255"
  using unsigned_less [of b, where ?'a = nat] by simp

lemma decode_u16_value:
  "unat (push_bit 8 (ucast (hi :: byte)) OR ucast (lo :: byte) :: uint16) = unat hi * 256 + unat lo"
proof -
  have "(push_bit 8 (ucast hi) :: uint16) AND ucast lo = 0"
    by (rule bit_word_eqI) (auto simp: bit_simps dest: bit_imp_le_length)
  then have "(push_bit 8 (ucast hi) OR ucast lo :: uint16) = push_bit 8 (ucast hi) + ucast lo"
    by (simp add: disjunctive_add_eq_or)
  moreover have "unat (push_bit 8 (ucast hi) :: uint16) = unat hi * 256"
    using unsigned_less [of hi, where ?'a = nat]
    by (simp add: push_bit_eq_mult unat_word_ariths unsigned_ucast_eq take_bit_eq_mod)
  ultimately show ?thesis
    using unsigned_less [of hi, where ?'a = nat] unsigned_less [of lo, where ?'a = nat]
    by (simp add: unat_word_ariths unsigned_ucast_eq take_bit_eq_mod)
qed

lemma u16_at_le: "u16_at xs i \<le> 65535"
  unfolding u16_at_def
  using unat_byte_le [of "xs ! i"] unat_byte_le [of "xs ! Suc i"] by linarith

lemma u16_at_lt: "u16_at xs i < 65536"
  using u16_at_le [of xs i] by linarith

lemma unat_u16_at [simp]:
  "unat (of_nat (u16_at xs i) :: size_t) = u16_at xs i"
  using u16_at_le [of xs i] by simp

lemma decode_u16_at:
  "Suc i < length d \<Longrightarrow> wc_protocol_decode_u16 d i = Some (of_nat (u16_at d i))"
  by (simp add: wc_protocol_decode_u16_def c_byte_def u16_at_def decode_u16_value [symmetric]
        del: of_nat_add of_nat_mult)

lemma u16_bytes_word: "u16_bytes (unat (v :: uint16)) = [ucast (drop_bit 8 v), ucast v]"
proof -
  have d: "unat v div 256 < 256"
    by (rule less_mult_imp_div_less) simp
  have "unat (ucast (drop_bit 8 v) :: byte) = unat (of_nat (unat v div 256) :: byte)"
    using d by (simp add: unsigned_ucast_eq take_bit_eq_mod unsigned_drop_bit_eq drop_bit_eq_div
        unat_div unat_of_nat)
  moreover have "unat (ucast v :: byte) = unat (of_nat (unat v) :: byte)"
    by (simp add: unsigned_ucast_eq take_bit_eq_mod unat_of_nat)
  ultimately show ?thesis by (simp add: u16_bytes_def unsigned_word_eqI [where ?'a = nat])
qed

lemma u16_at_bytes: "n \<le> 65535 \<Longrightarrow> u16_at (u16_bytes n @ xs) 0 = n"
  by (simp add: u16_at_def u16_bytes_def unat_of_nat)

lemma length_u16_bytes [simp]: "length (u16_bytes n) = 2"
  by (simp add: u16_bytes_def)

lemma u16_at_drop: "length ys = i \<Longrightarrow> u16_at (ys @ xs) i = u16_at xs 0"
  by (simp add: u16_at_def nth_append)

lemma u16_bytes_at: "Suc i < length xs \<Longrightarrow> u16_bytes (u16_at xs i) = [xs ! i, xs ! Suc i]"
proof -
  have "unat (of_nat (u16_at xs i) :: byte) = unat (xs ! Suc i)"
    using unsigned_less [of "xs ! Suc i", where ?'a = nat]
    by (simp add: u16_at_def unat_of_nat del: of_nat_add of_nat_mult)
  moreover have "u16_at xs i div 256 = unat (xs ! i)"
    using unsigned_less [of "xs ! Suc i", where ?'a = nat] by (simp add: u16_at_def)
  ultimately show ?thesis
    by (simp add: u16_bytes_def unsigned_word_eqI [where ?'a = nat])
qed

lemma encode_u16_two: "wc_protocol_encode_u16 [a, b] 0 v = u16_bytes (unat v)"
  by (simp add: wc_protocol_encode_u16_def u16_bytes_word)

lemma length_request_frame [simp]: "length (request_frame t arg) = 6 + length arg"
  by (simp add: request_frame_def)

lemma length_response_frame [simp]: "length (response_frame xs) = 2 + length xs"
  by (simp add: response_frame_def)

subsection \<open>The parsers implement the layouts\<close>

text \<open>What a parse call reports, given the classification of the data.\<close>

definition request_out :: "(int \<times> byte list) frame \<Rightarrow> wc_request parse_out" where
  "request_out f = (case f of
     Frame (t, a) k \<Rightarrow> (WC_PARSE_COMPLETE,
       Some \<lparr>req_type = t, req_argument = 6, req_argument_length = of_nat (length a),
             req_message_length = of_nat k\<rparr>, Some (of_nat k))
   | More \<Rightarrow> (WC_PARSE_NEED_MORE, None, Some 0)
   | Bad \<Rightarrow> (WC_PARSE_INVALID, None, Some 0))"

definition response_out :: "byte list frame \<Rightarrow> wc_response parse_out" where
  "response_out f = (case f of
     Frame a k \<Rightarrow> (WC_PARSE_COMPLETE,
       Some \<lparr>rsp_data = 2, rsp_data_length = of_nat (length a), rsp_message_length = of_nat k\<rparr>,
       Some (of_nat k))
   | More \<Rightarrow> (WC_PARSE_NEED_MORE, None, Some 0)
   | Bad \<Rightarrow> (WC_PARSE_INVALID, None, Some 0))"

lemma request_out_complete:
  "request_out f = (WC_PARSE_COMPLETE, Some r, Some k) \<longleftrightarrow>
   (\<exists>t a j. f = Frame (t, a) j \<and> k = of_nat j \<and>
      r = \<lparr>req_type = t, req_argument = 6, req_argument_length = of_nat (length a),
           req_message_length = of_nat j\<rparr>)"
proof (cases f)
  case (Frame m j)
  then show ?thesis by (cases m) (auto simp: request_out_def)
qed (simp_all add: request_out_def)

lemma request_out_simps [simp]:
  "(fst (request_out f) = WC_PARSE_INVALID) = (f = Bad)"
  "(fst (request_out f) = WC_PARSE_NEED_MORE) = (f = More)"
  by (cases f; auto simp: request_out_def split: prod.splits)+

lemma u16_at_take: "Suc i < n \<Longrightarrow> u16_at (take n xs) i = u16_at xs i"
  by (simp add: u16_at_def)

lemma ucast_u16_size: "k < 65536 \<Longrightarrow> (ucast (of_nat k :: uint16) :: size_t) = of_nat k"
  by (rule unsigned_word_eqI [where ?'a = nat])
     (simp add: unsigned_ucast_eq take_bit_eq_mod unat_of_nat)

lemma uint_u16: "k < 65536 \<Longrightarrow> uint (of_nat k :: uint16) = int k"
  by (simp add: uint_nat unat_of_nat)

lemma size_less_of_nat:
  "k < 2 ^ 64 \<Longrightarrow> (n < (of_nat k :: size_t)) = (unat n < k)"
  by (simp add: word_less_nat_alt)

lemma size_eq_of_nat:
  assumes "a < 2 ^ 64" "b < 2 ^ 64"
  shows "((of_nat a :: size_t) = of_nat b) = (a = b)"
proof
  assume "(of_nat a :: size_t) = of_nat b"
  then have "unat (of_nat a :: size_t) = unat (of_nat b :: size_t)" by (rule arg_cong)
  with assms show "a = b" by simp
qed simp

lemma parse_request_spec:
  assumes n: "unat n \<le> length d"
  shows "wc_protocol_parse_request (Some d) n = Some (request_out (request_spec (take (unat n) d)))"
proof (cases "unat n < 6")
  case True
  then show ?thesis
    by (simp add: wc_protocol_parse_request_def request_spec_def request_out_def word_less_nat_alt
        min_def)
next
  case False
  then have l: "Suc 0 < length d" "Suc 2 < length d" "Suc 4 < length d" using n by auto
  have len: "length (take (unat n) d) = unat n" using n by simp
  have ge: "\<not> n < 6" using False by (simp add: word_less_nat_alt)
  let ?len = "u16_at d 0" and ?ty = "u16_at d 2" and ?al = "u16_at d 4"
  have at: "u16_at (take (unat n) d) 0 = ?len" "u16_at (take (unat n) d) 2 = ?ty"
      "u16_at (take (unat n) d) 4 = ?al"
    using False by (auto intro: u16_at_take)
  have b: "?len < 65536" "?ty < 65536" "?al < 65536" by (simp_all add: u16_at_lt)
  have valid: "wc_protocol_request_type_valid (int ?ty) = (?ty \<in> {1, 2, 3})"
    by (auto simp: wc_protocol_request_type_valid_def)
  have eq: "((of_nat ?len :: size_t) = 6 + of_nat ?al) = (?len = 6 + ?al)"
    using size_eq_of_nat [of ?len "6 + ?al"] b by simp
  have lt: "((of_nat ?len :: size_t) < 6) = (?len < 6)" "(n < of_nat ?len) = (unat n < ?len)"
    by (simp_all add: word_less_nat_alt)
  have six: "unat (6 :: size_t) = 6" by simp
  have run0: "wc_protocol_parse_request (Some d) n =
     (if \<not> wc_protocol_request_type_valid (int ?ty) then Some (WC_PARSE_INVALID, None, Some 0)
      else if (of_nat ?len :: size_t) < 6 then Some (WC_PARSE_INVALID, None, Some 0)
      else if \<not> ((of_nat ?len :: size_t) = 6 + of_nat ?al) then Some (WC_PARSE_INVALID, None, Some 0)
      else if n < of_nat ?len then Some (WC_PARSE_NEED_MORE, None, Some 0)
      else Some (WC_PARSE_COMPLETE,
        Some \<lparr>req_type = int ?ty, req_argument = 6, req_argument_length = of_nat ?al,
              req_message_length = of_nat ?len\<rparr>, Some (of_nat ?len)))"
    by (simp only: wc_protocol_parse_request_def decode_u16_at [OF l(1)] decode_u16_at [OF l(2)]
        decode_u16_at [OF l(3)] ucast_u16_size [OF b(1)] ucast_u16_size [OF b(3)] uint_u16 [OF b(2)]
        ge Option.bind.bind_lunit option.distinct simp_thms if_False six)
  have run: "wc_protocol_parse_request (Some d) n =
     (if ?ty \<notin> {1, 2, 3} \<or> ?len \<noteq> 6 + ?al then Some (WC_PARSE_INVALID, None, Some 0)
      else if unat n < ?len then Some (WC_PARSE_NEED_MORE, None, Some 0)
      else Some (WC_PARSE_COMPLETE,
        Some \<lparr>req_type = int ?ty, req_argument = 6, req_argument_length = of_nat ?al,
              req_message_length = of_nat ?len\<rparr>, Some (of_nat ?len)))"
    unfolding run0 valid eq lt by auto
  have spec: "request_spec (take (unat n) d) =
     (if ?ty \<notin> {1, 2, 3} \<or> ?len \<noteq> 6 + ?al then Bad else if unat n < ?len then More
      else Frame (int ?ty, take ?al (drop 6 (take (unat n) d))) ?len)"
    using False by (simp only: request_spec_def len at Let_def if_False)
  have al: "?len \<le> unat n \<Longrightarrow> ?len = 6 + ?al \<Longrightarrow>
      length (take ?al (drop 6 (take (unat n) d))) = ?al"
    using n by (auto simp: min_def)
  show ?thesis
    using al unfolding run spec by (simp add: request_out_def not_less)
qed

lemma parse_request_null [simp]:
  "wc_protocol_parse_request None 0 = Some (WC_PARSE_NEED_MORE, None, Some 0)"
  by (simp add: wc_protocol_parse_request_def)

lemma parse_response_spec:
  assumes n: "unat n \<le> length d"
  shows "wc_protocol_parse_response (Some d) n = Some (response_out (response_spec (take (unat n) d)))"
proof (cases "unat n < 2")
  case True
  then show ?thesis
    by (simp add: wc_protocol_parse_response_def response_spec_def response_out_def
        word_less_nat_alt min_def)
next
  case False
  then have l: "Suc 0 < length d" using n by auto
  have len: "length (take (unat n) d) = unat n" using n by simp
  have ge: "\<not> n < 2" using False by (simp add: word_less_nat_alt)
  let ?len = "u16_at d 0"
  have at: "u16_at (take (unat n) d) 0 = ?len" using False by (auto intro: u16_at_take)
  have b: "?len < 65536" by (simp add: u16_at_lt)
  have m: "(2 + of_nat ?len :: size_t) = of_nat (2 + ?len)" by simp
  have lt: "(n < (of_nat (2 + ?len) :: size_t)) = (unat n < 2 + ?len)"
    using b by (intro size_less_of_nat) simp
  have run: "wc_protocol_parse_response (Some d) n =
     (if unat n < 2 + ?len then Some (WC_PARSE_NEED_MORE, None, Some 0)
      else Some (WC_PARSE_COMPLETE,
        Some \<lparr>rsp_data = 2, rsp_data_length = of_nat ?len, rsp_message_length = of_nat (2 + ?len)\<rparr>,
        Some (of_nat (2 + ?len))))"
    by (simp only: wc_protocol_parse_response_def decode_u16_at [OF l] ucast_u16_size [OF b] ge
        Option.bind.bind_lunit option.distinct simp_thms if_False Let_def m lt) simp
  have al: "2 + ?len \<le> unat n \<Longrightarrow> length (take ?len (drop 2 (take (unat n) d))) = ?len"
    using n by (auto simp: min_def)
  have spec: "response_spec (take (unat n) d) =
     (if unat n < 2 + ?len then More
      else Frame (take ?len (drop 2 (take (unat n) d))) (2 + ?len))"
    using False by (simp only: response_spec_def len at simp_thms)
  show ?thesis
    using al unfolding run spec by (simp add: response_out_def not_less)
qed

lemma parse_response_null [simp]:
  "wc_protocol_parse_response None 0 = Some (WC_PARSE_NEED_MORE, None, Some 0)"
  by (simp add: wc_protocol_parse_response_def)

lemma request_spec_FrameD:
  assumes "request_spec xs = Frame (t, a) k"
  shows "k = 6 + length a" "k \<le> length xs" "k \<le> 65535" "length a \<le> 65529" "t \<in> {1, 2, 3}"
    "take k xs = request_frame t a" "a = take (length a) (drop 6 xs)"
proof -
  let ?len = "u16_at xs 0" and ?ty = "u16_at xs 2" and ?al = "u16_at xs 4"
  have f: "6 \<le> length xs" "?ty \<in> {1, 2, 3}" "?len = 6 + ?al" "?len \<le> length xs"
      "t = int ?ty" "a = take ?al (drop 6 xs)" "k = ?len"
    using assms by (auto simp: request_spec_def Let_def not_less split: if_splits)
  have la: "length a = ?al" using f by (auto simp: min_def)
  show "k = 6 + length a" "k \<le> length xs" "t \<in> {1, 2, 3}" "a = take (length a) (drop 6 xs)"
    using f la by auto
  show "k \<le> 65535" using f u16_at_le [of xs 0] by simp
  then show "length a \<le> 65529" using f la by simp
  have hdr: "take 6 xs = u16_bytes ?len @ u16_bytes ?ty @ u16_bytes ?al"
    using f(1) by (simp add: u16_bytes_at)
      (auto intro!: nth_equalityI simp: nth_Cons numeral_eq_Suc split: nat.splits)
  have "take k xs = take 6 xs @ take ?al (drop 6 xs)"
    using f by (simp add: take_add)
  also have "\<dots> = request_frame t a"
    using f la by (simp add: hdr request_frame_def)
  finally show "take k xs = request_frame t a" .
qed

lemma request_spec_frame:
  assumes "t \<in> {1, 2, 3}" "length a \<le> 65529"
  shows "request_spec (request_frame t a @ ys) = Frame (t, a) (6 + length a)"
proof -
  let ?xs = "request_frame t a @ ys"
  have at: "u16_at ?xs 0 = 6 + length a" "u16_at ?xs 2 = nat t" "u16_at ?xs 4 = length a"
    using assms u16_at_drop [of "u16_bytes (6 + length a)" 2]
      u16_at_drop [of "u16_bytes (6 + length a) @ u16_bytes (nat t)" 4]
    by (auto simp: request_frame_def u16_at_bytes)
  have d: "drop 6 ?xs = a @ ys" by (simp add: request_frame_def u16_bytes_def)
  show ?thesis using assms(1) d by (auto simp: request_spec_def Let_def at simp del: drop_append)
qed

lemma response_spec_FrameD:
  assumes "response_spec xs = Frame a k"
  shows "k = 2 + length a" "k \<le> length xs" "length a \<le> 65535" "take k xs = response_frame a"
    "a = take (length a) (drop 2 xs)"
proof -
  let ?len = "u16_at xs 0"
  have f: "2 + ?len \<le> length xs" "a = take ?len (drop 2 xs)" "k = 2 + ?len"
    using assms by (auto simp: response_spec_def not_less split: if_splits)
  have la: "length a = ?len" using f by (auto simp: min_def)
  show "k = 2 + length a" "k \<le> length xs" "length a \<le> 65535" "a = take (length a) (drop 2 xs)"
    using f la u16_at_le [of xs 0] by auto
  have "take 2 xs = u16_bytes ?len"
    using f(1) by (simp add: u16_bytes_at) (auto intro!: nth_equalityI simp: nth_Cons split: nat.splits)
  then show "take k xs = response_frame a"
    using f la by (simp only: take_add response_frame_def)
qed

lemma response_spec_frame:
  "length a \<le> 65535 \<Longrightarrow> response_spec (response_frame a @ ys) = Frame a (2 + length a)"
  by (simp add: response_spec_def response_frame_def u16_at_bytes)

text \<open>What the parsers make of a frame and any bytes after it.\<close>

lemma parse_request_frame:
  assumes "t \<in> {1, 2, 3}" "length a \<le> 65529" "6 + length a + length ys < 2 ^ 64"
  shows "wc_protocol_parse_request (Some (request_frame t a @ ys)) (of_nat (6 + length a + length ys)) =
      Some (WC_PARSE_COMPLETE, Some \<lparr>req_type = t, req_argument = 6, req_argument_length = of_nat (length a),
        req_message_length = of_nat (6 + length a)\<rparr>, Some (of_nat (6 + length a)))"
    and "request_view (request_frame t a @ ys)
      \<lparr>req_type = t, req_argument = 6, req_argument_length = of_nat (length a),
        req_message_length = of_nat (6 + length a)\<rparr> = a"
proof -
  have u: "unat (of_nat (6 + length a + length ys) :: size_t) = length (request_frame t a @ ys)"
    using assms(3) unat_of_nat_size [of "6 + length a + length ys"] by simp
  have l: "unat (of_nat (length a) :: size_t) = length a" using assms by simp
  show "wc_protocol_parse_request (Some (request_frame t a @ ys)) (of_nat (6 + length a + length ys)) =
      Some (WC_PARSE_COMPLETE, Some \<lparr>req_type = t, req_argument = 6, req_argument_length = of_nat (length a),
        req_message_length = of_nat (6 + length a)\<rparr>, Some (of_nat (6 + length a)))"
    using parse_request_spec [of "of_nat (6 + length a + length ys)" "request_frame t a @ ys", unfolded u]
      request_spec_frame [OF assms(1,2), of ys] by (simp add: request_out_def)
  show "request_view (request_frame t a @ ys) \<lparr>req_type = t, req_argument = 6, req_argument_length = of_nat (length a),
        req_message_length = of_nat (6 + length a)\<rparr> = a"
    using l by (simp add: request_view_def request_frame_def u16_bytes_def)
qed

lemma parse_response_frame:
  assumes "length a \<le> 65535" "2 + length a + length ys < 2 ^ 64"
  shows "wc_protocol_parse_response (Some (response_frame a @ ys)) (of_nat (2 + length a + length ys)) =
      Some (WC_PARSE_COMPLETE, Some \<lparr>rsp_data = 2, rsp_data_length = of_nat (length a),
        rsp_message_length = of_nat (2 + length a)\<rparr>, Some (of_nat (2 + length a)))"
    and "response_view (response_frame a @ ys)
      \<lparr>rsp_data = 2, rsp_data_length = of_nat (length a),
        rsp_message_length = of_nat (2 + length a)\<rparr> = a"
proof -
  have u: "unat (of_nat (2 + length a + length ys) :: size_t) = length (response_frame a @ ys)"
    using assms(2) unat_of_nat_size [of "2 + length a + length ys"] by simp
  have l: "unat (of_nat (length a) :: size_t) = length a" using assms by simp
  show "wc_protocol_parse_response (Some (response_frame a @ ys)) (of_nat (2 + length a + length ys)) =
      Some (WC_PARSE_COMPLETE, Some \<lparr>rsp_data = 2, rsp_data_length = of_nat (length a),
        rsp_message_length = of_nat (2 + length a)\<rparr>, Some (of_nat (2 + length a)))"
    using parse_response_spec [of "of_nat (2 + length a + length ys)" "response_frame a @ ys", unfolded u]
      response_spec_frame [OF assms(1), of ys] by (simp add: response_out_def)
  show "response_view (response_frame a @ ys) \<lparr>rsp_data = 2, rsp_data_length = of_nat (length a),
        rsp_message_length = of_nat (2 + length a)\<rparr> = a"
    using l by (simp add: response_view_def response_frame_def u16_bytes_def)
qed

section \<open>The framing interface\<close>

text \<open>
  Repeated parsing of a byte sequence: the messages found, what is left, and whether
  the rest is still acceptable.
\<close>

function drain :: "(byte list \<Rightarrow> 'm frame) \<Rightarrow> byte list \<Rightarrow> 'm list \<times> byte list \<times> bool" where
  "drain p xs = (case p xs of
     Frame m k \<Rightarrow>
       (if 0 < k \<and> k \<le> length xs
        then (case drain p (drop k xs) of (ms, r, ok) \<Rightarrow> (m # ms, r, ok))
        else ([], xs, False))
   | More \<Rightarrow> ([], xs, True)
   | Bad \<Rightarrow> ([], xs, False))"
  by pat_completeness auto
termination
  by (relation "measure (\<lambda>(p, xs). length xs)") auto

declare drain.simps [simp del]

text \<open>The same, with the bytes arriving in chunks.\<close>

fun feed :: "(byte list \<Rightarrow> 'm frame) \<Rightarrow> 'm list \<times> byte list \<times> bool \<Rightarrow> byte list list \<Rightarrow>
             'm list \<times> byte list \<times> bool" where
  "feed p st [] = st"
| "feed p (ms, r, ok) (c # cs) =
     (if ok then (case drain p (r @ c) of (ms', r', ok') \<Rightarrow> feed p (ms @ ms', r', ok') cs)
      else feed p (ms, r @ c, False) cs)"

text \<open>
  What the users of a parser rely on. \<open>classify\<close> is the verdict on a byte sequence and
  \<open>out\<close> its encoding in the results of the C function; a verdict other than "more" is
  final, and an undecided sequence is shorter than \<open>limit\<close>.
\<close>

locale framing =
  fixes parse :: "byte list option \<Rightarrow> size_t \<Rightarrow> 'r parse_out option"
    and out :: "'m frame \<Rightarrow> 'r parse_out"
    and classify :: "byte list \<Rightarrow> 'm frame"
    and limit :: nat
  assumes parse_null: "parse None 0 = Some (out (classify []))"
    and parse_data: "unat n \<le> length d \<Longrightarrow> parse (Some d) n = Some (out (classify (take (unat n) d)))"
    and frame_bounds: "classify xs = Frame m k \<Longrightarrow> 0 < k \<and> k \<le> length xs"
    and frame_extend: "classify xs = Frame m k \<Longrightarrow> classify (xs @ ys) = Frame m k"
    and bad_extend: "classify xs = Bad \<Longrightarrow> classify (xs @ ys) = Bad"
    and more_bound: "classify xs = More \<Longrightarrow> length xs < limit"
begin

text \<open>The parsers on the contents of a buffer, as every caller uses them.\<close>

lemma parse_buffer:
  assumes "buf_wf b"
  shows "parse (buf_data b) (buf_length b) = Some (out (classify (buf_bytes b)))"
proof (cases "buf_data b")
  case None
  with assms have "buf_length b = 0" by (rule buf_wf_null)
  with None show ?thesis by (simp add: buf_bytes_def buf_block_def parse_null)
next
  case (Some d)
  then show ?thesis
    using assms by (simp add: parse_data buf_wf_def buf_bytes_def buf_block_def)
qed

lemma parse_final:
  assumes "unat n \<le> unat m" "unat m \<le> length d" "classify (take (unat n) d) \<noteq> More"
  shows "parse (Some d) m = parse (Some d) n"
proof -
  have "take (unat m) d = take (unat n) d @ take (unat m - unat n) (drop (unat n) d)"
    using assms(1) by (metis le_add_diff_inverse take_add)
  then have "classify (take (unat m) d) = classify (take (unat n) d)"
    using assms(3) frame_extend bad_extend
    by (cases "classify (take (unat n) d)") auto
  with assms(1,2) show ?thesis by (simp add: parse_data)
qed

lemma drain_Frame:
  "classify xs = Frame m k \<Longrightarrow>
   drain classify xs = (case drain classify (drop k xs) of (ms, r, ok) \<Rightarrow> (m # ms, r, ok))"
  using frame_bounds [of xs m k] by (simp add: drain.simps [of classify xs])

lemma drain_More: "classify xs = More \<Longrightarrow> drain classify xs = ([], xs, True)"
  by (simp add: drain.simps)

lemma drain_Bad: "classify xs = Bad \<Longrightarrow> drain classify xs = ([], xs, False)"
  by (simp add: drain.simps)

lemma drain_rest:
  "drain classify xs = (ms, r, True) \<Longrightarrow> classify r = More \<and> length r < limit"
proof (induction "length xs" arbitrary: xs ms rule: less_induct)
  case less
  show ?case
  proof (cases "classify xs")
    case (Frame m k)
    then obtain ms' where d: "drain classify (drop k xs) = (ms', r, True)"
      using less.prems by (auto simp: drain_Frame split: prod.splits)
    have "length (drop k xs) < length xs" using frame_bounds [OF Frame] by auto
    from less.hyps [OF this d] show ?thesis .
  qed (use less.prems more_bound in \<open>auto simp: drain_More drain_Bad\<close>)
qed

lemma drain_append:
  "drain classify xs = (ms, r, ok) \<Longrightarrow>
   drain classify (xs @ ys) =
     (if ok then (case drain classify (r @ ys) of (ms', r', ok') \<Rightarrow> (ms @ ms', r', ok'))
      else (ms, r @ ys, False))"
proof (induction "length xs" arbitrary: xs ms rule: less_induct)
  case less
  show ?case
  proof (cases "classify xs")
    case (Frame m k)
    then obtain ms' where d: "drain classify (drop k xs) = (ms', r, ok)" and "ms = m # ms'"
      using less.prems by (auto simp: drain_Frame split: prod.splits)
    have k: "0 < k" "k \<le> length xs" using frame_bounds [OF Frame] by auto
    then have "drain classify (drop k xs @ ys) =
        (if ok then (case drain classify (r @ ys) of (ms'', r', ok') \<Rightarrow> (ms' @ ms'', r', ok'))
         else (ms', r @ ys, False))"
      using d by (intro less.hyps) auto
    then show ?thesis
      using drain_Frame [OF frame_extend [OF Frame]] k \<open>ms = m # ms'\<close>
      by (auto split: prod.splits)
  next
    case More
    then show ?thesis using less.prems by (auto simp: drain_More split: prod.splits)
  next
    case Bad
    then show ?thesis
      using less.prems drain_Bad [OF bad_extend [OF Bad]] by (auto simp: drain_Bad)
  qed
qed

lemma feed_drain:
  "drain classify xs = (ms, r, ok) \<Longrightarrow> feed classify (ms, r, ok) cs = drain classify (xs @ concat cs)"
proof (induction cs arbitrary: xs ms r ok)
  case Nil
  then show ?case by simp
next
  case (Cons c cs)
  note app = drain_append [OF Cons.prems, of c]
  show ?case
  proof (cases ok)
    case True
    obtain ms' r' ok' where d: "drain classify (r @ c) = (ms', r', ok')" by (metis prod_cases3)
    then show ?thesis using True app Cons.IH [of "xs @ c" "ms @ ms'" r' ok'] by simp
  next
    case False
    then show ?thesis using app Cons.IH [of "xs @ c" ms "r @ c" False] by simp
  qed
qed

end

lemma request_spec_extend:
  assumes "request_spec xs \<noteq> More"
  shows "request_spec (xs @ ys) = request_spec xs"
proof -
  have l: "6 \<le> length xs" using assms by (auto simp: request_spec_def split: if_splits)
  then have at: "u16_at (xs @ ys) 0 = u16_at xs 0" "u16_at (xs @ ys) 2 = u16_at xs 2"
      "u16_at (xs @ ys) 4 = u16_at xs 4"
    by (auto simp: u16_at_def nth_append)
  show ?thesis using assms l by (auto simp: request_spec_def at Let_def split: if_splits)
qed

lemma response_spec_extend:
  assumes "response_spec xs \<noteq> More"
  shows "response_spec (xs @ ys) = response_spec xs"
proof -
  have l: "2 \<le> length xs" using assms by (auto simp: response_spec_def split: if_splits)
  then have "u16_at (xs @ ys) 0 = u16_at xs 0" by (auto simp: u16_at_def nth_append)
  then show ?thesis using assms l by (auto simp: response_spec_def split: if_splits)
qed

text \<open>Both parsers of \<^verbatim>\<open>protocol.c\<close> implement the interface.\<close>

interpretation req: framing wc_protocol_parse_request request_out request_spec 65535
proof unfold_locales
  show "wc_protocol_parse_request None 0 = Some (request_out (request_spec []))"
    by (simp add: request_spec_def request_out_def)
  fix xs ys m k
  show "request_spec xs = Frame m k \<Longrightarrow> 0 < k \<and> k \<le> length xs"
    by (cases m) (auto dest: request_spec_FrameD(1,2))
  show "request_spec xs = Frame m k \<Longrightarrow> request_spec (xs @ ys) = Frame m k"
    "request_spec xs = Bad \<Longrightarrow> request_spec (xs @ ys) = Bad"
    by (simp_all add: request_spec_extend)
  show "request_spec xs = More \<Longrightarrow> length xs < 65535"
    using u16_at_le [of xs 0] by (auto simp: request_spec_def Let_def split: if_splits)
qed (rule parse_request_spec)

interpretation rsp: framing wc_protocol_parse_response response_out response_spec 65537
proof unfold_locales
  show "wc_protocol_parse_response None 0 = Some (response_out (response_spec []))"
    by (simp add: response_spec_def response_out_def)
  fix xs ys m k
  show "response_spec xs = Frame m k \<Longrightarrow> 0 < k \<and> k \<le> length xs"
    by (auto dest: response_spec_FrameD(1,2))
  show "response_spec xs = Frame m k \<Longrightarrow> response_spec (xs @ ys) = Frame m k"
    "response_spec xs = Bad \<Longrightarrow> response_spec (xs @ ys) = Bad"
    by (simp_all add: response_spec_extend)
  show "response_spec xs = More \<Longrightarrow> length xs < 65537"
    using u16_at_le [of xs 0] by (auto simp: response_spec_def split: if_splits)
qed (rule parse_response_spec)

lemma response_never_bad: "response_spec xs \<noteq> Bad"
  by (simp add: response_spec_def)

section \<open>What the encoders write\<close>

text \<open>The two appends that end both encoders, with the rollback of the length.\<close>

lemma append_frame:
  assumes wf: "buf_wf b" and h: "unat h = length hdr"
    and src: "case data of None \<Rightarrow> n = 0 | Some d \<Rightarrow> unat n \<le> length d"
    and room: "unat h + unat n \<le> unat (buf_max_size b) - unat (buf_length b)"
  obtains st b' s' where
    "(do { (r1, o1, s1) \<leftarrow> wc_buffer_append b (Some hdr) h s;
           case r1 of Inl e \<Rightarrow> Some (Inl e, o1, s1)
           | Inr _ \<Rightarrow> do {
               (r2, o2, s2) \<leftarrow> wc_buffer_append o1 data n s1;
               case r2 of Inl e \<Rightarrow> Some (Inl e, o2\<lparr>buf_length := buf_length b\<rparr>, s2)
               | Inr _ \<Rightarrow> Some (wc_ok, o2, s2) } }) = Some (st, b', s')"
    "buf_wf b'" "buf_max_size b' = buf_max_size b" "sys_frame s s'"
    "s_live s' = s_live s + buf_owned b' - buf_owned b"
    "st = wc_ok \<and> buf_bytes b' = buf_bytes b @ hdr @ take (unat n) (case data of None \<Rightarrow> [] | Some d \<Rightarrow> d)
     \<or> st = Inl ENOMEM \<and> buf_bytes b' = buf_bytes b \<and> \<not> mem_ample s"
proof -
  have src1: "case Some hdr of None \<Rightarrow> h = 0 | Some d \<Rightarrow> unat h \<le> length d" using h by simp
  have room1: "unat h \<le> unat (buf_max_size b) - unat (buf_length b)" using room by simp
  obtain st1 b1 s1 where a1: "wc_buffer_append b (Some hdr) h s = Some (st1, b1, s1)"
    and b1: "buf_wf b1" "buf_max_size b1 = buf_max_size b" "sys_frame s s1"
      "s_live s1 = s_live s + buf_owned b1 - buf_owned b"
    and st1: "st1 = wc_ok \<and> buf_bytes b1 = buf_bytes b @ take (unat h) (case Some hdr of None \<Rightarrow> [] | Some d \<Rightarrow> d)
      \<or> st1 = Inl ENOMEM \<and> b1 = b \<and> \<not> mem_ample s"
    by (rule append_spec [OF wf src1 room1, of s])
  show ?thesis
  proof (cases "st1 = wc_ok")
    case False
    with st1 a1 b1 show ?thesis by (intro that [of "Inl ENOMEM" b1 s1]) auto
  next
    case True
    with st1 h have bytes1: "buf_bytes b1 = buf_bytes b @ hdr" by simp
    then have len1: "unat (buf_length b1) = unat (buf_length b) + unat h"
      using buf_wf_D(3) [OF wf] buf_wf_D(3) [OF b1(1)] h by simp
    have room2: "unat n \<le> unat (buf_max_size b1) - unat (buf_length b1)"
      using room b1(2) len1 by simp
    obtain st2 b2 s2 where a2: "wc_buffer_append b1 data n s1 = Some (st2, b2, s2)"
      and b2: "buf_wf b2" "buf_max_size b2 = buf_max_size b1" "sys_frame s1 s2"
        "s_live s2 = s_live s1 + buf_owned b2 - buf_owned b1"
      and st2: "st2 = wc_ok \<and> buf_bytes b2 = buf_bytes b1 @ take (unat n) (case data of None \<Rightarrow> [] | Some d \<Rightarrow> d)
        \<or> st2 = Inl ENOMEM \<and> b2 = b1 \<and> \<not> mem_ample s1"
      by (rule append_spec [OF b1(1) src room2, of s1])
    have fr: "sys_frame s s2" "mem_ample s1 = mem_ample s"
      using b1(3) b2(3) sys_frame_trans sys_frame_mem_ample by blast+
    show ?thesis
    proof (cases "st2 = wc_ok")
      case ok2: True
      with st2 a1 a2 True b1 b2 fr bytes1 show ?thesis by (intro that [of wc_ok b2 s2]) auto
    next
      case False
      with st2 have e2: "st2 = Inl ENOMEM" "b2 = b1" "\<not> mem_ample s1" by auto
      let ?b = "b1\<lparr>buf_length := buf_length b\<rparr>"
      have t: "buf_wf ?b" "buf_bytes ?b = buf_bytes b" "buf_owned ?b = buf_owned b1"
        using truncate_spec [OF b1(1), of "buf_length b"] len1 bytes1 buf_wf_D(3) [OF wf] by simp_all
      show ?thesis
        using a1 a2 True e2 b1 b2 fr t by (intro that [of "Inl ENOMEM" ?b s2]) auto
    qed
  qed
qed

lemma request_header:
  assumes "length l = 6"
  shows "wc_protocol_encode_u16 (wc_protocol_encode_u16 (wc_protocol_encode_u16 l 0 a) 2 b) 4 c =
         u16_bytes (unat a) @ u16_bytes (unat b) @ u16_bytes (unat c)"
proof -
  obtain x0 x1 x2 x3 x4 x5 where "l = [x0, x1, x2, x3, x4, x5]"
    using assms by (auto simp: numeral_eq_Suc length_Suc_conv)
  then show ?thesis
    by (simp add: wc_protocol_encode_u16_def u16_bytes_word numeral_eq_Suc)
qed

lemma response_header:
  assumes "length l = 2"
  shows "wc_protocol_encode_u16 l 0 v = u16_bytes (unat v)"
proof -
  obtain x0 x1 where "l = [x0, x1]" using assms by (auto simp: numeral_eq_Suc length_Suc_conv)
  then show ?thesis by (simp add: encode_u16_two)
qed

lemma ucast_size_u16: "unat (n :: size_t) \<le> 65535 \<Longrightarrow> unat (ucast n :: uint16) = unat n"
  by (simp add: unsigned_ucast_eq take_bit_eq_mod)

definition opt_bytes :: "byte list option \<Rightarrow> byte list" where
  "opt_bytes p = (case p of None \<Rightarrow> [] | Some d \<Rightarrow> d)"

text \<open>A pointer and a length that name readable bytes.\<close>

definition readable :: "byte list option \<Rightarrow> size_t \<Rightarrow> bool" where
  "readable p n \<longleftrightarrow> (case p of None \<Rightarrow> n = 0 | Some d \<Rightarrow> unat n \<le> length d)"

lemma readable_null: "readable p n \<Longrightarrow> \<not> (p = None \<and> n \<noteq> 0)"
  by (cases p) (auto simp: readable_def)

lemma length_take_readable: "readable p n \<Longrightarrow> length (take (unat n) (opt_bytes p)) = unat n"
  by (cases p) (auto simp: readable_def opt_bytes_def)

lemma encode_room:
  assumes "buf_wf b" "unat h + unat n < 2 ^ 64"
  shows "(buf_length b > buf_max_size b \<or> h + n > buf_max_size b - buf_length b) =
         (unat h + unat n > unat (buf_max_size b) - unat (buf_length b))"
  using assms buf_wf_D(1) [OF assms(1)]
  by (simp add: word_less_nat_alt unat_sub_if' unat_plus_if' not_less)

lemma encode_request_fits:
  assumes wf: "buf_wf b" and t: "t \<in> {1, 2, 3}" and src: "readable arg n"
    and n: "unat n \<le> 65529" and room: "6 + unat n \<le> unat (buf_max_size b) - unat (buf_length b)"
  obtains st b' s' where "wc_protocol_encode_request b t arg n s = Some (st, b', s')"
    "buf_wf b'" "buf_max_size b' = buf_max_size b" "sys_frame s s'"
    "s_live s' = s_live s + buf_owned b' - buf_owned b"
    "st = wc_ok \<and> buf_bytes b' = buf_bytes b @ request_frame t (take (unat n) (opt_bytes arg))
     \<or> st = Inl ENOMEM \<and> buf_bytes b' = buf_bytes b \<and> \<not> mem_ample s"
proof -
  have add: "unat (6 + n) = 6 + unat n" using n by (simp add: unat_plus_if')
  define hdr where "hdr = wc_protocol_encode_u16 (wc_protocol_encode_u16 (wc_protocol_encode_u16
      (c_local 6 s) 0 (ucast (6 + n))) 2 (word_of_int t)) 4 (ucast n)"
  have ty: "unat (word_of_int t :: uint16) = nat t" using t by auto
  have hdr_eq: "hdr = u16_bytes (6 + unat n) @ u16_bytes (nat t) @ u16_bytes (unat n)"
    using n by (simp add: hdr_def request_header c_local_def ucast_size_u16 add ty)
  have guards: "wc_protocol_request_type_valid t" "\<not> n > UINT16_MAX - 6"
      "\<not> (buf_length b > buf_max_size b \<or> 6 + n > buf_max_size b - buf_length b)"
    using t n room encode_room [OF wf, of 6 n]
    by (auto simp: wc_protocol_request_type_valid_def UINT16_MAX_def word_less_nat_alt)
  have src': "case arg of None \<Rightarrow> n = 0 | Some d \<Rightarrow> unat n \<le> length d"
    using src by (simp add: readable_def)
  have room': "unat (6 :: size_t) + unat n \<le> unat (buf_max_size b) - unat (buf_length b)"
    using room by simp
  have h: "unat (6 :: size_t) = length hdr" by (simp add: hdr_eq)
  have run: "wc_protocol_encode_request b t arg n s =
     (do { (r1, o1, s1) \<leftarrow> wc_buffer_append b (Some hdr) 6 s;
           case r1 of Inl e \<Rightarrow> Some (Inl e, o1, s1)
           | Inr _ \<Rightarrow> do {
               (r2, o2, s2) \<leftarrow> wc_buffer_append o1 arg n s1;
               case r2 of Inl e \<Rightarrow> Some (Inl e, o2\<lparr>buf_length := buf_length b\<rparr>, s2)
               | Inr _ \<Rightarrow> Some (wc_ok, o2, s2) } })"
    unfolding wc_protocol_encode_request_def Let_def hdr_def
    by (simp only: guards readable_null [OF src] simp_thms if_False)
  have fr: "hdr @ take (unat n) (case arg of None \<Rightarrow> [] | Some d \<Rightarrow> d) =
      request_frame t (take (unat n) (opt_bytes arg))"
    using length_take_readable [OF src] by (simp add: request_frame_def hdr_eq opt_bytes_def)
  show ?thesis
    by (rule append_frame [OF wf h src' room', of s]) (use that run fr in auto)
qed

lemma encode_response_fits:
  assumes wf: "buf_wf b" and src: "readable data n"
    and n: "unat n \<le> 65535" and room: "2 + unat n \<le> unat (buf_max_size b) - unat (buf_length b)"
  obtains st b' s' where "wc_protocol_encode_response b data n s = Some (st, b', s')"
    "buf_wf b'" "buf_max_size b' = buf_max_size b" "sys_frame s s'"
    "s_live s' = s_live s + buf_owned b' - buf_owned b"
    "st = wc_ok \<and> buf_bytes b' = buf_bytes b @ response_frame (take (unat n) (opt_bytes data))
     \<or> st = Inl ENOMEM \<and> buf_bytes b' = buf_bytes b \<and> \<not> mem_ample s"
proof -
  define hdr where "hdr = wc_protocol_encode_u16 (c_local 2 s) 0 (ucast n)"
  have hdr_eq: "hdr = u16_bytes (unat n)"
    using n by (simp add: hdr_def response_header c_local_def ucast_size_u16)
  have guards: "\<not> n > UINT16_MAX"
      "\<not> (buf_length b > buf_max_size b \<or> 2 + n > buf_max_size b - buf_length b)"
    using n room encode_room [OF wf, of 2 n] by (auto simp: UINT16_MAX_def word_less_nat_alt)
  have src': "case data of None \<Rightarrow> n = 0 | Some d \<Rightarrow> unat n \<le> length d"
    using src by (simp add: readable_def)
  have room': "unat (2 :: size_t) + unat n \<le> unat (buf_max_size b) - unat (buf_length b)"
    using room by simp
  have h: "unat (2 :: size_t) = length hdr" by (simp add: hdr_eq)
  have run: "wc_protocol_encode_response b data n s =
     (do { (r1, o1, s1) \<leftarrow> wc_buffer_append b (Some hdr) 2 s;
           case r1 of Inl e \<Rightarrow> Some (Inl e, o1, s1)
           | Inr _ \<Rightarrow> do {
               (r2, o2, s2) \<leftarrow> wc_buffer_append o1 data n s1;
               case r2 of Inl e \<Rightarrow> Some (Inl e, o2\<lparr>buf_length := buf_length b\<rparr>, s2)
               | Inr _ \<Rightarrow> Some (wc_ok, o2, s2) } })"
    unfolding wc_protocol_encode_response_def Let_def hdr_def
    by (simp only: guards readable_null [OF src] simp_thms if_False)
  have fr: "hdr @ take (unat n) (case data of None \<Rightarrow> [] | Some d \<Rightarrow> d) =
      response_frame (take (unat n) (opt_bytes data))"
    using length_take_readable [OF src] by (simp add: response_frame_def hdr_eq opt_bytes_def)
  show ?thesis
    by (rule append_frame [OF wf h src' room', of s]) (use that run fr in auto)
qed

text \<open>With an allocator that never refuses, a frame that fits is written.\<close>

lemma encode_request_ample:
  assumes "buf_wf b" "t \<in> {1, 2, 3}" "readable arg n" "unat n \<le> 65529"
    "6 + unat n \<le> unat (buf_max_size b) - unat (buf_length b)" "mem_ample s"
  obtains b' s' where "wc_protocol_encode_request b t arg n s = Some (wc_ok, b', s')"
    "buf_wf b'" "buf_max_size b' = buf_max_size b" "sys_frame s s'"
    "buf_bytes b' = buf_bytes b @ request_frame t (take (unat n) (opt_bytes arg))"
    "s_live s' = s_live s + buf_owned b' - buf_owned b"
  by (rule encode_request_fits [OF assms(1-5), of s]) (use that assms(6) in auto)

lemma encode_response_ample:
  assumes "buf_wf b" "readable data n" "unat n \<le> 65535"
    "2 + unat n \<le> unat (buf_max_size b) - unat (buf_length b)" "mem_ample s"
  obtains b' s' where "wc_protocol_encode_response b data n s = Some (wc_ok, b', s')"
    "buf_wf b'" "buf_max_size b' = buf_max_size b" "sys_frame s s'"
    "buf_bytes b' = buf_bytes b @ response_frame (take (unat n) (opt_bytes data))"
    "s_live s' = s_live s + buf_owned b' - buf_owned b"
  by (rule encode_response_fits [OF assms(1-4), of s]) (use that assms(5) in auto)

lemma encode_request_refused:
  assumes wf: "buf_wf b" and src: "readable arg n"
    and no: "t \<notin> {1, 2, 3} \<or> unat n > 65529 \<or> 6 + unat n > unat (buf_max_size b) - unat (buf_length b)"
  shows "wc_protocol_encode_request b t arg n s =
           Some (Inl (if t \<notin> {1, 2, 3} then EINVAL else EMSGSIZE), b, s)"
proof -
  have v: "wc_protocol_request_type_valid t = (t \<in> {1, 2, 3})"
    by (auto simp: wc_protocol_request_type_valid_def)
  have big: "(n > UINT16_MAX - 6) = (unat n > 65529)"
    by (simp add: UINT16_MAX_def word_less_nat_alt)
  have room: "unat n \<le> 65529 \<Longrightarrow>
      (buf_length b > buf_max_size b \<or> 6 + n > buf_max_size b - buf_length b) =
      (6 + unat n > unat (buf_max_size b) - unat (buf_length b))"
    using encode_room [OF wf, of 6 n] by simp
  show ?thesis
    using no room readable_null [OF src] unfolding wc_protocol_encode_request_def Let_def v big
    by (cases "unat n > 65529") (auto simp only: simp_thms if_True if_False not_less not_le split: if_split)
qed

lemma encode_response_refused:
  assumes wf: "buf_wf b" and src: "readable data n"
    and no: "unat n > 65535 \<or> 2 + unat n > unat (buf_max_size b) - unat (buf_length b)"
  shows "wc_protocol_encode_response b data n s = Some (Inl EMSGSIZE, b, s)"
proof -
  have big: "(n > UINT16_MAX) = (unat n > 65535)"
    by (simp add: UINT16_MAX_def word_less_nat_alt)
  have room: "unat n \<le> 65535 \<Longrightarrow>
      (buf_length b > buf_max_size b \<or> 2 + n > buf_max_size b - buf_length b) =
      (2 + unat n > unat (buf_max_size b) - unat (buf_length b))"
    using encode_room [OF wf, of 2 n] by simp
  show ?thesis
    using no room readable_null [OF src] unfolding wc_protocol_encode_response_def Let_def big
    by (cases "unat n > 65535") (auto simp only: simp_thms if_True if_False not_less not_le split: if_split)
qed

text \<open>An undecided sequence with a whole header can still become a valid frame.\<close>

lemma request_spec_completable:
  assumes l: "6 \<le> length xs" and more: "request_spec xs = More"
  shows "\<exists>t a rest more. xs @ more = request_frame t a @ rest \<and> t \<in> {1, 2, 3} \<and> length a \<le> 65529"
proof -
  define y where "y = xs @ replicate (u16_at xs 0 - length xs) 0"
  have at: "u16_at y i = u16_at xs i" if "Suc i < 6" for i
    using that l by (simp add: y_def u16_at_def nth_append)
  have h: "u16_at xs 2 \<in> {1, 2, 3}" "u16_at xs 0 = 6 + u16_at xs 4" "length xs < u16_at xs 0"
    using more l by (auto simp: request_spec_def Let_def split: if_splits)
  then have ly: "length y = u16_at xs 0" by (simp add: y_def)
  have "request_spec y = Frame (int (u16_at xs 2), take (u16_at xs 4) (drop 6 y)) (u16_at xs 0)"
    using h ly at [of 0] at [of 2] at [of 4] l by (auto simp: request_spec_def Let_def)
  note D = request_spec_FrameD(4,5,6) [OF this]
  have "y = request_frame (int (u16_at xs 2)) (take (u16_at xs 4) (drop 6 y)) @ []"
    using D(3) ly by simp
  with D(1,2) y_def show ?thesis by metis
qed

section \<open>Properties\<close>

text \<open>
  C35. On any readable argument, the request encoder is defined and all-or-nothing: it refuses
  an unknown type with EINVAL and a frame that is too long for a 16-bit length or for the
  buffer with EMSGSIZE; otherwise it appends exactly the frame of the request, or fails with
  ENOMEM when the allocator refuses. Every failure leaves the contents as they were.
\<close>

theorem encode_request_correct:
  assumes "buf_wf b" "readable arg n"
  shows "\<exists>st b' s'. wc_protocol_encode_request b t arg n s = Some (st, b', s') \<and> buf_wf b' \<and>
           buf_max_size b' = buf_max_size b \<and>
           (if t \<notin> {WC_REQUEST_LS, WC_REQUEST_PWD, WC_REQUEST_CAT} then st = Inl EINVAL \<and> b' = b
            else if unat n > 65529 \<or> length (buf_bytes b) + 6 + unat n > unat (buf_max_size b)
              then st = Inl EMSGSIZE \<and> b' = b
            else st = wc_ok \<and> buf_bytes b' = buf_bytes b @ request_frame t (take (unat n) (opt_bytes arg))
              \<or> st = Inl ENOMEM \<and> buf_bytes b' = buf_bytes b \<and> \<not> mem_ample s)"
proof (cases "t \<notin> {1, 2, 3} \<or> unat n > 65529 \<or> length (buf_bytes b) + 6 + unat n > unat (buf_max_size b)")
  case True
  then have "t \<notin> {1, 2, 3} \<or> unat n > 65529 \<or> 6 + unat n > unat (buf_max_size b) - unat (buf_length b)"
    using buf_wf_D(3) [OF assms(1)] by auto
  from encode_request_refused [OF assms this, of s] True assms(1) show ?thesis by auto
next
  case False
  then have *: "t \<in> {1, 2, 3}" "unat n \<le> 65529"
      "6 + unat n \<le> unat (buf_max_size b) - unat (buf_length b)"
    using buf_wf_D(3) [OF assms(1)] by auto
  show ?thesis
    by (rule encode_request_fits [OF assms(1) *(1) assms(2) *(2,3), of s]) (use False in auto)
qed

text \<open>
  The response encoder is likewise all-or-nothing: EMSGSIZE when the data exceeds 65535
  bytes or does not fit, otherwise exactly the two-byte length and the data, or ENOMEM with
  the contents unchanged.
\<close>

theorem encode_response_correct:
  assumes "buf_wf b" "readable data n"
  shows "\<exists>st b' s'. wc_protocol_encode_response b data n s = Some (st, b', s') \<and> buf_wf b' \<and>
           buf_max_size b' = buf_max_size b \<and>
           (if unat n > 65535 \<or> length (buf_bytes b) + 2 + unat n > unat (buf_max_size b)
              then st = Inl EMSGSIZE \<and> b' = b
            else st = wc_ok \<and> buf_bytes b' = buf_bytes b @ response_frame (take (unat n) (opt_bytes data))
              \<or> st = Inl ENOMEM \<and> buf_bytes b' = buf_bytes b \<and> \<not> mem_ample s)"
proof (cases "unat n > 65535 \<or> length (buf_bytes b) + 2 + unat n > unat (buf_max_size b)")
  case True
  then have "unat n > 65535 \<or> 2 + unat n > unat (buf_max_size b) - unat (buf_length b)"
    using buf_wf_D(3) [OF assms(1)] by auto
  from encode_response_refused [OF assms this, of s] True assms(1) show ?thesis by auto
next
  case False
  then have *: "unat n \<le> 65535" "2 + unat n \<le> unat (buf_max_size b) - unat (buf_length b)"
    using buf_wf_D(3) [OF assms(1)] by auto
  show ?thesis
    by (rule encode_response_fits [OF assms(1,2) *, of s]) (use False in auto)
qed

text \<open>
  C29. The request parser reports a complete request exactly when the data begins with the
  frame of a request of a known type, and then reports its type, its argument in place and
  the length of the frame.
\<close>

theorem parse_request_complete_iff:
  assumes "unat n \<le> length d"
  shows "wc_protocol_parse_request (Some d) n = Some (WC_PARSE_COMPLETE, Some r, Some k) \<longleftrightarrow>
         (\<exists>t a rest. take (unat n) d = request_frame t a @ rest \<and>
            t \<in> {WC_REQUEST_LS, WC_REQUEST_PWD, WC_REQUEST_CAT} \<and> length a \<le> 65529 \<and>
            r = \<lparr>req_type = t, req_argument = 6, req_argument_length = of_nat (length a),
                 req_message_length = of_nat (6 + length a)\<rparr> \<and>
            request_view d r = a \<and> k = of_nat (6 + length a))"
    (is "?L = ?R")
proof
  assume ?L
  then obtain t a j where f: "request_spec (take (unat n) d) = Frame (t, a) j"
      and r: "r = \<lparr>req_type = t, req_argument = 6, req_argument_length = of_nat (length a),
                 req_message_length = of_nat j\<rparr>" "k = of_nat j"
    unfolding parse_request_spec [OF assms] option.inject request_out_complete by blast
  note D = request_spec_FrameD [OF f]
  have "take (unat n) d = request_frame t a @ drop j (take (unat n) d)"
    using append_take_drop_id [of j "take (unat n) d"] D(6) by simp
  moreover have "request_view d r = a"
  proof -
    have "request_view d r = take (length a) (drop 6 d)" using r D(4) by (simp add: request_view_def)
    also have "\<dots> = take (length a) (drop 6 (take (unat n) d))"
      using D(1,2) assms by (simp add: drop_take)
    also note D(7) [symmetric]
    finally show ?thesis .
  qed
  ultimately show ?R using D(1,4,5) r by blast
next
  assume ?R
  then obtain t a rest where *: "take (unat n) d = request_frame t a @ rest" "t \<in> {1, 2, 3}"
      "length a \<le> 65529"
      "r = \<lparr>req_type = t, req_argument = 6, req_argument_length = of_nat (length a),
            req_message_length = of_nat (6 + length a)\<rparr>" "k = of_nat (6 + length a)" by blast
  show ?L
    using request_spec_frame [OF *(2,3), of rest] *
    by (simp add: parse_request_spec [OF assms] request_out_def)
qed

text \<open>
  C30. The request parser rejects the data exactly when a whole header is present and no
  further bytes could turn the data into a stream that begins with a valid request.
\<close>

theorem parse_request_invalid_iff:
  assumes "unat n \<le> length d"
  shows "fst (the (wc_protocol_parse_request (Some d) n)) = WC_PARSE_INVALID \<longleftrightarrow>
         6 \<le> unat n \<and>
         (\<nexists>t a rest more. take (unat n) d @ more = request_frame t a @ rest \<and>
            t \<in> {WC_REQUEST_LS, WC_REQUEST_PWD, WC_REQUEST_CAT} \<and> length a \<le> 65529)"
proof -
  let ?x = "take (unat n) d"
  have "fst (the (wc_protocol_parse_request (Some d) n)) = WC_PARSE_INVALID \<longleftrightarrow> request_spec ?x = Bad"
    by (simp add: parse_request_spec [OF assms])
  also have "\<dots> \<longleftrightarrow> 6 \<le> unat n \<and> (\<nexists>t a rest more. ?x @ more = request_frame t a @ rest \<and>
            t \<in> {1, 2, 3} \<and> length a \<le> 65529)" (is "_ \<longleftrightarrow> _ \<and> \<not> ?E")
  proof
    assume bad: "request_spec ?x = Bad"
    then have "6 \<le> unat n" by (auto simp: request_spec_def split: if_splits)
    moreover have "\<not> ?E"
    proof
      assume ?E
      then obtain t a rest more where "?x @ more = request_frame t a @ rest" "t \<in> {1, 2, 3}"
          "length a \<le> 65529" by blast
      then have "request_spec (?x @ more) = Frame (t, a) (6 + length a)"
        by (simp only: request_spec_frame)
      with req.bad_extend [OF bad] show False by simp
    qed
    ultimately show "6 \<le> unat n \<and> \<not> ?E" by blast
  next
    assume *: "6 \<le> unat n \<and> \<not> ?E"
    show "request_spec ?x = Bad"
    proof (cases "request_spec ?x")
      case (Frame m k)
      obtain t a where "m = (t, a)" by fastforce
      then have "?x @ [] = request_frame t a @ drop k ?x" "t \<in> {1, 2, 3}" "length a \<le> 65529"
        using request_spec_FrameD(4,5,6) [of ?x t a k] Frame append_take_drop_id [of k ?x] by simp_all
      with * show ?thesis by blast
    next
      case More
      with request_spec_completable [of ?x] assms * show ?thesis by auto
    qed simp
  qed
  finally show ?thesis .
qed

text \<open>
  C31. Parsing is incremental: a verdict other than "need more" on the first \<open>n\<close> bytes is also
  the verdict on any longer prefix, whatever bytes follow.
\<close>

theorem parse_request_final:
  assumes "unat n \<le> unat m" "unat m \<le> length d"
    and "fst (the (wc_protocol_parse_request (Some d) n)) \<noteq> WC_PARSE_NEED_MORE"
  shows "wc_protocol_parse_request (Some d) m = wc_protocol_parse_request (Some d) n"
proof (rule req.parse_final [OF assms(1,2)])
  show "request_spec (take (unat n) d) \<noteq> More"
    using assms by (simp add: parse_request_spec)
qed

text \<open>
  C23. Round trip for requests: what the client encodes into an empty buffer is parsed back by
  the server as one complete request with the same type and argument, also when any bytes
  follow it; the parser consumes exactly the encoded bytes.
\<close>

theorem request_roundtrip:
  assumes "buf_wf b" "buf_bytes b = []" "6 + length a \<le> unat (buf_max_size b)" "length a \<le> 65529"
    and "t \<in> {WC_REQUEST_LS, WC_REQUEST_PWD, WC_REQUEST_CAT}" "mem_ample s"
  shows "\<exists>b' s' r. wc_protocol_encode_request b t (Some a) (of_nat (length a)) s = Some (wc_ok, b', s') \<and>
           wc_protocol_parse_request (buf_data b') (buf_length b') =
             Some (WC_PARSE_COMPLETE, Some r, Some (buf_length b')) \<and>
           req_type r = t \<and> request_view (buf_block b') r = a \<and>
           (\<forall>ys. 6 + length a + length ys < 2 ^ 64 \<longrightarrow>
              wc_protocol_parse_request (Some (buf_bytes b' @ ys)) (of_nat (length (buf_bytes b' @ ys))) =
                Some (WC_PARSE_COMPLETE, Some r, Some (buf_length b')) \<and>
              request_view (buf_bytes b' @ ys) r = a)"
proof -
  have u: "unat (of_nat (length a) :: size_t) = length a" using assms(4) by simp
  have rd: "readable (Some a) (of_nat (length a))" using u by (simp add: readable_def)
  have room: "6 + unat (of_nat (length a) :: size_t) \<le> unat (buf_max_size b) - unat (buf_length b)"
    using assms(3) u buf_wf_D(3) [OF assms(1)] assms(2) by simp
  have n: "unat (of_nat (length a) :: size_t) \<le> 65529" using u assms(4) by simp
  obtain b' s' where e: "wc_protocol_encode_request b t (Some a) (of_nat (length a)) s = Some (wc_ok, b', s')"
      "buf_wf b'" and "buf_bytes b' = buf_bytes b @ request_frame t
        (take (unat (of_nat (length a) :: size_t)) (opt_bytes (Some a)))"
    by (rule encode_request_ample [OF assms(1,5) rd n room assms(6)])
  then have ok: "buf_bytes b' = request_frame t a"
    using assms(2) u by (simp add: opt_bytes_def)
  let ?r = "\<lparr>req_type = t, req_argument = 6, req_argument_length = of_nat (length a),
             req_message_length = of_nat (6 + length a)\<rparr>"
  have len: "unat (buf_length b') = 6 + length a" using ok buf_wf_D(3) [OF e(2)] by simp
  then have k: "buf_length b' = of_nat (6 + length a)" using buf_length_of_nat [OF e(2)] ok by simp
  have "wc_protocol_parse_request (buf_data b') (buf_length b') =
      Some (WC_PARSE_COMPLETE, Some ?r, Some (buf_length b'))"
    using req.parse_buffer [OF e(2)] request_spec_frame [OF assms(5,4), of "[]"] ok k
    by (simp add: request_out_def)
  moreover have "request_view (buf_block b') ?r = a"
  proof -
    have "request_view (buf_block b') ?r = take (length a) (drop 6 (take (6 + length a) (buf_block b')))"
      using u by (simp add: request_view_def drop_take)
    also have "take (6 + length a) (buf_block b') = request_frame t a"
      using ok len by (simp add: buf_bytes_def)
    finally show ?thesis by (simp add: request_frame_def u16_bytes_def)
  qed
  moreover note parse_request_frame [OF assms(5,4)]
  ultimately show ?thesis using e(1) k by (intro exI [of _ b'] exI [of _ s'] exI [of _ ?r]) (simp add: ok add.assoc)
qed

text \<open>
  C24. Round trip for responses: what the server encodes into an empty buffer is parsed back by
  the client as one complete response with the same data, also when any bytes follow it; the
  parser consumes exactly the encoded bytes.
\<close>

theorem response_roundtrip:
  assumes "buf_wf b" "buf_bytes b = []" "2 + length a \<le> unat (buf_max_size b)" "length a \<le> 65535"
    and "mem_ample s"
  shows "\<exists>b' s' r. wc_protocol_encode_response b (Some a) (of_nat (length a)) s = Some (wc_ok, b', s') \<and>
           wc_protocol_parse_response (buf_data b') (buf_length b') =
             Some (WC_PARSE_COMPLETE, Some r, Some (buf_length b')) \<and>
           response_view (buf_block b') r = a \<and>
           (\<forall>ys. 2 + length a + length ys < 2 ^ 64 \<longrightarrow>
              wc_protocol_parse_response (Some (buf_bytes b' @ ys)) (of_nat (length (buf_bytes b' @ ys))) =
                Some (WC_PARSE_COMPLETE, Some r, Some (buf_length b')) \<and>
              response_view (buf_bytes b' @ ys) r = a)"
proof -
  have u: "unat (of_nat (length a) :: size_t) = length a" using assms(4) by simp
  have rd: "readable (Some a) (of_nat (length a))" using u by (simp add: readable_def)
  have room: "2 + unat (of_nat (length a) :: size_t) \<le> unat (buf_max_size b) - unat (buf_length b)"
    using assms(3) u buf_wf_D(3) [OF assms(1)] assms(2) by simp
  have n: "unat (of_nat (length a) :: size_t) \<le> 65535" using u assms(4) by simp
  obtain b' s' where e: "wc_protocol_encode_response b (Some a) (of_nat (length a)) s = Some (wc_ok, b', s')"
      "buf_wf b'" and "buf_bytes b' = buf_bytes b @ response_frame
        (take (unat (of_nat (length a) :: size_t)) (opt_bytes (Some a)))"
    by (rule encode_response_ample [OF assms(1) rd n room assms(5)])
  then have ok: "buf_bytes b' = response_frame a"
    using assms(2) u by (simp add: opt_bytes_def)
  let ?r = "\<lparr>rsp_data = 2, rsp_data_length = of_nat (length a),
             rsp_message_length = of_nat (2 + length a)\<rparr>"
  have len: "unat (buf_length b') = 2 + length a" using ok buf_wf_D(3) [OF e(2)] by simp
  then have k: "buf_length b' = of_nat (2 + length a)" using buf_length_of_nat [OF e(2)] ok by simp
  have "wc_protocol_parse_response (buf_data b') (buf_length b') =
      Some (WC_PARSE_COMPLETE, Some ?r, Some (buf_length b'))"
    using rsp.parse_buffer [OF e(2)] response_spec_frame [OF assms(4), of "[]"] ok k
    by (simp add: response_out_def)
  moreover have "response_view (buf_block b') ?r = a"
  proof -
    have "response_view (buf_block b') ?r = take (length a) (drop 2 (take (2 + length a) (buf_block b')))"
      using u by (simp add: response_view_def drop_take)
    also have "take (2 + length a) (buf_block b') = response_frame a"
      using ok len by (simp add: buf_bytes_def)
    finally show ?thesis by (simp add: response_frame_def u16_bytes_def)
  qed
  moreover note parse_response_frame [OF assms(4)]
  ultimately show ?thesis using e(1) k by (intro exI [of _ b'] exI [of _ s'] exI [of _ ?r]) (simp add: ok add.assoc)
qed

section \<open>Witnesses\<close>

text \<open>A request to list the path \<open>/\<close>, followed by the first byte of another one.\<close>

definition ls_root :: "byte list" where
  "ls_root = [0, 7, 0, 1, 0, 1, 47, 0]"

lemma ls_root_frame: "take 8 ls_root = request_frame 1 [47] @ [0]"
  by (simp add: ls_root_def request_frame_def u16_bytes_def)

theorem encode_request_correct_witness:
  "\<exists>b' s'. wc_protocol_encode_request buf_ab 9 (Some [47]) 1 (sys0 :: unit sys) = Some (Inl EINVAL, b', s')"
  using encode_request_correct [of buf_ab "Some [47]" 1 9 "sys0 :: unit sys"] buf_ab_facts
  by (auto simp: readable_def)

theorem encode_response_correct_witness:
  "\<exists>b' s'. wc_protocol_encode_response buf_ab (Some [47]) 1 (sys0 :: unit sys) = Some (Inl EMSGSIZE, b', s')"
  using encode_response_correct [of buf_ab "Some [47]" 1 "sys0 :: unit sys"] buf_ab_facts
  by (auto simp: readable_def buf_ab_def)

theorem parse_request_complete_iff_witness:
  "wc_protocol_parse_request (Some ls_root) 8 =
     Some (WC_PARSE_COMPLETE, Some \<lparr>req_type = 1, req_argument = 6, req_argument_length = 1,
       req_message_length = 7\<rparr>, Some 7)"
proof -
  have l: "unat (8 :: size_t) \<le> length ls_root" by (simp add: ls_root_def)
  show ?thesis
    unfolding parse_request_complete_iff [OF l]
    by (rule exI [of _ 1], rule exI [of _ "[47]"], rule exI [of _ "[0]"])
       (use ls_root_frame in \<open>simp add: request_view_def ls_root_def\<close>)
qed

theorem parse_request_invalid_iff_witness:
  "fst (the (wc_protocol_parse_request (Some ls_root) 8)) \<noteq> WC_PARSE_INVALID"
proof -
  have l: "unat (8 :: size_t) \<le> length ls_root" by (simp add: ls_root_def)
  have "\<exists>t a rest more. take (unat (8 :: size_t)) ls_root @ more = request_frame t a @ rest \<and>
          t \<in> {1, 2, 3} \<and> length a \<le> 65529"
    by (rule exI [of _ 1], rule exI [of _ "[47]"], rule exI [of _ "[0]"], rule exI [of _ "[]"])
       (simp add: ls_root_frame)
  then show ?thesis unfolding parse_request_invalid_iff [OF l] by blast
qed

theorem parse_request_final_witness:
  "wc_protocol_parse_request (Some ls_root) 8 = wc_protocol_parse_request (Some ls_root) 7"
proof (rule parse_request_final)
  show "fst (the (wc_protocol_parse_request (Some ls_root) 7)) \<noteq> WC_PARSE_NEED_MORE"
    by code_simp
qed (simp_all add: ls_root_def)

theorem request_roundtrip_witness:
  "\<exists>b' s' r. wc_protocol_encode_request (snd (wc_buffer_init 65535)) 3 (Some [47, 120]) (of_nat (length [47, 120 :: byte]))
       (sys0 :: unit sys) = Some (wc_ok, b', s') \<and> req_type r = 3 \<and> request_view (buf_block b') r = [47, 120] \<and>
     wc_protocol_parse_request (Some (buf_bytes b' @ [0, 9])) (of_nat (length (buf_bytes b' @ [0, 9 :: byte]))) =
       Some (WC_PARSE_COMPLETE, Some r, Some (buf_length b'))"
proof -
  have small: "6 + length [47, 120 :: byte] + length [0, 9 :: byte] < 2 ^ 64" by simp
  have "\<exists>b' s' r. wc_protocol_encode_request (snd (wc_buffer_init 65535)) 3 (Some [47, 120]) (of_nat (length [47, 120 :: byte]))
       (sys0 :: unit sys) = Some (wc_ok, b', s') \<and>
       wc_protocol_parse_request (buf_data b') (buf_length b') = Some (WC_PARSE_COMPLETE, Some r, Some (buf_length b')) \<and>
       req_type r = 3 \<and> request_view (buf_block b') r = [47, 120] \<and>
       (\<forall>ys. 6 + length [47, 120 :: byte] + length ys < 2 ^ 64 \<longrightarrow>
          wc_protocol_parse_request (Some (buf_bytes b' @ ys)) (of_nat (length (buf_bytes b' @ ys))) =
            Some (WC_PARSE_COMPLETE, Some r, Some (buf_length b')) \<and> request_view (buf_bytes b' @ ys) r = [47, 120])"
    by (rule request_roundtrip) (use mem_ample_sys0 in simp_all)
  with small show ?thesis by blast
qed

theorem response_roundtrip_witness:
  "\<exists>b' s' r. wc_protocol_encode_response (snd (wc_buffer_init 65537)) (Some [1, 2, 3]) (of_nat (length [1, 2, 3 :: byte]))
       (sys0 :: unit sys) = Some (wc_ok, b', s') \<and> response_view (buf_block b') r = [1, 2, 3] \<and>
     wc_protocol_parse_response (Some (buf_bytes b' @ [0, 9])) (of_nat (length (buf_bytes b' @ [0, 9 :: byte]))) =
       Some (WC_PARSE_COMPLETE, Some r, Some (buf_length b'))"
proof -
  have small: "2 + length [1, 2, 3 :: byte] + length [0, 9 :: byte] < 2 ^ 64" by simp
  have "\<exists>b' s' r. wc_protocol_encode_response (snd (wc_buffer_init 65537)) (Some [1, 2, 3]) (of_nat (length [1, 2, 3 :: byte]))
       (sys0 :: unit sys) = Some (wc_ok, b', s') \<and>
       wc_protocol_parse_response (buf_data b') (buf_length b') = Some (WC_PARSE_COMPLETE, Some r, Some (buf_length b')) \<and>
       response_view (buf_block b') r = [1, 2, 3] \<and>
       (\<forall>ys. 2 + length [1, 2, 3 :: byte] + length ys < 2 ^ 64 \<longrightarrow>
          wc_protocol_parse_response (Some (buf_bytes b' @ ys)) (of_nat (length (buf_bytes b' @ ys))) =
            Some (WC_PARSE_COMPLETE, Some r, Some (buf_length b')) \<and> response_view (buf_bytes b' @ ys) r = [1, 2, 3])"
    by (rule response_roundtrip) (use mem_ample_sys0 in simp_all)
  with small show ?thesis by blast
qed

end
