(* ===== verification/WC_Queue.thy ===== *)
theory WC_Queue
  imports WC_Protocol
begin

text \<open>
  The request queue of \<^verbatim>\<open>src/src/queue.c\<close>: a singly linked list with head and tail
  pointers in an explicit store of nodes, its operations with every pointer
  assignment of the source, and the proof that they implement a first-in-first-out
  queue of requests with removal of one client's requests.

  A pointer is an address in \<open>s_nodes\<close> or \<open>None\<close> for null. Following a pointer whose
  node does not exist is undefined and makes the model return \<open>None\<close>. \<open>f\<close> models \<open>f\<close>
  on an existing queue object and \<open>f_ptr\<close> is the entry point with its null test.
\<close>

section \<open>Nodes, the queue and its operations\<close>

record wc_queued_request =
  qr_client_fd :: fd
  qr_type :: wc_request_type
  qr_argument_length :: size_t
  qr_next :: "nat option"
  qr_argument :: "byte list"

record wc_request_queue =
  q_head :: "nat option"
  q_tail :: "nat option"
  q_length :: size_t

type_synonym qsys = "wc_queued_request sys"

text \<open>\<open>sizeof (struct wc_queued_request)\<close> on a 64-bit target.\<close>

definition QUEUED_REQUEST_SIZE :: size_t where
  "QUEUED_REQUEST_SIZE = 24"

text \<open>\<open>malloc\<close> and \<open>free\<close> of a node. Freeing a node that does not exist is undefined.\<close>

definition node_malloc :: "size_t \<Rightarrow> wc_queued_request \<Rightarrow> qsys \<Rightarrow> nat option \<times> qsys" where
  "node_malloc n init s =
     (if s_grant s (s_clock s) n
      then (Some (s_clock s), (s_tick s)\<lparr>s_nodes := (s_nodes s)(s_clock s \<mapsto> init)\<rparr>)
      else (None, s_tick s))"

definition node_free :: "nat \<Rightarrow> qsys \<Rightarrow> qsys option" where
  "node_free p s =
     (case s_nodes s p of None \<Rightarrow> None | Some _ \<Rightarrow> Some (s\<lparr>s_nodes := (s_nodes s)(p := None)\<rparr>))"

definition set_next :: "nat \<Rightarrow> nat option \<Rightarrow> qsys \<Rightarrow> qsys option" where
  "set_next p x s =
     (case s_nodes s p of None \<Rightarrow> None
      | Some n \<Rightarrow> Some (s\<lparr>s_nodes := (s_nodes s)(p \<mapsto> n\<lparr>qr_next := x\<rparr>)\<rparr>))"

text \<open>\<open>memcpy\<close> of the argument into the node.\<close>

definition set_argument :: "nat \<Rightarrow> byte list option \<Rightarrow> size_t \<Rightarrow> qsys \<Rightarrow> qsys option" where
  "set_argument p argument len s = do {
     src \<leftarrow> argument;
     n \<leftarrow> s_nodes s p;
     if unat len \<le> length src
       then Some (s\<lparr>s_nodes := (s_nodes s)(p \<mapsto> n\<lparr>qr_argument := take (unat len) src\<rparr>)\<rparr>)
       else None
   }"

definition wc_request_type_valid :: "wc_request_type \<Rightarrow> bool" where
  "wc_request_type_valid type \<longleftrightarrow>
     type = WC_REQUEST_LS \<or> type = WC_REQUEST_PWD \<or> type = WC_REQUEST_CAT"

definition wc_request_queue_init :: "status \<times> wc_request_queue" where
  "wc_request_queue_init = (wc_ok, \<lparr>q_head = None, q_tail = None, q_length = 0\<rparr>)"

definition wc_request_queue_enqueue ::
  "wc_request_queue \<Rightarrow> fd \<Rightarrow> wc_request_type \<Rightarrow> byte list option \<Rightarrow> size_t \<Rightarrow> qsys \<Rightarrow>
   (status \<times> wc_request_queue \<times> qsys) option" where
  "wc_request_queue_enqueue queue client_fd type argument argument_length s =
     (if client_fd < 0 \<or> \<not> wc_request_type_valid type \<or> (argument = None \<and> argument_length \<noteq> 0)
        then Some (Inl EINVAL, queue, s)
      else if argument_length > SIZE_MAX - QUEUED_REQUEST_SIZE then Some (Inl EOVERFLOW, queue, s)
      else case node_malloc (QUEUED_REQUEST_SIZE + argument_length)
               \<lparr>qr_client_fd = client_fd, qr_type = type, qr_argument_length = argument_length,
                qr_next = None, qr_argument = []\<rparr> s of
          (None, s1) \<Rightarrow> Some (Inl ENOMEM, queue, s1)
        | (Some request, s1) \<Rightarrow> do {
            s2 \<leftarrow> (if argument_length > 0 then set_argument request argument argument_length s1
                   else Some s1);
            (q1, s3) \<leftarrow> (case q_tail queue of
                None \<Rightarrow> Some (queue\<lparr>q_head := Some request\<rparr>, s2)
              | Some t \<Rightarrow> map_option (\<lambda>s'. (queue, s')) (set_next t (Some request) s2));
            Some (wc_ok, q1\<lparr>q_tail := Some request, q_length := q_length q1 + 1\<rparr>, s3)
          })"

definition wc_request_queue_dequeue ::
  "wc_request_queue \<Rightarrow> qsys \<Rightarrow> ((errno + nat) \<times> wc_request_queue \<times> qsys) option" where
  "wc_request_queue_dequeue queue s =
     (case q_head queue of
        None \<Rightarrow> Some (Inl ENOENT, queue, s)
      | Some p \<Rightarrow> do {
          n \<leftarrow> s_nodes s p;
          let q1 = queue\<lparr>q_head := qr_next n\<rparr> in do {
            s1 \<leftarrow> set_next p None s;
            let q2 = q1\<lparr>q_length := q_length q1 - 1\<rparr>;
                q3 = (if q_head q2 = None then q2\<lparr>q_tail := None\<rparr> else q2) in
            Some (Inr p, q3, s1)
          }
        })"

definition wc_request_queue_peek :: "wc_request_queue \<Rightarrow> nat option" where
  "wc_request_queue_peek queue = q_head queue"

text \<open>The loop of \<open>wc_request_queue_discard_client\<close>; \<open>None\<close> also when it never ends.\<close>

partial_function (option) discard_loop ::
  "fd \<Rightarrow> wc_request_queue \<Rightarrow> nat option \<Rightarrow> nat option \<Rightarrow> size_t \<Rightarrow> qsys \<Rightarrow>
   (size_t \<times> wc_request_queue \<times> qsys) option" where
  "discard_loop client_fd queue previous current removed s =
     (case current of
        None \<Rightarrow> Some (removed, queue, s)
      | Some c \<Rightarrow> do {
          n \<leftarrow> s_nodes s c;
          if qr_client_fd n = client_fd then do {
            (q1, s1) \<leftarrow> (case previous of
                None \<Rightarrow> Some (queue\<lparr>q_head := qr_next n\<rparr>, s)
              | Some p \<Rightarrow> map_option (\<lambda>s'. (queue, s')) (set_next p (qr_next n) s));
            let q2 = (if q_tail q1 = current then q1\<lparr>q_tail := previous\<rparr> else q1) in do {
              s2 \<leftarrow> node_free c s1;
              discard_loop client_fd (q2\<lparr>q_length := q_length q2 - 1\<rparr>) previous (qr_next n)
                (removed + 1) s2
            }
          }
          else discard_loop client_fd queue current (qr_next n) removed s
        })"

declare discard_loop.simps [code]

definition wc_request_queue_discard_client ::
  "wc_request_queue \<Rightarrow> fd \<Rightarrow> qsys \<Rightarrow> (size_t \<times> wc_request_queue \<times> qsys) option" where
  "wc_request_queue_discard_client queue client_fd s =
     discard_loop client_fd queue None (q_head queue) 0 s"

partial_function (option) clear_loop :: "nat option \<Rightarrow> qsys \<Rightarrow> qsys option" where
  "clear_loop current s =
     (case current of
        None \<Rightarrow> Some s
      | Some c \<Rightarrow> do {
          n \<leftarrow> s_nodes s c;
          s1 \<leftarrow> node_free c s;
          clear_loop (qr_next n) s1
        })"

declare clear_loop.simps [code]

definition wc_request_queue_clear ::
  "wc_request_queue \<Rightarrow> qsys \<Rightarrow> (wc_request_queue \<times> qsys) option" where
  "wc_request_queue_clear queue s = do {
     s1 \<leftarrow> clear_loop (q_head queue) s;
     Some (queue\<lparr>q_head := None, q_tail := None, q_length := 0\<rparr>, s1)
   }"

definition wc_queued_request_destroy :: "nat option \<Rightarrow> qsys \<Rightarrow> qsys option" where
  "wc_queued_request_destroy request s =
     (case request of None \<Rightarrow> Some s | Some p \<Rightarrow> node_free p s)"

text \<open>The entry points with null object pointers.\<close>

definition wc_request_queue_init_ptr ::
  "wc_request_queue option \<Rightarrow> status \<times> wc_request_queue option" where
  "wc_request_queue_init_ptr p =
     (case p of None \<Rightarrow> (Inl EINVAL, None) | Some _ \<Rightarrow> map_prod id Some wc_request_queue_init)"

definition wc_request_queue_enqueue_ptr ::
  "wc_request_queue option \<Rightarrow> fd \<Rightarrow> wc_request_type \<Rightarrow> byte list option \<Rightarrow> size_t \<Rightarrow> qsys \<Rightarrow>
   (status \<times> wc_request_queue option \<times> qsys) option" where
  "wc_request_queue_enqueue_ptr p client_fd type argument n s =
     (case p of None \<Rightarrow> Some (Inl EINVAL, None, s)
      | Some q \<Rightarrow> map_option (map_prod id (map_prod Some id))
                    (wc_request_queue_enqueue q client_fd type argument n s))"

text \<open>The flag says whether the result pointer is non-null.\<close>

definition wc_request_queue_dequeue_ptr ::
  "wc_request_queue option \<Rightarrow> bool \<Rightarrow> qsys \<Rightarrow>
   ((errno + nat) \<times> wc_request_queue option \<times> qsys) option" where
  "wc_request_queue_dequeue_ptr p request s =
     (case p of None \<Rightarrow> Some (Inl EINVAL, None, s)
      | Some q \<Rightarrow> if \<not> request then Some (Inl EINVAL, Some q, s)
                  else map_option (map_prod id (map_prod Some id)) (wc_request_queue_dequeue q s))"

definition wc_request_queue_peek_ptr :: "wc_request_queue option \<Rightarrow> nat option" where
  "wc_request_queue_peek_ptr p = (case p of None \<Rightarrow> None | Some q \<Rightarrow> wc_request_queue_peek q)"

definition wc_request_queue_discard_client_ptr ::
  "wc_request_queue option \<Rightarrow> fd \<Rightarrow> qsys \<Rightarrow> (size_t \<times> wc_request_queue option \<times> qsys) option" where
  "wc_request_queue_discard_client_ptr p client_fd s =
     (case p of None \<Rightarrow> Some (0, None, s)
      | Some q \<Rightarrow> map_option (map_prod id (map_prod Some id))
                    (wc_request_queue_discard_client q client_fd s))"

definition wc_request_queue_clear_ptr ::
  "wc_request_queue option \<Rightarrow> qsys \<Rightarrow> (wc_request_queue option \<times> qsys) option" where
  "wc_request_queue_clear_ptr p s =
     (case p of None \<Rightarrow> Some (None, s)
      | Some q \<Rightarrow> map_option (map_prod Some id) (wc_request_queue_clear q s))"

section \<open>The list a queue represents\<close>

type_synonym entry = "fd \<times> wc_request_type \<times> byte list"

definition entry_of :: "wc_queued_request \<Rightarrow> entry" where
  "entry_of n = (qr_client_fd n, qr_type n, qr_argument n)"

primrec path :: "(nat \<rightharpoonup> wc_queued_request) \<Rightarrow> nat option \<Rightarrow> nat list \<Rightarrow> nat option \<Rightarrow> bool" where
  "path h x [] y \<longleftrightarrow> x = y"
| "path h x (p # ps) y \<longleftrightarrow> x = Some p \<and> (\<exists>n. h p = Some n \<and> path h (qr_next n) ps y)"

definition last_ptr :: "nat list \<Rightarrow> nat option" where
  "last_ptr ps = (if ps = [] then None else Some (last ps))"

definition entries :: "(nat \<rightharpoonup> wc_queued_request) \<Rightarrow> nat list \<Rightarrow> entry list" where
  "entries h ps = map (\<lambda>p. entry_of (the (h p))) ps"

text \<open>Every node lies below the allocation clock and owns the bytes it announces.\<close>

definition nodes_ok :: "qsys \<Rightarrow> bool" where
  "nodes_ok s \<longleftrightarrow> (\<forall>p n. s_nodes s p = Some n \<longrightarrow>
     p < s_clock s \<and> unat (qr_argument_length n) = length (qr_argument n))"

text \<open>\<open>queue_at q s ps\<close>: the nodes of the queue are \<open>ps\<close>, in order.\<close>

definition queue_at :: "wc_request_queue \<Rightarrow> qsys \<Rightarrow> nat list \<Rightarrow> bool" where
  "queue_at q s ps \<longleftrightarrow> path (s_nodes s) (q_head q) ps None \<and> distinct ps \<and>
     q_tail q = last_ptr ps \<and> unat (q_length q) = length ps \<and> nodes_ok s"

subsection \<open>Paths\<close>

lemma path_append [simp]:
  "path h x (ps @ qs) y \<longleftrightarrow> (\<exists>z. path h x ps z \<and> path h z qs y)"
  by (induction ps arbitrary: x) auto

lemma path_other [simp]: "p \<notin> set ps \<Longrightarrow> path (h(p := v)) x ps y = path h x ps y"
  by (induction ps arbitrary: x) auto

lemma path_dom: "path h x ps y \<Longrightarrow> set ps \<subseteq> dom h"
  by (induction ps arbitrary: x) auto

text \<open>Redirecting the last link of a path.\<close>

lemma path_relink:
  "path h x (ps @ [p]) y \<Longrightarrow> p \<notin> set ps \<Longrightarrow> h p = Some n \<Longrightarrow>
   path (h(p \<mapsto> n\<lparr>qr_next := z\<rparr>)) x (ps @ [p]) z"
  by (induction ps arbitrary: x) auto

lemma last_ptr_simps [simp]:
  "last_ptr [] = None" "last_ptr (ps @ [p]) = Some p"
  "last_ptr [p] = Some p" "(last_ptr ps = None) = (ps = [])"
  by (simp_all add: last_ptr_def)

lemma last_ptr_append: "ps \<noteq> [] \<Longrightarrow> last_ptr (qs @ ps) = last_ptr ps"
  by (simp add: last_ptr_def)

lemma entries_simps [simp]:
  "entries h [] = []" "entries h (p # ps) = entry_of (the (h p)) # entries h ps"
  "entries h (ps @ qs) = entries h ps @ entries h qs" "length (entries h ps) = length ps"
  by (simp_all add: entries_def)

lemma entries_other: "p \<notin> set ps \<Longrightarrow> entries (h(p := v)) ps = entries h ps"
  by (auto simp: entries_def)

lemma entry_of_next [simp]: "entry_of (n\<lparr>qr_next := x\<rparr>) = entry_of n"
  by (simp add: entry_of_def)

lemma entries_relink: "h p = Some n \<Longrightarrow> entries (h(p \<mapsto> n\<lparr>qr_next := x\<rparr>)) ps = entries h ps"
  by (simp add: entries_def)

lemma filter_entries:
  "filter (\<lambda>e. fst e \<noteq> c) (entries h ps) =
   entries h (filter (\<lambda>p. qr_client_fd (the (h p)) \<noteq> c) ps)"
  by (induction ps) (simp_all add: entry_of_def)

lemma queue_atD:
  assumes "queue_at q s ps"
  shows "path (s_nodes s) (q_head q) ps None" "distinct ps" "q_tail q = last_ptr ps"
    "unat (q_length q) = length ps" "nodes_ok s" "set ps \<subseteq> dom (s_nodes s)"
  using assms path_dom [of "s_nodes s" "q_head q" ps None] by (auto simp: queue_at_def)

lemma queue_head: "queue_at q s ps \<Longrightarrow> q_head q = (case ps of [] \<Rightarrow> None | p # _ \<Rightarrow> Some p)"
  by (auto simp: queue_at_def split: list.splits)

section \<open>What each operation does\<close>

lemma node_malloc_cases:
  assumes "node_malloc n v s = (r, s')" "nodes_ok s"
  obtains "r = None" "sys_frame s s'" "\<not> mem_ample s" "s_live s' = s_live s" "nodes_ok s'"
  | p where "r = Some p" "s_nodes s p = None" "s_nodes s' = (s_nodes s)(p \<mapsto> v)" "p < s_clock s'"
      "s' = s\<lparr>s_clock := Suc (s_clock s), s_nodes := (s_nodes s)(p \<mapsto> v)\<rparr>" "p = s_clock s"
proof (cases "s_grant s (s_clock s) n")
  case True
  then have "r = Some (s_clock s)"
      "s' = s\<lparr>s_clock := Suc (s_clock s), s_nodes := (s_nodes s)(s_clock s \<mapsto> v)\<rparr>"
    using assms(1) by (auto simp: node_malloc_def s_tick_def)
  moreover have "s_nodes s (s_clock s) = None"
    using assms(2) by (cases "s_nodes s (s_clock s)") (auto simp: nodes_ok_def)
  ultimately show ?thesis by (intro that(2)) auto
next
  case False
  have "nodes_ok (s_tick s)" using assms(2) by (fastforce simp: nodes_ok_def less_Suc_eq)
  with False assms(1) show ?thesis
    by (intro that(1)) (auto simp: node_malloc_def sys_frame_def mem_ample_def)
qed

lemma nodes_ok_relink:
  "nodes_ok s \<Longrightarrow> s_nodes s p = Some n \<Longrightarrow>
   nodes_ok (s\<lparr>s_nodes := (s_nodes s)(p \<mapsto> n\<lparr>qr_next := x\<rparr>)\<rparr>)"
  by (auto simp: nodes_ok_def)

lemma nodes_ok_free: "nodes_ok s \<Longrightarrow> nodes_ok (s\<lparr>s_nodes := (s_nodes s)(p := None)\<rparr>)"
  by (auto simp: nodes_ok_def split: if_splits)

text \<open>What a queue operation leaves alone: everything but the nodes and the clock.\<close>

definition queue_frame :: "qsys \<Rightarrow> qsys \<Rightarrow> bool" where
  "queue_frame s s' \<longleftrightarrow> s_grant s' = s_grant s \<and> s_fill s' = s_fill s \<and> s_popen s' = s_popen s \<and>
     s_trace s' = s_trace s \<and> s_live s' = s_live s \<and> s_clock s \<le> s_clock s'"

lemma queue_frame_refl [simp, intro]: "queue_frame s s"
  by (simp add: queue_frame_def)

lemma queue_frame_trans: "queue_frame s t \<Longrightarrow> queue_frame t u \<Longrightarrow> queue_frame s u"
  by (simp add: queue_frame_def)

lemma queue_frame_mem_ample: "queue_frame s t \<Longrightarrow> mem_ample t = mem_ample s"
  by (simp add: queue_frame_def mem_ample_def)

lemma queue_frame_effect: "queue_frame s t \<Longrightarrow> effect s t []"
  by (simp add: queue_frame_def effect_def)

lemma enqueue_link:
  assumes q: "queue_at q s ps" and fresh: "s_nodes s p = None" and len: "length ps < 2 ^ 64 - 1"
    and n: "qr_next n = None" "unat (qr_argument_length n) = length (qr_argument n)"
    and s1: "s_nodes s1 = (s_nodes s)(p \<mapsto> n)" "p < s_clock s1" "s_clock s \<le> s_clock s1"
  obtains q1 s2 where
    "(case q_tail q of None \<Rightarrow> Some (q\<lparr>q_head := Some p\<rparr>, s1)
      | Some t \<Rightarrow> map_option (\<lambda>s'. (q, s')) (set_next t (Some p) s1)) = Some (q1, s2)"
    "queue_at (q1\<lparr>q_tail := Some p, q_length := q_length q1 + 1\<rparr>) s2 (ps @ [p])"
    "entries (s_nodes s2) (ps @ [p]) = entries (s_nodes s) ps @ [entry_of n]"
    "dom (s_nodes s2) = insert p (dom (s_nodes s))"
    "queue_frame s1 s2"
proof -
  note D = queue_atD [OF q]
  have pnew: "p \<notin> set ps" using D(6) fresh by auto
  have len': "unat (q_length q + 1) = length (ps @ [p])"
    using D(4) len by (simp add: unat_plus_if')
  have ok1: "nodes_ok s1"
    using D(5) n(2) s1 by (fastforce simp: nodes_ok_def)
  show ?thesis
  proof (cases ps rule: rev_cases)
    case Nil
    then have "q_tail q = None" using D(3) by simp
    then show ?thesis
      using Nil D len' ok1 n s1
      by (intro that [of "q\<lparr>q_head := Some p\<rparr>" s1]) (auto simp: queue_at_def)
  next
    case (snoc ps' t)
    then obtain m where m: "s_nodes s t = Some m" using D(6) by auto
    have tp: "t \<noteq> p" using m fresh by auto
    let ?h = "(s_nodes s)(p \<mapsto> n, t \<mapsto> m\<lparr>qr_next := Some p\<rparr>)"
    let ?s = "s1\<lparr>s_nodes := ?h\<rparr>"
    have "path ?h (q_head q) (ps' @ [t]) (Some p)"
      using path_relink [of "(s_nodes s)(p \<mapsto> n)" "q_head q" ps' t None m "Some p"] D(1,2) snoc m tp pnew
      by (auto simp: fun_upd_twist)
    moreover have "path ?h (Some p) [p] None" using n(1) tp by auto
    ultimately have "path ?h (q_head q) (ps @ [p]) None" using snoc by auto
    moreover have "nodes_ok ?s"
      using nodes_ok_relink [OF ok1, of t m "Some p"] m s1 tp by simp
    moreover have "entries ?h (ps @ [p]) = entries (s_nodes s) ps @ [entry_of n]"
    proof -
      have "entries ?h (ps @ [p]) = entries ((s_nodes s)(p \<mapsto> n)) (ps @ [p])"
        by (rule entries_relink) (use m tp in simp)
      then show ?thesis using entries_other [OF pnew] by simp
    qed
    moreover have "dom ?h = insert p (dom (s_nodes s))" using m by auto
    moreover have "q_tail q = Some t" using D(3) snoc by simp
    ultimately show ?thesis
      using D(2) pnew len' m tp s1
      by (intro that [of q ?s]) (auto simp: queue_at_def set_next_def queue_frame_def)
  qed
qed

lemma enqueue_spec:
  assumes q: "queue_at q s ps" and args: "0 \<le> c" "t \<in> {1, 2, 3}" "readable arg n"
    and n: "unat n \<le> 65535" and len: "length ps < 2 ^ 64 - 1"
  obtains
    (refused) s' where "wc_request_queue_enqueue q c t arg n s = Some (Inl ENOMEM, q, s')"
      "queue_at q s' ps" "s_nodes s' = s_nodes s" "queue_frame s s'" "\<not> mem_ample s"
  | (added) q' s' p where "wc_request_queue_enqueue q c t arg n s = Some (wc_ok, q', s')"
      "queue_at q' s' (ps @ [p])" "queue_frame s s'" "s_nodes s p = None"
      "entries (s_nodes s') (ps @ [p]) = entries (s_nodes s) ps @ [(c, t, take (unat n) (opt_bytes arg))]"
      "dom (s_nodes s') = insert p (dom (s_nodes s))"
proof -
  let ?v = "\<lparr>qr_client_fd = c, qr_type = t, qr_argument_length = n, qr_next = None, qr_argument = []\<rparr>"
  let ?w = "?v\<lparr>qr_argument := take (unat n) (opt_bytes arg)\<rparr>"
  have guards: "\<not> (c < 0 \<or> \<not> wc_request_type_valid t \<or> (arg = None \<and> n \<noteq> 0))"
      "\<not> n > SIZE_MAX - QUEUED_REQUEST_SIZE"
    using args n readable_null [OF args(3)]
    by (auto simp: wc_request_type_valid_def SIZE_MAX_def QUEUED_REQUEST_SIZE_def word_less_nat_alt)
  obtain r s1 where m: "node_malloc (QUEUED_REQUEST_SIZE + n) ?v s = (r, s1)" by fastforce
  note run = wc_request_queue_enqueue_def [of q c t arg n s, unfolded m guards if_False]
  have ok: "nodes_ok s" using queue_atD(5) [OF q] .
  from m ok show ?thesis
  proof (cases rule: node_malloc_cases)
    case 1
    have "queue_at q s1 ps" using q 1 by (auto simp: queue_at_def sys_frame_def)
    with 1 run guards m show ?thesis
      by (intro refused [of s1]) (auto simp: sys_frame_def queue_frame_def)
  next
    case (2 p)
    let ?s2 = "s1\<lparr>s_nodes := (s_nodes s)(p \<mapsto> ?w)\<rparr>"
    have copy: "(if n > 0 then set_argument p arg n s1 else Some s1) = Some ?s2"
      using 2 args(3)
      by (cases arg) (auto simp: set_argument_def readable_def opt_bytes_def word_gt_0)
    have ln: "unat (qr_argument_length ?w) = length (qr_argument ?w)"
      using length_take_readable [OF args(3)] by simp
    obtain q1 s3 where l:
        "(case q_tail q of None \<Rightarrow> Some (q\<lparr>q_head := Some p\<rparr>, ?s2)
          | Some t \<Rightarrow> map_option (\<lambda>s'. (q, s')) (set_next t (Some p) ?s2)) = Some (q1, s3)"
        "queue_at (q1\<lparr>q_tail := Some p, q_length := q_length q1 + 1\<rparr>) s3 (ps @ [p])"
        "entries (s_nodes s3) (ps @ [p]) = entries (s_nodes s) ps @ [entry_of ?w]"
        "dom (s_nodes s3) = insert p (dom (s_nodes s))" "queue_frame ?s2 s3"
      by (rule enqueue_link [OF q 2(2) len, of ?w ?s2]) (use 2 ln in auto)
    have "queue_frame s ?s2" using 2 by (simp add: queue_frame_def)
    then have fr: "queue_frame s s3" using l(5) by (rule queue_frame_trans)
    have "wc_request_queue_enqueue q c t arg n s =
        Some (wc_ok, q1\<lparr>q_tail := Some p, q_length := q_length q1 + 1\<rparr>, s3)"
      unfolding wc_request_queue_enqueue_def
      by (simp only: guards if_False m 2(1) prod.case option.case copy Option.bind.bind_lunit l(1))
    then show ?thesis
      using l fr 2(2) by (intro added) (auto simp: entry_of_def)
  qed
qed

lemma enqueue_invalid:
  "c < 0 \<or> t \<notin> {1, 2, 3} \<Longrightarrow> wc_request_queue_enqueue q c t arg n s = Some (Inl EINVAL, q, s)"
  by (auto simp: wc_request_queue_enqueue_def wc_request_type_valid_def)

lemma dequeue_empty: "queue_at q s [] \<Longrightarrow> wc_request_queue_dequeue q s = Some (Inl ENOENT, q, s)"
  by (simp add: wc_request_queue_dequeue_def queue_at_def)

lemma dequeue_spec:
  assumes q: "queue_at q s (p # ps)"
  obtains q' s' n where "wc_request_queue_dequeue q s = Some (Inr p, q', s')"
    "queue_at q' s' ps" "queue_frame s s'" "s_clock s' = s_clock s"
    "s_nodes s p = Some n" "s_nodes s' = (s_nodes s)(p \<mapsto> n\<lparr>qr_next := None\<rparr>)"
    "entries (s_nodes s') ps = entries (s_nodes s) ps" "p \<notin> set ps"
proof -
  note D = queue_atD [OF q]
  obtain n where n: "q_head q = Some p" "s_nodes s p = Some n" "path (s_nodes s) (qr_next n) ps None"
    using D(1) by auto
  let ?s = "s\<lparr>s_nodes := (s_nodes s)(p \<mapsto> n\<lparr>qr_next := None\<rparr>)\<rparr>"
  let ?q = "q\<lparr>q_head := qr_next n, q_length := q_length q - 1\<rparr>"
  let ?q' = "if qr_next n = None then ?q\<lparr>q_tail := None\<rparr> else ?q"
  have pnew: "p \<notin> set ps" using D(2) by simp
  have len: "unat (q_length q - 1) = length ps"
    using D(4) by (simp add: unat_sub_if')
  have nx: "(qr_next n = None) = (ps = [])" using n(3) by (cases ps) auto
  have tl: "ps \<noteq> [] \<Longrightarrow> q_tail q = last_ptr ps"
    using D(3) by (simp add: last_ptr_def)
  have ok: "nodes_ok ?s" using D(5) n(2) by (rule nodes_ok_relink)
  have "queue_at ?q' ?s ps"
    using n(3) pnew D(2) len ok tl nx by (auto simp: queue_at_def)
  moreover have "wc_request_queue_dequeue q s = Some (Inr p, ?q', ?s)"
    using n by (simp add: wc_request_queue_dequeue_def set_next_def Let_def)
  ultimately show ?thesis
    using n pnew by (intro that [of ?q' ?s n]) (auto simp: queue_frame_def entries_other)
qed

lemma discard_end: "discard_loop c q prev None k s = Some (k, q, s)"
  by (simp add: discard_loop.simps)

lemma discard_keep:
  "s_nodes s r = Some n \<Longrightarrow> qr_client_fd n \<noteq> c \<Longrightarrow>
   discard_loop c q prev (Some r) k s = discard_loop c q (Some r) (qr_next n) k s"
  by (simp add: discard_loop.simps [of c q prev "Some r"])

text \<open>Unlinking the node \<open>r\<close> that follows the kept nodes \<open>ds\<close>.\<close>

lemma discard_unlink:
  assumes ds: "path (s_nodes s) (q_head q) ds (Some r)" and r: "s_nodes s r = Some n"
    and rs: "path (s_nodes s) (qr_next n) rs None" and dist: "distinct (ds @ r # rs)"
    and ok: "nodes_ok s"
  obtains q1 s1 where
    "(case last_ptr ds of None \<Rightarrow> Some (q\<lparr>q_head := qr_next n\<rparr>, s)
      | Some p \<Rightarrow> map_option (\<lambda>s'. (q, s')) (set_next p (qr_next n) s)) = Some (q1, s1)"
    "path (s_nodes s1) (q_head q1) ds (qr_next n)" "path (s_nodes s1) (qr_next n) rs None"
    "s_nodes s1 r = Some n" "nodes_ok s1" "q_tail q1 = q_tail q" "q_length q1 = q_length q"
    "dom (s_nodes s1) = dom (s_nodes s)" "queue_frame s s1" "s_clock s1 = s_clock s"
    "\<And>ps. entries (s_nodes s1) ps = entries (s_nodes s) ps"
    "\<And>p. p \<in> set rs \<Longrightarrow> s_nodes s1 p = s_nodes s p"
proof (cases ds rule: rev_cases)
  case Nil
  then show ?thesis
    using ds r rs ok by (intro that [of "q\<lparr>q_head := qr_next n\<rparr>" s]) auto
next
  case (snoc ds' p)
  then obtain m where m: "s_nodes s p = Some m" using path_dom [OF ds] by auto
  let ?s = "s\<lparr>s_nodes := (s_nodes s)(p \<mapsto> m\<lparr>qr_next := qr_next n\<rparr>)\<rparr>"
  have pr: "p \<noteq> r" "p \<notin> set rs" "p \<notin> set ds'" using dist snoc by auto
  have "path (s_nodes ?s) (q_head q) ds (qr_next n)"
    using path_relink [of "s_nodes s" "q_head q" ds' p "Some r" m "qr_next n"] ds m pr snoc by simp
  then show ?thesis
    using snoc m pr r rs nodes_ok_relink [OF ok m, of "qr_next n"]
    by (intro that [of q ?s]) (auto simp: set_next_def queue_frame_def entries_relink)
qed

lemma discard_drop:
  assumes "s_nodes s r = Some n" "qr_client_fd n = c" "s_nodes s1 r = Some n'"
    and "(case prev of None \<Rightarrow> Some (q\<lparr>q_head := qr_next n\<rparr>, s)
      | Some p \<Rightarrow> map_option (\<lambda>s'. (q, s')) (set_next p (qr_next n) s)) = Some (q1, s1)"
  shows "discard_loop c q prev (Some r) k s =
    discard_loop c ((if q_tail q1 = Some r then q1\<lparr>q_tail := prev\<rparr> else q1)\<lparr>q_length := q_length q1 - 1\<rparr>)
      prev (qr_next n) (k + 1) (s1\<lparr>s_nodes := (s_nodes s1)(r := None)\<rparr>)"
  using assms
  by (simp add: discard_loop.simps [of c q prev "Some r"] node_free_def Let_def)

text \<open>
  The discarding loop with \<open>ds\<close> the nodes already kept and \<open>rs\<close> those still to visit:
  it unlinks exactly the nodes of the client and keeps the others in order.
\<close>

abbreviation others :: "fd \<Rightarrow> (nat \<rightharpoonup> wc_queued_request) \<Rightarrow> nat list \<Rightarrow> nat list" where
  "others c h rs \<equiv> filter (\<lambda>p. qr_client_fd (the (h p)) \<noteq> c) rs"

abbreviation owned_by :: "fd \<Rightarrow> (nat \<rightharpoonup> wc_queued_request) \<Rightarrow> nat list \<Rightarrow> nat list" where
  "owned_by c h rs \<equiv> filter (\<lambda>p. qr_client_fd (the (h p)) = c) rs"

lemma discard_loop_spec:
  assumes "path (s_nodes s) (q_head q) ds cur" "path (s_nodes s) cur rs None" "distinct (ds @ rs)"
    "q_tail q = last_ptr (ds @ rs)" "unat (q_length q) = length (ds @ rs)" "nodes_ok s"
  shows "\<exists>q' s'. discard_loop c q (last_ptr ds) cur k s =
           Some (k + of_nat (length (owned_by c (s_nodes s) rs)), q', s') \<and>
         queue_at q' s' (ds @ others c (s_nodes s) rs) \<and>
         entries (s_nodes s') (ds @ others c (s_nodes s) rs) = entries (s_nodes s) (ds @ others c (s_nodes s) rs) \<and>
         dom (s_nodes s') = dom (s_nodes s) - set (owned_by c (s_nodes s) rs) \<and>
         queue_frame s s' \<and> s_clock s' = s_clock s"
  using assms
proof (induction rs arbitrary: s q ds cur k)
  case Nil
  then show ?case by (auto simp: discard_end queue_at_def)
next
  case (Cons r rs)
  then obtain n where n: "cur = Some r" "s_nodes s r = Some n" "path (s_nodes s) (qr_next n) rs None"
    by auto
  have dist: "r \<notin> set ds" "r \<notin> set rs" "distinct (ds @ rs)" using Cons.prems(3) by auto
  show ?case
  proof (cases "qr_client_fd n = c")
    case False
    have "path (s_nodes s) (q_head q) (ds @ [r]) (qr_next n)" using Cons.prems(1) n by auto
    from Cons.IH [OF this n(3), of k] Cons.prems(3-6) False n discard_keep [OF n(2) False]
    show ?thesis by simp
  next
    case True
    obtain q1 s1 where link: "(case last_ptr ds of None \<Rightarrow> Some (q\<lparr>q_head := qr_next n\<rparr>, s)
        | Some p \<Rightarrow> map_option (\<lambda>s'. (q, s')) (set_next p (qr_next n) s)) = Some (q1, s1)"
      and s1: "path (s_nodes s1) (q_head q1) ds (qr_next n)" "path (s_nodes s1) (qr_next n) rs None"
        "s_nodes s1 r = Some n" "nodes_ok s1" "q_tail q1 = q_tail q" "q_length q1 = q_length q"
        "dom (s_nodes s1) = dom (s_nodes s)" "queue_frame s s1" "s_clock s1 = s_clock s"
      and same: "\<And>ps. entries (s_nodes s1) ps = entries (s_nodes s) ps"
        "\<And>p. p \<in> set rs \<Longrightarrow> s_nodes s1 p = s_nodes s p"
      using discard_unlink [of s q ds r n rs] Cons.prems n by blast
    let ?s = "s1\<lparr>s_nodes := (s_nodes s1)(r := None)\<rparr>"
    let ?q = "(if q_tail q1 = Some r then q1\<lparr>q_tail := last_ptr ds\<rparr> else q1)\<lparr>q_length := q_length q1 - 1\<rparr>"
    have tail: "q_tail ?q = last_ptr (ds @ rs)"
      using Cons.prems(4) s1(5) dist by (cases rs rule: rev_cases) (auto simp: last_ptr_def)
    have len: "unat (q_length ?q) = length (ds @ rs)"
      using Cons.prems(5) s1(6) by (simp add: unat_sub_if')
    have o: "others c (s_nodes ?s) rs = others c (s_nodes s) rs"
        "owned_by c (s_nodes ?s) rs = owned_by c (s_nodes s) rs"
      using same(2) dist(2) by (auto intro!: filter_cong)
    have rnot: "r \<notin> set (ds @ others c (s_nodes s) rs)" using dist by auto
    have "path (s_nodes ?s) (q_head ?q) ds (qr_next n)" "path (s_nodes ?s) (qr_next n) rs None"
        "nodes_ok ?s"
      using s1 dist nodes_ok_free [OF s1(4), of r] by (auto split: if_splits)
    from Cons.IH [OF this(1,2) dist(3) tail len this(3), of "k + 1"]
    obtain q' s' where IH: "discard_loop c ?q (last_ptr ds) (qr_next n) (k + 1) ?s =
           Some (k + 1 + of_nat (length (owned_by c (s_nodes s) rs)), q', s')"
         "queue_at q' s' (ds @ others c (s_nodes s) rs)"
         "entries (s_nodes s') (ds @ others c (s_nodes s) rs) = entries (s_nodes ?s) (ds @ others c (s_nodes s) rs)"
         "dom (s_nodes s') = dom (s_nodes ?s) - set (owned_by c (s_nodes s) rs)"
         "queue_frame ?s s'" "s_clock s' = s_clock ?s"
      unfolding o by blast
    have "queue_frame s ?s" using s1(8) by (simp add: queue_frame_def)
    then have fr: "queue_frame s s'" using IH(5) by (rule queue_frame_trans)
    have run: "discard_loop c q (last_ptr ds) cur k s =
           Some (k + of_nat (length (owned_by c (s_nodes s) (r # rs))), q', s')"
      using discard_drop [OF n(2) True s1(3) link, of k] IH(1) n True by simp
    have ent: "entries (s_nodes s') (ds @ others c (s_nodes s) rs) =
        entries (s_nodes s) (ds @ others c (s_nodes s) rs)"
      using IH(3) entries_other [OF rnot] same(1) by simp
    show ?thesis
      using run IH(2,4,6) ent fr n True s1(7,9) by (intro exI [of _ q'] exI [of _ s']) auto
  qed
qed

lemma clear_loop_None: "clear_loop None s = Some s"
  by (subst clear_loop.simps) simp

lemma clear_loop_Some:
  "s_nodes s p = Some n \<Longrightarrow>
   clear_loop (Some p) s = clear_loop (qr_next n) (s\<lparr>s_nodes := (s_nodes s)(p := None)\<rparr>)"
  by (subst clear_loop.simps) (simp add: node_free_def)

lemma clear_loop_spec:
  "path (s_nodes s) cur ps None \<Longrightarrow> distinct ps \<Longrightarrow>
   clear_loop cur s = Some (s\<lparr>s_nodes := (s_nodes s) |` (- set ps)\<rparr>)"
proof (induction ps arbitrary: s cur)
  case Nil
  then show ?case by (simp add: clear_loop_None restrict_map_def)
next
  case (Cons p ps)
  then obtain n where n: "cur = Some p" "s_nodes s p = Some n" "path (s_nodes s) (qr_next n) ps None"
    by auto
  let ?s = "s\<lparr>s_nodes := (s_nodes s)(p := None)\<rparr>"
  have "path (s_nodes ?s) (qr_next n) ps None" using n(3) Cons.prems(2) by simp
  then have "clear_loop (qr_next n) ?s = Some (?s\<lparr>s_nodes := (s_nodes ?s) |` (- set ps)\<rparr>)"
    by (rule Cons.IH) (use Cons.prems(2) in simp)
  also have "?s\<lparr>s_nodes := (s_nodes ?s) |` (- set ps)\<rparr> = s\<lparr>s_nodes := (s_nodes s) |` (- set (p # ps))\<rparr>"
    by (rule sys.equality) (auto simp: restrict_map_def)
  finally show ?case
    unfolding n(1) clear_loop_Some [OF n(2)] .
qed

section \<open>Ownership and the queue contract\<close>

text \<open>
  \<open>queue_holds q s xs\<close>: the queue holds the requests \<open>xs\<close> and its nodes are all the nodes
  there are. \<open>queue_lent q s xs p\<close>: in addition the node \<open>p\<close> has been dequeued and is owned
  by the caller.
\<close>

definition queue_holds :: "wc_request_queue \<Rightarrow> qsys \<Rightarrow> entry list \<Rightarrow> bool" where
  "queue_holds q s xs \<longleftrightarrow>
     (\<exists>ps. queue_at q s ps \<and> entries (s_nodes s) ps = xs \<and> dom (s_nodes s) = set ps)"

definition queue_lent :: "wc_request_queue \<Rightarrow> qsys \<Rightarrow> entry list \<Rightarrow> nat \<Rightarrow> bool" where
  "queue_lent q s xs p \<longleftrightarrow>
     (\<exists>ps. queue_at q s ps \<and> entries (s_nodes s) ps = xs \<and> dom (s_nodes s) = insert p (set ps) \<and>
           p \<notin> set ps)"

lemma nodes_ok_frame: "nodes_ok s \<Longrightarrow> sys_frame s s' \<Longrightarrow> nodes_ok s'"
  unfolding nodes_ok_def sys_frame_def using less_le_trans by metis

lemma queue_at_frame: "queue_at q s ps \<Longrightarrow> sys_frame s s' \<Longrightarrow> queue_at q s' ps"
  using nodes_ok_frame [of s s'] by (simp add: queue_at_def sys_frame_def)

lemma queue_holds_frame:
  assumes "queue_holds q s xs" "sys_frame s s'"
  shows "queue_holds q s' xs"
proof -
  have "s_nodes s' = s_nodes s" using assms(2) by (simp add: sys_frame_def)
  with assms queue_at_frame [OF _ assms(2)] show ?thesis by (auto simp: queue_holds_def)
qed

lemma queue_lent_frame:
  assumes "queue_lent q s xs p" "sys_frame s s'"
  shows "queue_lent q s' xs p"
proof -
  have "s_nodes s' = s_nodes s" using assms(2) by (simp add: sys_frame_def)
  with assms queue_at_frame [OF _ assms(2)] show ?thesis by (auto simp: queue_lent_def)
qed

lemma queue_holds_length: "queue_holds q s xs \<Longrightarrow> unat (q_length q) = length xs"
  by (auto simp: queue_holds_def queue_at_def)

lemma queue_holds_card:
  assumes "queue_holds q s xs"
  shows "card (dom (s_nodes s)) = length xs"
proof -
  obtain ps where "queue_at q s ps" "entries (s_nodes s) ps = xs" "dom (s_nodes s) = set ps"
    using assms by (auto simp: queue_holds_def)
  then show ?thesis by (auto simp: queue_at_def distinct_card)
qed

lemma queue_holds_init:
  "s_nodes s = Map.empty \<Longrightarrow> queue_holds (snd wc_request_queue_init) s []"
  by (auto simp: queue_holds_def queue_at_def wc_request_queue_init_def nodes_ok_def
      intro!: exI [of _ "[]"])

lemma queue_holds_peek:
  assumes "queue_holds q s xs"
  shows "case xs of [] \<Rightarrow> wc_request_queue_peek q = None
         | x # _ \<Rightarrow> \<exists>p n. wc_request_queue_peek q = Some p \<and> s_nodes s p = Some n \<and> entry_of n = x"
proof -
  obtain ps where ps: "queue_at q s ps" "entries (s_nodes s) ps = xs"
    using assms by (auto simp: queue_holds_def)
  show ?thesis
    using queue_head [OF ps(1)] queue_atD(6) [OF ps(1)] ps(2)
    by (cases ps) (auto simp: wc_request_queue_peek_def)
qed

lemma enqueue_holds:
  assumes q: "queue_holds q s xs" and args: "0 \<le> c" "t \<in> {1, 2, 3}" "readable arg n"
    and n: "unat n \<le> 65535" and len: "length xs < 2 ^ 64 - 1"
  obtains
    (refused) s' where "wc_request_queue_enqueue q c t arg n s = Some (Inl ENOMEM, q, s')"
      "queue_holds q s' xs" "queue_frame s s'" "\<not> mem_ample s"
  | (added) q' s' where "wc_request_queue_enqueue q c t arg n s = Some (wc_ok, q', s')"
      "queue_holds q' s' (xs @ [(c, t, take (unat n) (opt_bytes arg))])" "queue_frame s s'"
proof -
  obtain ps where ps: "queue_at q s ps" "entries (s_nodes s) ps = xs" "dom (s_nodes s) = set ps"
    using q by (auto simp: queue_holds_def)
  then have "length ps < 2 ^ 64 - 1" using len by (metis entries_simps(4))
  from ps(1) args n this show ?thesis
  proof (cases rule: enqueue_spec)
    case (refused s')
    with ps show ?thesis by (intro that(1)) (auto simp: queue_holds_def)
  next
    case (added q' s' p)
    with ps show ?thesis
      by (intro that(2) [of q' s']) (auto simp: queue_holds_def intro!: exI [of _ "ps @ [p]"])
  qed
qed

lemma dequeue_holds:
  assumes q: "queue_holds q s (x # xs)"
  obtains p n q' s' where "wc_request_queue_dequeue q s = Some (Inr p, q', s')"
    "queue_lent q' s' xs p" "s_nodes s' p = Some n" "entry_of n = x"
    "unat (qr_argument_length n) = length (qr_argument n)" "queue_frame s s'"
proof -
  obtain p ps where ps: "queue_at q s (p # ps)" "entries (s_nodes s) (p # ps) = x # xs"
      "dom (s_nodes s) = set (p # ps)"
    using q by (auto simp: queue_holds_def entries_def)
  from ps(1) obtain q' s' n where d: "wc_request_queue_dequeue q s = Some (Inr p, q', s')"
    "queue_at q' s' ps" "queue_frame s s'" "s_clock s' = s_clock s"
    "s_nodes s p = Some n" "s_nodes s' = (s_nodes s)(p \<mapsto> n\<lparr>qr_next := None\<rparr>)"
    "entries (s_nodes s') ps = entries (s_nodes s) ps" "p \<notin> set ps"
    by (rule dequeue_spec)
  have "unat (qr_argument_length n) = length (qr_argument n)"
    using queue_atD(5) [OF ps(1)] d(5) by (auto simp: nodes_ok_def)
  with d ps show ?thesis
    by (intro that [of p q' s' "n\<lparr>qr_next := None\<rparr>"]) (auto simp: queue_lent_def)
qed

lemma destroy_lent:
  assumes "queue_lent q s xs p"
  obtains s' where "wc_queued_request_destroy (Some p) s = Some s'" "queue_holds q s' xs"
    "queue_frame s s'"
proof -
  obtain ps where ps: "queue_at q s ps" "entries (s_nodes s) ps = xs"
      "dom (s_nodes s) = insert p (set ps)" "p \<notin> set ps"
    using assms by (auto simp: queue_lent_def)
  let ?s = "s\<lparr>s_nodes := (s_nodes s)(p := None)\<rparr>"
  have "queue_at q ?s ps"
    using ps(1,4) nodes_ok_free [of s p] by (auto simp: queue_at_def)
  moreover have "wc_queued_request_destroy (Some p) s = Some ?s"
    using ps(3) by (auto simp: wc_queued_request_destroy_def node_free_def split: option.split)
  ultimately show ?thesis
    using ps by (intro that [of ?s]) (auto simp: queue_holds_def queue_frame_def entries_other)
qed

lemma discard_holds:
  assumes "queue_holds q s xs"
  obtains q' s' where "wc_request_queue_discard_client q c s =
      Some (of_nat (length (filter (\<lambda>e. fst e = c) xs)), q', s')"
    "queue_holds q' s' (filter (\<lambda>e. fst e \<noteq> c) xs)" "queue_frame s s'"
proof -
  obtain ps where ps: "queue_at q s ps" "entries (s_nodes s) ps = xs" "dom (s_nodes s) = set ps"
    using assms by (auto simp: queue_holds_def)
  note D = queue_atD [OF ps(1)]
  obtain q' s' where d: "discard_loop c q (last_ptr []) (q_head q) 0 s =
           Some (0 + of_nat (length (owned_by c (s_nodes s) ps)), q', s')"
         "queue_at q' s' ([] @ others c (s_nodes s) ps)"
         "entries (s_nodes s') ([] @ others c (s_nodes s) ps) = entries (s_nodes s) ([] @ others c (s_nodes s) ps)"
         "dom (s_nodes s') = dom (s_nodes s) - set (owned_by c (s_nodes s) ps)" "queue_frame s s'"
    using discard_loop_spec [of s q "[]" "q_head q" ps c 0] D by auto
  have "length (filter (\<lambda>e. fst e = c) xs) = length (owned_by c (s_nodes s) ps)"
    unfolding ps(2) [symmetric] by (induction ps) (simp_all add: entry_of_def)
  moreover have "dom (s_nodes s') = set (others c (s_nodes s) ps)"
    using d(4) ps(3) by auto
  ultimately show ?thesis
    using d filter_entries [of c "s_nodes s" ps] ps(2)
    by (intro that [of q' s']) (auto simp: wc_request_queue_discard_client_def queue_holds_def)
qed

lemma clear_holds:
  assumes "queue_holds q s xs"
  obtains q' s' where "wc_request_queue_clear q s = Some (q', s')" "queue_holds q' s' []"
    "s_nodes s' = Map.empty" "queue_frame s s'"
proof -
  obtain ps where ps: "queue_at q s ps" "dom (s_nodes s) = set ps"
    using assms by (auto simp: queue_holds_def)
  let ?s = "s\<lparr>s_nodes := (s_nodes s) |` (- set ps)\<rparr>"
  have e: "(s_nodes s) |` (- set ps) = Map.empty"
    using ps(2) by (auto simp: restrict_map_def fun_eq_iff)
  have "clear_loop (q_head q) s = Some ?s"
    by (rule clear_loop_spec [OF queue_atD(1,2) [OF ps(1)]])
  then show ?thesis
    using e by (intro that [of "q\<lparr>q_head := None, q_tail := None, q_length := 0\<rparr>" ?s])
      (auto simp: wc_request_queue_clear_def queue_frame_def queue_holds_def queue_at_def
        nodes_ok_def intro!: exI [of _ "[]"])
qed

section \<open>The first-in-first-out contract\<close>

text \<open>
  A caller enqueues requests, takes the oldest one (dequeue, use, destroy), or drops
  the requests of a client. The specification is a list.
\<close>

datatype queue_op = Q_enqueue fd wc_request_type "byte list" | Q_pop | Q_discard fd

datatype queue_ret = R_status status | R_entry "entry option" | R_count size_t

fun fifo_step :: "entry list \<Rightarrow> queue_op \<Rightarrow> queue_ret \<times> entry list" where
  "fifo_step xs (Q_enqueue c t a) =
     (if c < 0 \<or> t \<notin> {1, 2, 3} then (R_status (Inl EINVAL), xs)
      else (R_status wc_ok, xs @ [(c, t, a)]))"
| "fifo_step xs Q_pop =
     (case xs of [] \<Rightarrow> (R_entry None, []) | x # ys \<Rightarrow> (R_entry (Some x), ys))"
| "fifo_step xs (Q_discard c) =
     (R_count (of_nat (length (filter (\<lambda>e. fst e = c) xs))), filter (\<lambda>e. fst e \<noteq> c) xs)"

fun fifo_run :: "entry list \<Rightarrow> queue_op list \<Rightarrow> queue_ret list \<times> entry list" where
  "fifo_run xs [] = ([], xs)"
| "fifo_run xs (x # ops) =
     (let (r, ys) = fifo_step xs x; (rs, zs) = fifo_run ys ops in (r # rs, zs))"

definition queue_pop :: "wc_request_queue \<Rightarrow> qsys \<Rightarrow> (entry option \<times> wc_request_queue \<times> qsys) option" where
  "queue_pop q s = do {
     (r, q1, s1) \<leftarrow> wc_request_queue_dequeue q s;
     case r of
       Inl _ \<Rightarrow> Some (None, q1, s1)
     | Inr p \<Rightarrow> do {
         n \<leftarrow> s_nodes s1 p;
         s2 \<leftarrow> wc_queued_request_destroy (Some p) s1;
         Some (Some (entry_of n), q1, s2)
       }
   }"

definition queue_put :: "wc_request_queue \<Rightarrow> fd \<Rightarrow> wc_request_type \<Rightarrow> byte list \<Rightarrow> qsys \<Rightarrow>
    (status \<times> wc_request_queue \<times> qsys) option" where
  "queue_put q c t a s = wc_request_queue_enqueue q c t (Some a) (of_nat (length a)) s"

fun op_small :: "queue_op \<Rightarrow> bool" where
  "op_small (Q_enqueue c t a) = (length a \<le> 65529)"
| "op_small _ = True"

text \<open>The operations of a provider, run in sequence.\<close>

fun run_ops :: "('q \<Rightarrow> fd \<Rightarrow> wc_request_type \<Rightarrow> byte list \<Rightarrow> 's \<Rightarrow> (status \<times> 'q \<times> 's) option) \<Rightarrow>
    ('q \<Rightarrow> 's \<Rightarrow> (entry option \<times> 'q \<times> 's) option) \<Rightarrow> ('q \<Rightarrow> fd \<Rightarrow> 's \<Rightarrow> (size_t \<times> 'q \<times> 's) option) \<Rightarrow>
    'q \<Rightarrow> queue_op list \<Rightarrow> 's \<Rightarrow> (queue_ret list \<times> 'q \<times> 's) option" where
  "run_ops put pop discard q [] s = Some ([], q, s)"
| "run_ops put pop discard q (x # ops) s = do {
     (r, q1, s1) \<leftarrow> (case x of
         Q_enqueue c t a \<Rightarrow> map_option (map_prod R_status id) (put q c t a s)
       | Q_pop \<Rightarrow> map_option (map_prod R_entry id) (pop q s)
       | Q_discard c \<Rightarrow> map_option (map_prod R_count id) (discard q c s));
     (rs, q2, s2) \<leftarrow> run_ops put pop discard q1 ops s1;
     Some (r # rs, q2, s2)
   }"

locale request_fifo =
  fixes holds :: "'q \<Rightarrow> 's \<Rightarrow> entry list \<Rightarrow> bool"
    and put :: "'q \<Rightarrow> fd \<Rightarrow> wc_request_type \<Rightarrow> byte list \<Rightarrow> 's \<Rightarrow> (status \<times> 'q \<times> 's) option"
    and pop :: "'q \<Rightarrow> 's \<Rightarrow> (entry option \<times> 'q \<times> 's) option"
    and discard :: "'q \<Rightarrow> fd \<Rightarrow> 's \<Rightarrow> (size_t \<times> 'q \<times> 's) option"
    and ample :: "'s \<Rightarrow> bool"
    and limit :: nat
  assumes put_law: "holds q s xs \<Longrightarrow> ample s \<Longrightarrow> 0 \<le> c \<Longrightarrow> t \<in> {1, 2, 3} \<Longrightarrow> length a \<le> 65529 \<Longrightarrow>
      length xs < limit \<Longrightarrow>
      \<exists>q' s'. put q c t a s = Some (wc_ok, q', s') \<and> holds q' s' (xs @ [(c, t, a)]) \<and> ample s'"
    and put_invalid: "c < 0 \<or> t \<notin> {1, 2, 3} \<Longrightarrow> put q c t a s = Some (Inl EINVAL, q, s)"
    and pop_law: "holds q s xs \<Longrightarrow> ample s \<Longrightarrow>
      \<exists>q' s'. pop q s = Some (case xs of [] \<Rightarrow> None | x # _ \<Rightarrow> Some x, q', s') \<and> holds q' s' (tl xs) \<and> ample s'"
    and discard_law: "holds q s xs \<Longrightarrow> ample s \<Longrightarrow>
      \<exists>q' s'. discard q c s = Some (of_nat (length (filter (\<lambda>e. fst e = c) xs)), q', s') \<and>
              holds q' s' (filter (\<lambda>e. fst e \<noteq> c) xs) \<and> ample s'"
begin

lemma step_refines:
  assumes "holds q s xs" "ample s" "op_small x" "length xs < limit"
  shows "\<exists>q' s'. (case x of
         Q_enqueue c t a \<Rightarrow> map_option (map_prod R_status id) (put q c t a s)
       | Q_pop \<Rightarrow> map_option (map_prod R_entry id) (pop q s)
       | Q_discard c \<Rightarrow> map_option (map_prod R_count id) (discard q c s)) =
       Some (fst (fifo_step xs x), q', s') \<and> holds q' s' (snd (fifo_step xs x)) \<and> ample s'"
proof (cases x)
  case (Q_enqueue c t a)
  show ?thesis
  proof (cases "c < 0 \<or> t \<notin> {1, 2, 3}")
    case True
    then have "fifo_step xs x = (R_status (Inl EINVAL), xs)" using Q_enqueue by simp
    with Q_enqueue put_invalid [OF True] assms(1,2) show ?thesis
      by (intro exI [of _ q] exI [of _ s]) simp
  next
    case False
    then have step: "fifo_step xs x = (R_status wc_ok, xs @ [(c, t, a)])" using Q_enqueue by simp
    have "0 \<le> c" "t \<in> {1, 2, 3}" "length a \<le> 65529" using False assms(3) Q_enqueue by auto
    from put_law [OF assms(1,2) this assms(4)] obtain q' s'
      where "put q c t a s = Some (wc_ok, q', s')" "holds q' s' (xs @ [(c, t, a)])" "ample s'"
      by blast
    with Q_enqueue step show ?thesis by (intro exI [of _ q'] exI [of _ s']) simp
  qed
next
  case Q_pop
  then show ?thesis using pop_law [OF assms(1,2)] by (auto split: list.splits)
next
  case (Q_discard c)
  then show ?thesis using discard_law [OF assms(1,2), of c] by auto
qed

lemma fifo_step_length: "length (snd (fifo_step xs x)) \<le> Suc (length xs)"
  by (cases x) (auto simp: le_SucI split: list.splits)

lemma run_refines:
  assumes "holds q s xs" "ample s" "list_all op_small ops" "length xs + length ops \<le> limit"
  shows "\<exists>q' s'. run_ops put pop discard q ops s = Some (fst (fifo_run xs ops), q', s') \<and>
           holds q' s' (snd (fifo_run xs ops)) \<and> ample s'"
  using assms
proof (induction ops arbitrary: q s xs)
  case Nil
  then show ?case by simp
next
  case (Cons x ops)
  then have "op_small x" "length xs < limit" by auto
  from step_refines [OF Cons.prems(1,2) this]
  obtain q1 s1 where step: "(case x of
         Q_enqueue c t a \<Rightarrow> map_option (map_prod R_status id) (put q c t a s)
       | Q_pop \<Rightarrow> map_option (map_prod R_entry id) (pop q s)
       | Q_discard c \<Rightarrow> map_option (map_prod R_count id) (discard q c s)) =
       Some (fst (fifo_step xs x), q1, s1)" "holds q1 s1 (snd (fifo_step xs x))" "ample s1"
    by blast
  have "length (snd (fifo_step xs x)) + length ops \<le> limit"
    using fifo_step_length [of xs x] Cons.prems(4) by simp
  from Cons.IH [OF step(2,3) _ this] Cons.prems(3) obtain q2 s2 where
    "run_ops put pop discard q1 ops s1 = Some (fst (fifo_run (snd (fifo_step xs x)) ops), q2, s2)"
    "holds q2 s2 (snd (fifo_run (snd (fifo_step xs x)) ops))" "ample s2"
    by auto
  then show ?case
    by (intro exI [of _ q2] exI [of _ s2]) (simp add: step(1) Let_def split_beta)
qed

end

lemma queue_put_law:
  assumes h: "queue_holds q s xs" and am: "mem_ample s"
    and arg: "0 \<le> c" "t \<in> {1, 2, 3}" "length a \<le> 65529" "length xs < 2 ^ 64 - 1"
  shows "\<exists>q' s'. queue_put q c t a s = Some (wc_ok, q', s') \<and>
           queue_holds q' s' (xs @ [(c, t, a)]) \<and> mem_ample s'"
proof -
  have u: "unat (of_nat (length a) :: size_t) = length a" using arg(3) by simp
  then have rd: "readable (Some a) (of_nat (length a))" "unat (of_nat (length a) :: size_t) \<le> 65535"
    using arg(3) by (simp_all add: readable_def)
  from h arg(1,2) rd arg(4) show ?thesis
  proof (cases rule: enqueue_holds)
    case (refused s')
    with am show ?thesis by simp
  next
    case (added q' s')
    have "mem_ample s'" using am queue_frame_mem_ample [OF added(3)] by simp
    moreover have "take (unat (of_nat (length a) :: size_t)) (opt_bytes (Some a)) = a"
      using u by (simp add: opt_bytes_def)
    ultimately show ?thesis
      using added(1,2) unfolding queue_put_def by (intro exI [of _ q'] exI [of _ s']) simp
  qed
qed

lemma queue_pop_law:
  assumes h: "queue_holds q s xs" and am: "mem_ample s"
  shows "\<exists>q' s'. queue_pop q s = Some (case xs of [] \<Rightarrow> None | x # _ \<Rightarrow> Some x, q', s') \<and>
           queue_holds q' s' (tl xs) \<and> mem_ample s'"
proof (cases xs)
  case Nil
  then have "queue_at q s []" using h by (auto simp: queue_holds_def entries_def)
  with Nil h am show ?thesis
    by (intro exI [of _ q] exI [of _ s]) (simp add: queue_pop_def dequeue_empty)
next
  case (Cons x ys)
  from h [unfolded Cons] obtain p n q' s' where d: "wc_request_queue_dequeue q s = Some (Inr p, q', s')"
    "queue_lent q' s' ys p" "s_nodes s' p = Some n" "entry_of n = x" "queue_frame s s'"
    by (rule dequeue_holds)
  from d(2) obtain s'' where e: "wc_queued_request_destroy (Some p) s' = Some s''"
    "queue_holds q' s'' ys" "queue_frame s' s''"
    by (rule destroy_lent)
  have "mem_ample s''" using am d(5) e(3) by (simp add: queue_frame_mem_ample)
  with Cons d e show ?thesis
    by (intro exI [of _ q'] exI [of _ s'']) (simp add: queue_pop_def)
qed

lemma queue_discard_law:
  assumes h: "queue_holds q s xs" and am: "mem_ample s"
  shows "\<exists>q' s'. wc_request_queue_discard_client q c s =
             Some (of_nat (length (filter (\<lambda>e. fst e = c) xs)), q', s') \<and>
           queue_holds q' s' (filter (\<lambda>e. fst e \<noteq> c) xs) \<and> mem_ample s'"
proof -
  from h obtain q' s' where d: "wc_request_queue_discard_client q c s =
      Some (of_nat (length (filter (\<lambda>e. fst e = c) xs)), q', s')"
    "queue_holds q' s' (filter (\<lambda>e. fst e \<noteq> c) xs)" "queue_frame s s'"
    by (rule discard_holds)
  with am show ?thesis
    by (intro exI [of _ q'] exI [of _ s']) (simp add: queue_frame_mem_ample)
qed

interpretation rq: request_fifo queue_holds queue_put queue_pop wc_request_queue_discard_client
    mem_ample "2 ^ 64 - 1"
proof (unfold_locales, goal_cases)
  case 1
  then show ?case by (intro queue_put_law)
next
  case 2
  then show ?case unfolding queue_put_def by (rule enqueue_invalid)
next
  case 3
  then show ?case by (rule queue_pop_law)
next
  case 4
  then show ?case by (rule queue_discard_law)
qed

section \<open>Properties\<close>

text \<open>
  C22. Starting from an initialised queue and an empty store, with an allocator that never
  refuses and fewer than \<open>2 ^ 64\<close> calls, any sequence of enqueue (of an argument of at most
  65529 bytes, the longest a request can carry), pop (dequeue, then destroy) and discard-client
  calls returns exactly what a list used as a first-in-first-out queue returns, with no call
  undefined; clearing the queue afterwards leaves no node allocated.
\<close>

theorem queue_refines_fifo:
  assumes "s_nodes s = Map.empty" "mem_ample s" "list_all op_small ops" "length ops \<le> 2 ^ 64 - 1"
  shows "\<exists>q s1 q' s2.
    run_ops queue_put queue_pop wc_request_queue_discard_client (snd wc_request_queue_init) ops s =
      Some (fst (fifo_run [] ops), q, s1) \<and>
    queue_holds q s1 (snd (fifo_run [] ops)) \<and>
    wc_request_queue_clear q s1 = Some (q', s2) \<and> s_nodes s2 = Map.empty"
proof -
  obtain q s1 where run: "run_ops queue_put queue_pop wc_request_queue_discard_client
      (snd wc_request_queue_init) ops s = Some (fst (fifo_run [] ops), q, s1)"
    "queue_holds q s1 (snd (fifo_run [] ops))"
    using rq.run_refines [OF queue_holds_init [OF assms(1)] assms(2,3)] assms(4) by auto
  from run(2) obtain q' s2 where "wc_request_queue_clear q s1 = Some (q', s2)" "s_nodes s2 = Map.empty"
    by (rule clear_holds)
  with run show ?thesis by blast
qed

text \<open>
  Discarding a client removes exactly that client's requests, keeps the others in order,
  returns how many were removed and frees exactly their nodes.
\<close>

theorem discard_client_exact:
  assumes "queue_holds q s xs"
  shows "\<exists>q' s'. wc_request_queue_discard_client q c s =
             Some (of_nat (length (filter (\<lambda>e. fst e = c) xs)), q', s') \<and>
           queue_holds q' s' (filter (\<lambda>e. fst e \<noteq> c) xs) \<and>
           card (dom (s_nodes s')) + length (filter (\<lambda>e. fst e = c) xs) = card (dom (s_nodes s))"
proof -
  from assms obtain q' s' where d: "wc_request_queue_discard_client q c s =
      Some (of_nat (length (filter (\<lambda>e. fst e = c) xs)), q', s')"
    "queue_holds q' s' (filter (\<lambda>e. fst e \<noteq> c) xs)"
    by (rule discard_holds)
  show ?thesis
    using d queue_holds_card [OF assms] queue_holds_card [OF d(2)]
      sum_length_filter_compl [of "\<lambda>e. fst e = c" xs]
    by (intro exI [of _ q'] exI [of _ s']) simp
qed

text \<open>
  Enqueueing a valid request copies its argument to the back of the queue, or, when the
  allocator refuses, reports out of memory and leaves the queue as it was.
\<close>

theorem enqueue_correct:
  assumes "queue_holds q s xs" "0 \<le> c" "t \<in> {1, 2, 3}" "readable arg n" "unat n \<le> 65535"
    "length xs < 2 ^ 64 - 1"
  shows "(\<exists>q' s'. wc_request_queue_enqueue q c t arg n s = Some (wc_ok, q', s') \<and>
            queue_holds q' s' (xs @ [(c, t, take (unat n) (opt_bytes arg))])) \<or>
         (\<exists>s'. wc_request_queue_enqueue q c t arg n s = Some (Inl ENOMEM, q, s') \<and>
            queue_holds q s' xs \<and> (\<exists>k m. \<not> s_grant s k m))"
  using assms
proof (cases rule: enqueue_holds)
  case (refused s')
  then show ?thesis by (intro disjI2 exI [of _ s']) (simp add: mem_ample_def)
next
  case (added q' s')
  then show ?thesis by (intro disjI1 exI [of _ q'] exI [of _ s']) simp
qed

section \<open>Witnesses\<close>

theorem queue_refines_fifo_witness:
  "\<exists>q s1. run_ops queue_put queue_pop wc_request_queue_discard_client (snd wc_request_queue_init)
       [Q_enqueue 5 1 [47], Q_enqueue 6 2 [], Q_enqueue 5 9 [], Q_discard 5, Q_pop, Q_pop] sys0 =
     Some ([R_status wc_ok, R_status wc_ok, R_status (Inl EINVAL), R_count 1,
            R_entry (Some (6, 2, [])), R_entry None], q, s1)"
proof -
  have "s_nodes (sys0 :: qsys) = Map.empty" by (simp add: sys0_def)
  from queue_refines_fifo [OF this mem_ample_sys0,
      of "[Q_enqueue 5 1 [47], Q_enqueue 6 2 [], Q_enqueue 5 9 [], Q_discard 5, Q_pop, Q_pop]"]
  show ?thesis by auto
qed

lemma queue_two:
  "\<exists>q s. queue_holds q s [(5, 1, [47]), (6, 2, [])]"
proof -
  have "s_nodes (sys0 :: qsys) = Map.empty" by (simp add: sys0_def)
  from rq.run_refines [OF queue_holds_init [OF this] mem_ample_sys0,
      of "[Q_enqueue 5 1 [47], Q_enqueue 6 2 []]"]
  show ?thesis by auto
qed

theorem discard_client_exact_witness:
  "\<exists>q s q' s'. queue_holds q s [(5, 1, [47]), (6, 2, [])] \<and>
     wc_request_queue_discard_client q 5 s = Some (1, q', s') \<and> queue_holds q' s' [(6, 2, [])]"
proof -
  obtain q s where h: "queue_holds q s [(5, 1, [47]), (6, 2, [])]" using queue_two by blast
  from discard_client_exact [OF h, of 5] h show ?thesis by auto
qed

theorem enqueue_correct_witness:
  "\<exists>q' s'. wc_request_queue_enqueue (snd wc_request_queue_init) 7 3 (Some [47, 97, 0]) 2 sys0 =
     Some (wc_ok, q', s') \<and> queue_holds q' s' [(7, 3, [47, 97])]"
proof -
  have h: "queue_holds (snd wc_request_queue_init) sys0 []"
    by (rule queue_holds_init) (simp add: sys0_def)
  have "\<forall>k m. s_grant (sys0 :: qsys) k m" by (simp add: sys0_def)
  with enqueue_correct [OF h, of 7 3 "Some [47, 97, 0]" 2] show ?thesis
    by (auto simp: readable_def opt_bytes_def)
qed

end
