(* ===== verification/WC_Commands.thy ===== *)
theory WC_Commands
  imports WC_Protocol
begin

text \<open>
  The commands of \<^verbatim>\<open>src/src/commands.c\<close>: quoting of an argument for the shell, building of
  the command line, running it through \<open>popen\<close> and collecting its output in a bounded
  buffer, and the three commands \<open>ls\<close>, \<open>pwd\<close> and \<open>cat\<close>. The child process is the oracle
  \<open>s_popen\<close>; every call of \<open>popen\<close> is recorded in the trace as \<open>Ev_run\<close> with its command line.

  The lemmas show that quoting stays inside its block and yields exactly one shell word
  with the argument's bytes, that a command returns the child's whole output or an error
  with the right code, and that no path leaks a block.
\<close>

section \<open>Operations\<close>

record wc_command_result =
  res_data :: "byte list option"
  res_length :: size_t

abbreviation (input) WC_COMMAND_READ_SIZE :: nat where
  "WC_COMMAND_READ_SIZE \<equiv> 4096"

text \<open>
  The loop of \<open>wc_command_quote_argument\<close> over \<open>input_index\<close>; \<open>output_index\<close> stays below
  \<open>4 * argument_length + 3\<close>, which the guard before the allocation keeps below \<open>SIZE_MAX\<close>.
\<close>

function quote_loop :: "byte list \<Rightarrow> nat \<Rightarrow> nat \<Rightarrow> byte list \<Rightarrow> nat \<Rightarrow> (byte list \<times> nat) option" where
  "quote_loop argument argument_length input_index quoted output_index =
     (if input_index < argument_length then
        (if input_index < length argument then
           (if argument ! input_index = 39 then do {
              q1 \<leftarrow> c_store quoted output_index 39;
              q2 \<leftarrow> c_store q1 (output_index + 1) 92;
              q3 \<leftarrow> c_store q2 (output_index + 2) 39;
              q4 \<leftarrow> c_store q3 (output_index + 3) 39;
              quote_loop argument argument_length (Suc input_index) q4 (output_index + 4)
            }
            else do {
              q1 \<leftarrow> c_store quoted output_index (argument ! input_index);
              quote_loop argument argument_length (Suc input_index) q1 (output_index + 1)
            })
         else None)
      else Some (quoted, output_index))"
  by pat_completeness auto
termination by (relation "measure (\<lambda>(a, n, i, q, k). n - i)") auto

declare quote_loop.simps [simp del]

definition wc_command_quote_argument ::
  "byte list option \<Rightarrow> size_t \<Rightarrow> 'n sys \<Rightarrow> ((errno + byte list) \<times> 'n sys) option" where
  "wc_command_quote_argument argument argument_length s =
     (case argument of
        None \<Rightarrow> Some (Inl EINVAL, s)
      | Some a \<Rightarrow>
          if argument_length = 0 then Some (Inl EINVAL, s)
          else do {
            nul \<leftarrow> c_memchr_nul a (unat argument_length);
            if nul then Some (Inl EINVAL, s)
            else if argument_length > (SIZE_MAX - 3) div 4 then Some (Inl EOVERFLOW, s)
            else case c_malloc (argument_length * 4 + 3) s of
                (None, s1) \<Rightarrow> Some (Inl ENOMEM, s1)
              | (Some quoted, s1) \<Rightarrow> do {
                  q1 \<leftarrow> c_store quoted 0 39;
                  (q2, output_index) \<leftarrow> quote_loop a (unat argument_length) 0 q1 1;
                  q3 \<leftarrow> c_store q2 output_index 39;
                  q4 \<leftarrow> c_store q3 (output_index + 1) 0;
                  Some (Inr q4, s1)
                }
          })"

definition command_suffix :: "byte list" where
  "command_suffix = c_str '' 2>/dev/null''"

definition wc_command_build ::
  "byte list \<Rightarrow> byte list option \<Rightarrow> size_t \<Rightarrow> 'n sys \<Rightarrow> ((errno + byte list) \<times> 'n sys) option" where
  "wc_command_build program argument argument_length s = do {
     (r, s1) \<leftarrow> wc_command_quote_argument argument argument_length s;
     case r of
       Inl e \<Rightarrow> Some (Inl e, s1)
     | Inr quoted_argument \<Rightarrow> do {
         p \<leftarrow> c_string program;
         q \<leftarrow> c_string quoted_argument;
         let command_length = of_nat (length p) + 1 + of_nat (length q) +
               of_nat (length command_suffix + 1) in
         case c_malloc command_length s1 of
           (None, s2) \<Rightarrow> Some (Inl ENOMEM, c_free (Some quoted_argument) s2)
         | (Some command, s2) \<Rightarrow> do {
             command' \<leftarrow> c_snprintf command command_length (p @ c_str '' '' @ q @ command_suffix);
             Some (Inr command', c_free (Some quoted_argument) s2)
           }
       }
   }"

text \<open>\<open>popen (command, "r")\<close>.\<close>

definition c_popen :: "byte list \<Rightarrow> 'n sys \<Rightarrow> popen_outcome \<times> 'n sys" where
  "c_popen command s = (s_popen s (s_clock s) command, s_emit (Ev_run command) (s_tick s))"

text \<open>
  The reading loop of \<open>wc_command_run\<close> on a stream that delivers \<open>out\<close> and then ends, with
  \<open>ferror\<close> true when \<open>err\<close>. \<open>fread\<close> returns fewer bytes than asked only at the end. The first
  component is \<open>failure_errno\<close> when \<open>command_failed\<close> is set.
\<close>

function run_loop :: "byte list \<Rightarrow> bool \<Rightarrow> wc_buffer \<Rightarrow> 'n sys \<Rightarrow>
    (errno option \<times> wc_buffer \<times> 'n sys) option" where
  "run_loop out err output s =
     (let chunk = take WC_COMMAND_READ_SIZE out; bytes_read = length chunk in do {
        (st, b1, s1) \<leftarrow> (if bytes_read > 0
            then wc_buffer_append output (Some chunk) (of_nat bytes_read) s
            else Some (wc_ok, output, s));
        case st of
          Inl e \<Rightarrow> Some (Some e, b1, s1)
        | Inr _ \<Rightarrow>
            if bytes_read < WC_COMMAND_READ_SIZE
            then Some (if err then Some EIO else None, b1, s1)
            else run_loop (drop WC_COMMAND_READ_SIZE out) err b1 s1
      })"
  by pat_completeness auto
termination by (relation "measure (\<lambda>(out, err, b, s). length out)") auto

declare run_loop.simps [simp del]

definition wc_command_run ::
  "byte list \<Rightarrow> size_t \<Rightarrow> wc_command_result \<Rightarrow> 'n sys \<Rightarrow>
   (status \<times> wc_command_result \<times> 'n sys) option" where
  "wc_command_run command max_result_size result s = do {
     cmd \<leftarrow> c_string command;
     case c_popen cmd s of
       (Popen_failed e, s1) \<Rightarrow> Some (Inl e, result, s1)
     | (Popen_ok out err child_status, s1) \<Rightarrow>
         (case wc_buffer_init max_result_size of
            (Inl e, _) \<Rightarrow> Some (Inl e, result, s1)
          | (Inr _, output) \<Rightarrow> do {
              (failure, b, s2) \<leftarrow> run_loop out err output s1;
              let failure' = (if child_status \<noteq> Exited 0
                    then (if failure = None then Some EIO else failure) else failure) in
              case failure' of
                Some e \<Rightarrow> Some (Inl e, result, snd (wc_buffer_destroy b s2))
              | None \<Rightarrow> Some (wc_ok, result\<lparr>res_data := buf_data b, res_length := buf_length b\<rparr>, s2)
            })
   }"

definition result_zero :: wc_command_result where
  "result_zero = \<lparr>res_data = None, res_length = 0\<rparr>"

definition wc_command_ls ::
  "byte list option \<Rightarrow> size_t \<Rightarrow> size_t \<Rightarrow> 'n sys \<Rightarrow> (status \<times> wc_command_result \<times> 'n sys) option" where
  "wc_command_ls argument argument_length max_result_size s = do {
     (r, s1) \<leftarrow> wc_command_build (c_lit ''ls -1 --'') argument argument_length s;
     case r of
       Inl e \<Rightarrow> Some (Inl e, result_zero, s1)
     | Inr command \<Rightarrow> do {
         (st, result, s2) \<leftarrow> wc_command_run command max_result_size result_zero s1;
         Some (st, result, c_free (Some command) s2)
       }
   }"

definition wc_command_pwd ::
  "size_t \<Rightarrow> 'n sys \<Rightarrow> (status \<times> wc_command_result \<times> 'n sys) option" where
  "wc_command_pwd max_result_size s = do {
     (st, result, s1) \<leftarrow> wc_command_run (c_lit ''pwd 2>/dev/null'') max_result_size result_zero s;
     if st = wc_ok \<and> res_length result > 0 then do {
       d \<leftarrow> res_data result;
       if unat (res_length result - 1) < length d then
         if d ! unat (res_length result - 1) = 10
         then Some (st, result\<lparr>res_length := res_length result - 1\<rparr>, s1)
         else Some (st, result, s1)
       else None
     }
     else Some (st, result, s1)
   }"

definition wc_command_cat ::
  "byte list option \<Rightarrow> size_t \<Rightarrow> size_t \<Rightarrow> 'n sys \<Rightarrow> (status \<times> wc_command_result \<times> 'n sys) option" where
  "wc_command_cat argument argument_length max_result_size s =
     (case argument of
        None \<Rightarrow> Some (Inl EINVAL, result_zero, s)
      | Some a \<Rightarrow>
          if argument_length = 0 then Some (Inl EINVAL, result_zero, s)
          else if a = [] then None
          else if a ! 0 \<noteq> 47 then Some (Inl EINVAL, result_zero, s)
          else do {
            (r, s1) \<leftarrow> wc_command_build (c_lit ''cat --'') argument argument_length s;
            case r of
              Inl e \<Rightarrow> Some (Inl e, result_zero, s1)
            | Inr command \<Rightarrow> do {
                (st, result, s2) \<leftarrow> wc_command_run command max_result_size result_zero s1;
                Some (st, result, c_free (Some command) s2)
              }
          })"

definition wc_command_result_destroy ::
  "wc_command_result \<Rightarrow> 'n sys \<Rightarrow> wc_command_result \<times> 'n sys" where
  "wc_command_result_destroy result s =
     (result\<lparr>res_data := None, res_length := 0\<rparr>, c_free (res_data result) s)"

text \<open>The entry points with a null \<open>result\<close> pointer.\<close>

definition wc_command_ls_ptr ::
  "byte list option \<Rightarrow> size_t \<Rightarrow> size_t \<Rightarrow> wc_command_result option \<Rightarrow> 'n sys \<Rightarrow>
   (status \<times> wc_command_result option \<times> 'n sys) option" where
  "wc_command_ls_ptr argument n m p s =
     (case p of None \<Rightarrow> Some (Inl EINVAL, None, s)
      | Some _ \<Rightarrow> map_option (map_prod id (map_prod Some id)) (wc_command_ls argument n m s))"

definition wc_command_pwd_ptr ::
  "size_t \<Rightarrow> wc_command_result option \<Rightarrow> 'n sys \<Rightarrow>
   (status \<times> wc_command_result option \<times> 'n sys) option" where
  "wc_command_pwd_ptr m p s =
     (case p of None \<Rightarrow> Some (Inl EINVAL, None, s)
      | Some _ \<Rightarrow> map_option (map_prod id (map_prod Some id)) (wc_command_pwd m s))"

definition wc_command_cat_ptr ::
  "byte list option \<Rightarrow> size_t \<Rightarrow> size_t \<Rightarrow> wc_command_result option \<Rightarrow> 'n sys \<Rightarrow>
   (status \<times> wc_command_result option \<times> 'n sys) option" where
  "wc_command_cat_ptr argument n m p s =
     (case p of None \<Rightarrow> Some (Inl EINVAL, None, s)
      | Some _ \<Rightarrow> map_option (map_prod id (map_prod Some id)) (wc_command_cat argument n m s))"

definition wc_command_result_destroy_ptr ::
  "wc_command_result option \<Rightarrow> 'n sys \<Rightarrow> wc_command_result option \<times> 'n sys" where
  "wc_command_result_destroy_ptr p s =
     (case p of None \<Rightarrow> (None, s) | Some r \<Rightarrow> map_prod Some id (wc_command_result_destroy r s))"

section \<open>Quoting\<close>

text \<open>The quoted form of an argument and the command lines the program runs.\<close>

definition quote_byte :: "byte \<Rightarrow> byte list" where
  "quote_byte b = (if b = 39 then [39, 92, 39, 39] else [b])"

definition shell_quote :: "byte list \<Rightarrow> byte list" where
  "shell_quote a = [39] @ concat (map quote_byte a) @ [39]"

definition command_line :: "string \<Rightarrow> byte list \<Rightarrow> byte list" where
  "command_line prog a = c_str prog @ c_str '' '' @ shell_quote a @ command_suffix"

lemma c_store_Some: "i < length d \<Longrightarrow> c_store d i b = Some (d[i := b])"
  by (simp add: c_store_def)

lemma take_store: "i < length d \<Longrightarrow> take (Suc i) (d[i := b]) = take i d @ [b]"
  by (simp add: take_Suc_conv_app_nth)

lemma length_quote_bytes: "length (concat (map quote_byte a)) \<le> 4 * length a"
  by (induction a) (auto simp: quote_byte_def)

lemma quote_bytes_nonzero: "0 \<notin> set a \<Longrightarrow> 0 \<notin> set (concat (map quote_byte a))"
  by (induction a) (auto simp: quote_byte_def)

text \<open>
  The loop writes the quoted bytes one after the other, and never outside a block with
  four bytes for every remaining argument byte.
\<close>

lemma quote_loop_spec:
  "n \<le> length a \<Longrightarrow> i \<le> n \<Longrightarrow> k + 4 * (n - i) \<le> length q \<Longrightarrow>
   \<exists>q'. quote_loop a n i q k =
       Some (q', k + length (concat (map quote_byte (drop i (take n a))))) \<and>
     length q' = length q \<and>
     take (k + length (concat (map quote_byte (drop i (take n a))))) q' =
       take k q @ concat (map quote_byte (drop i (take n a)))"
proof (induction a n i q k rule: quote_loop.induct)
  case (1 a n i q k)
  show ?case
  proof (cases "i < n")
    case False
    then have "i = n" using 1(4) by simp
    then show ?thesis by (simp add: quote_loop.simps [of a n n])
  next
    case True
    then have i: "i < length a" and rest: "drop i (take n a) = a ! i # drop (Suc i) (take n a)"
      using 1(3) by (simp_all add: Cons_nth_drop_Suc [symmetric])
    let ?t = "concat (map quote_byte (drop (Suc i) (take n a)))"
    have room: "k + 4 \<le> length q" "k + 4 + 4 * (n - Suc i) \<le> length q" using 1(5) True by auto
    show ?thesis
    proof (cases "a ! i = 39")
      case q: True
      define q4 where "q4 = q[k := 39, k + 1 := 92, k + 2 := 39, k + 3 := 39]"
      have st: "quote_loop a n i q k = quote_loop a n (Suc i) q4 (k + 4)"
        using True i q room by (simp add: quote_loop.simps [of a n i] c_store_Some q4_def)
      have tk: "take (k + 4) q4 = take k q @ [39, 92, 39, 39]"
        using room by (simp add: q4_def list_eq_iff_nth_eq nth_append nth_list_update nth_Cons' less_Suc_eq_le)
      have "length q4 = length q" by (simp add: q4_def)
      then obtain q' where "quote_loop a n (Suc i) q4 (k + 4) = Some (q', k + 4 + length ?t)"
        "length q' = length q" "take (k + 4 + length ?t) q' = take (k + 4) q4 @ ?t"
        using 1(1) [OF True i q c_store_Some c_store_Some c_store_Some c_store_Some]
          True 1(3,5) room unfolding q4_def by auto
      moreover have "concat (map quote_byte (drop i (take n a))) = [39, 92, 39, 39] @ ?t"
        using rest q by (simp add: quote_byte_def [of "39"])
      moreover have "k + length ([39, 92, 39, 39] @ ?t) = k + 4 + length ?t" by simp
      ultimately show ?thesis unfolding st by (metis append.assoc tk)
    next
      case q: False
      have st: "quote_loop a n i q k = quote_loop a n (Suc i) (q[k := a ! i]) (k + 1)"
        using True i q room by (simp add: quote_loop.simps [of a n i] c_store_Some)
      have tk: "take (k + 1) (q[k := a ! i]) = take k q @ [a ! i]"
        using room by (simp add: take_Suc_conv_app_nth)
      obtain q' where "quote_loop a n (Suc i) (q[k := a ! i]) (k + 1) = Some (q', k + 1 + length ?t)"
        "length q' = length q" "take (k + 1 + length ?t) q' = take (k + 1) (q[k := a ! i]) @ ?t"
        using 1(2) [OF True i q c_store_Some] True 1(3,5) room by auto
      then show ?thesis using rest q st tk by (simp add: quote_byte_def [of "a ! i"] add_ac)
    qed
  qed
qed

lemma quote_size: "unat n \<le> 65535 \<Longrightarrow> unat (n * 4 + 3 :: size_t) = unat n * 4 + 3"
  by (simp add: unat_word_ariths)

lemma c_string_prefix:
  "0 \<notin> set t \<Longrightarrow> take (Suc (length t)) d = t @ [0] \<Longrightarrow> c_string d = Some t"
proof -
  assume t: "0 \<notin> set t" and p: "take (Suc (length t)) d = t @ [0]"
  have "take (Suc (length t)) d @ drop (Suc (length t)) d = d" by (rule append_take_drop_id)
  then obtain r where "d = t @ 0 # r" unfolding p by (metis append.assoc append_Cons append_Nil)
  moreover have "\<And>x. x \<in> set t \<Longrightarrow> x \<noteq> 0" using t by auto
  ultimately show ?thesis by (simp add: c_string_def takeWhile_append2)
qed

lemma quote_argument_invalid:
  assumes "readable arg n" "n = 0 \<or> 0 \<in> set (take (unat n) (opt_bytes arg))"
  shows "wc_command_quote_argument arg n s = Some (Inl EINVAL, s)"
  using assms
  by (auto simp: wc_command_quote_argument_def readable_def opt_bytes_def c_memchr_nul_def
      split: option.splits)

lemma quote_argument_spec:
  assumes rd: "readable arg n" "unat n \<le> 65535" and n: "n \<noteq> 0" "0 \<notin> set (take (unat n) (opt_bytes arg))"
  obtains
    (refused) s' where "wc_command_quote_argument arg n s = Some (Inl ENOMEM, s')" "sys_frame s s'"
      "s_live s' = s_live s" "\<not> mem_ample s"
  | (quoted) q s' where "wc_command_quote_argument arg n s = Some (Inr q, s')" "sys_frame s s'"
      "s_live s' = s_live s + 1" "c_string q = Some (shell_quote (take (unat n) (opt_bytes arg)))"
proof -
  obtain a where a: "arg = Some a" "unat n \<le> length a"
    using rd n by (auto simp: readable_def split: option.splits)
  let ?a = "take (unat n) a" and ?m = "n * 4 + 3"
  have nul: "c_memchr_nul a (unat n) = Some False"
    using n(2) a by (simp add: c_memchr_nul_def opt_bytes_def)
  have small: "\<not> (SIZE_MAX - 3) div 4 < n"
    using rd(2) by (simp add: SIZE_MAX_def word_less_nat_alt unat_div)
  obtain r s1 where m: "c_malloc ?m s = (r, s1)" by fastforce
  have fr: "sys_frame s s1" using m by (auto simp: c_malloc_def dest: c_realloc_frame)
  show ?thesis
  proof (cases r)
    case None
    then show ?thesis
      using m fr a n nul small
      by (intro refused [of s1])
         (auto simp: wc_command_quote_argument_def c_malloc_def c_realloc_def mem_ample_def Let_def
           split: if_splits)
  next
    case (Some d)
    have ld: "length d = unat n * 4 + 3" and live: "s_live s1 = s_live s + 1"
      using m Some rd(2) c_realloc_length [of None ?m s d s1]
      by (auto simp: c_malloc_def c_realloc_def Let_def quote_size split: if_splits)
    let ?t = "concat (map quote_byte ?a)" and ?d1 = "d[0 := 39]"
    have lt: "length ?t \<le> 4 * unat n" using length_quote_bytes [of ?a] a(2) by simp
    obtain q2 where q2: "quote_loop a (unat n) 0 ?d1 1 = Some (q2, 1 + length ?t)"
      "length q2 = length d" "take (1 + length ?t) q2 = take 1 ?d1 @ ?t"
      using quote_loop_spec [of "unat n" a 0 1 ?d1] a(2) ld by auto
    have hd: "take 1 ?d1 = [39]" using ld by (cases d) auto
    define q4 where "q4 = q2[1 + length ?t := 39, 2 + length ?t := 0]"
    have pre: "take (3 + length ?t) q4 = take (1 + length ?t) q2 @ [39, 0]"
      using lt ld q2(2) unfolding q4_def
      by (simp add: list_eq_iff_nth_eq nth_append nth_list_update nth_Cons' less_Suc_eq_le)
    have "c_string q4 = Some (shell_quote ?a)"
      using pre [unfolded q2(3) hd] n(2) a quote_bytes_nonzero [of ?a]
      by (intro c_string_prefix) (auto simp: shell_quote_def opt_bytes_def numeral_3_eq_3)
    moreover have "wc_command_quote_argument arg n s = Some (Inr q4, s1)"
      using a n nul small m Some q2(1,2) ld lt
      by (simp add: wc_command_quote_argument_def c_store_Some q4_def)
    ultimately show ?thesis
      using fr live a by (intro quoted [of q4 s1]) (auto simp: opt_bytes_def)
  qed
qed

section \<open>Building the command line\<close>

lemma command_suffix_simps [simp]: "length command_suffix = 12" "0 \<notin> set command_suffix"
  by (simp_all add: command_suffix_def c_str_def)

lemma length_shell_quote: "length (shell_quote a) \<le> 4 * length a + 2"
  using length_quote_bytes [of a] by (simp add: shell_quote_def)

lemma shell_quote_nonzero: "0 \<notin> set a \<Longrightarrow> 0 \<notin> set (shell_quote a)"
  using quote_bytes_nonzero [of a] by (simp add: shell_quote_def)

lemma c_string_lit [simp]: "0 \<notin> set (c_str t) \<Longrightarrow> c_string (c_lit t) = Some (c_str t)"
  unfolding c_lit_def by (rule c_string_prefix) simp_all

lemma c_snprintf_fits:
  assumes "length d = Suc (length t)" "unat n = Suc (length t)"
  shows "c_snprintf d n t = Some (t @ [0])"
proof -
  have "n \<noteq> 0" using assms(2) by auto
  then show ?thesis using assms by (simp add: c_snprintf_def c_memcpy_def)
qed

lemma build_size:
  "p < 256 \<Longrightarrow> q < 4294967296 \<Longrightarrow>
   unat (of_nat p + 1 + of_nat q + of_nat (length command_suffix + 1) :: size_t) = p + q + 14"
  by (simp add: unat_word_ariths)

lemma build_spec:
  assumes p: "0 \<notin> set (c_str prog)" "length prog < 256"
    and rd: "readable arg n" "unat n \<le> 65535"
    and n: "n \<noteq> 0" "0 \<notin> set (take (unat n) (opt_bytes arg))"
  obtains
    (refused) s' where "wc_command_build (c_lit prog) arg n s = Some (Inl ENOMEM, s')" "sys_frame s s'"
      "s_live s' = s_live s" "\<not> mem_ample s"
  | (built) cmd s' where "wc_command_build (c_lit prog) arg n s = Some (Inr cmd, s')" "sys_frame s s'"
      "s_live s' = s_live s + 1" "c_string cmd = Some (command_line prog (take (unat n) (opt_bytes arg)))"
  using rd n
proof (cases rule: quote_argument_spec [of arg n s])
  case (refused s')
  then show ?thesis by (intro that(1) [of s']) (simp_all add: wc_command_build_def)
next
  case (quoted q s1)
  let ?a = "take (unat n) (opt_bytes arg)"
  let ?len = "of_nat (length prog) + 1 + of_nat (length (shell_quote ?a)) +
      of_nat (length command_suffix + 1) :: size_t"
  let ?line = "command_line prog ?a"
  have la: "length (shell_quote ?a) < 4294967296"
    using length_shell_quote [of ?a] rd(2) by (simp add: min_def split: if_splits)
  have ulen: "unat ?len = Suc (length ?line)"
    unfolding build_size [OF p(2) la] by (simp add: command_line_def c_str_def)
  obtain r s2 where m: "c_malloc ?len s1 = (r, s2)" by fastforce
  have fr: "sys_frame s1 s2" using m by (auto simp: c_malloc_def dest: c_realloc_frame)
  have fr': "sys_frame s (c_free (Some q) s2)"
    using quoted(2) fr c_free_frame sys_frame_trans by blast
  have unf: "wc_command_build (c_lit prog) arg n s = (case (r, s2) of
      (None, s2) \<Rightarrow> Some (Inl ENOMEM, c_free (Some q) s2)
    | (Some d, s2) \<Rightarrow> do {
        d' \<leftarrow> c_snprintf d ?len ?line; Some (Inr d', c_free (Some q) s2) })"
    unfolding wc_command_build_def quoted(1) command_line_def m [symmetric]
    by (simp only: Option.bind.bind_lunit prod.case sum.case quoted(4) c_string_lit [OF p(1)]
        Let_def length_c_str)
  show ?thesis
  proof (cases r)
    case None
    then have "\<not> mem_ample s1 \<and> s_live s2 = s_live s1"
      using m by (auto simp: c_malloc_def c_realloc_def mem_ample_def Let_def split: if_splits)
    then have "\<not> mem_ample s" "s_live (c_free (Some q) s2) = s_live s"
      using quoted(2,3) by (simp_all add: sys_frame_mem_ample c_free_live)
    with None unf fr' show ?thesis by (intro that(1) [of "c_free (Some q) s2"]) simp_all
  next
    case (Some d)
    have "length d = unat ?len"
      by (rule c_realloc_length [of None _ s1 _ s2]) (use m Some in \<open>simp add: c_malloc_def\<close>)
    moreover have "s_live s2 = s_live s1 + 1"
      using m Some by (auto simp: c_malloc_def c_realloc_def Let_def split: if_splits)
    moreover have "c_string (?line @ [0]) = Some ?line"
      by (rule c_string_prefix)
         (use p(1) n(2) shell_quote_nonzero [of ?a] in \<open>auto simp: command_line_def c_str_def\<close>)
    ultimately show ?thesis
      using Some unf fr' ulen quoted(3) c_snprintf_fits [of d ?line ?len]
      by (intro that(2) [of "?line @ [0]" "c_free (Some q) s2"]) (simp_all add: c_free_live)
  qed
qed

section \<open>Running a command\<close>

text \<open>What a caller learns from a child process, with \<open>m\<close> the largest result it accepts.\<close>

definition cmd_reply :: "nat \<Rightarrow> popen_outcome \<Rightarrow> errno + byte list" where
  "cmd_reply m p = (case p of
       Popen_failed e \<Rightarrow> Inl e
     | Popen_ok out err ws \<Rightarrow>
         if length out > m then Inl EMSGSIZE
         else if err \<or> ws \<noteq> Exited 0 then Inl EIO
         else Inr out)"

text \<open>The outcome of the reading loop.\<close>

definition loop_outcome :: "byte list \<Rightarrow> bool \<Rightarrow> nat \<Rightarrow> bool \<Rightarrow> byte list \<Rightarrow> errno option \<Rightarrow> byte list \<Rightarrow> bool" where
  "loop_outcome out err m ample old f new \<longleftrightarrow> (case f of
       None \<Rightarrow> new = old @ out \<and> \<not> err \<and> length old + length out \<le> m
     | Some e \<Rightarrow> e = EMSGSIZE \<and> m < length old + length out
         \<or> e = EIO \<and> err \<and> length old + length out \<le> m
         \<or> e = ENOMEM \<and> \<not> ample)"

lemma run_loop_append:
  assumes "buf_wf b"
  obtains
    (short) "length out = 0" "run_loop out err b s = Some (if err then Some EIO else None, b, s)"
  | (failed) e b' s' where "run_loop out err b s = Some (Some e, b', s')" "buf_wf b'" "sys_frame s s'"
      "s_live s' = s_live s + buf_owned b' - buf_owned b" "buf_max_size b' = buf_max_size b"
      "e = EMSGSIZE \<and> unat (buf_max_size b) < length (buf_bytes b) + length out \<or> e = ENOMEM \<and> \<not> mem_ample s"
  | (last) b' s' where "length out < 4096"
      "run_loop out err b s = Some (if err then Some EIO else None, b', s')"
      "buf_wf b'" "sys_frame s s'" "buf_bytes b' = buf_bytes b @ out"
      "s_live s' = s_live s + buf_owned b' - buf_owned b" "buf_max_size b' = buf_max_size b"
  | (more) b' s' where "4096 \<le> length out" "run_loop out err b s = run_loop (drop 4096 out) err b' s'"
      "buf_wf b'" "sys_frame s s'" "buf_bytes b' = buf_bytes b @ take 4096 out"
      "s_live s' = s_live s + buf_owned b' - buf_owned b" "buf_max_size b' = buf_max_size b"
proof (cases "out = []")
  case True
  then show ?thesis by (intro short) (simp_all add: run_loop.simps [of "[]"])
next
  case False
  let ?c = "take 4096 out" and ?n = "of_nat (length (take 4096 out)) :: size_t"
  have n: "unat ?n = min (length out) 4096" by (simp add: min_def)
  have pos: "0 < length ?c" using False by simp
  note unf = run_loop.simps [of out err b s, unfolded Let_def if_P [OF pos]]
  note lb = buf_wf_D(1,3) [OF assms]
  show ?thesis
  proof (cases "unat ?n \<le> unat (buf_max_size b) - unat (buf_length b)")
    case False
    then have "wc_buffer_append b (Some ?c) ?n s = Some (Inl EMSGSIZE, b, s)"
      using assms by (intro append_too_big) (auto simp: not_le)
    moreover have "unat (buf_max_size b) < length (buf_bytes b) + length out"
      using False n lb by linarith
    ultimately show ?thesis
      using assms by (intro failed [of EMSGSIZE b s]) (simp_all add: unf)
  next
    case True
    obtain st b' s' where a: "wc_buffer_append b (Some ?c) ?n s = Some (st, b', s')"
      "buf_wf b'" "buf_max_size b' = buf_max_size b" "sys_frame s s'"
      "s_live s' = s_live s + buf_owned b' - buf_owned b"
      "st = wc_ok \<and> buf_bytes b' = buf_bytes b @ take (unat ?n) ?c \<or> st = Inl ENOMEM \<and> b' = b \<and> \<not> mem_ample s"
      by (rule append_spec [OF assms _ True, of "Some ?c" s]) (use n in auto)
    from a(6) consider "st = Inl ENOMEM" "\<not> mem_ample s" | "st = wc_ok" "buf_bytes b' = buf_bytes b @ ?c"
      using n by (auto simp: min_def split: if_splits)
    then show ?thesis
    proof cases
      case 1
      with a show ?thesis by (intro failed [of ENOMEM b' s']) (simp_all add: unf)
    next
      case 2
      show ?thesis
      proof (cases "length out < 4096")
        case True
        with a 2 show ?thesis by (intro last [of b' s']) (simp_all add: unf)
      next
        case False
        with a 2 show ?thesis by (intro more [of b' s']) (simp_all add: unf)
      qed
    qed
  qed
qed

lemma run_loop_spec:
  "buf_wf b \<Longrightarrow> \<exists>f b' s'. run_loop out err b s = Some (f, b', s') \<and> buf_wf b' \<and> sys_frame s s' \<and>
     s_live s' = s_live s + buf_owned b' - buf_owned b \<and>
     loop_outcome out err (unat (buf_max_size b)) (mem_ample s) (buf_bytes b) f (buf_bytes b')"
proof (induction "length out" arbitrary: out b s rule: less_induct)
  case less
  note lb = buf_wf_D(1,3) [OF less.prems]
  from less.prems show ?case
  proof (cases rule: run_loop_append [of b out err s])
    case short
    with less.prems lb show ?thesis
      by (intro exI [of _ "if err then Some EIO else None"] exI [of _ b] exI [of _ s])
         (simp add: loop_outcome_def)
  next
    case (failed e b' s')
    then show ?thesis
      by (intro exI [of _ "Some e"] exI [of _ b'] exI [of _ s']) (auto simp: loop_outcome_def)
  next
    case (last b' s')
    with buf_wf_D(1,3) [OF last(3)] show ?thesis
      by (intro exI [of _ "if err then Some EIO else None"] exI [of _ b'] exI [of _ s'])
         (simp add: loop_outcome_def)
  next
    case (more b1 s1)
    have "length (drop 4096 out) < length out" using more(1) by simp
    from less.hyps [OF this more(3)] obtain f b' s' where
      IH: "run_loop (drop 4096 out) err b1 s1 = Some (f, b', s')" "buf_wf b'" "sys_frame s1 s'"
        "s_live s' = s_live s1 + buf_owned b' - buf_owned b1"
        "loop_outcome (drop 4096 out) err (unat (buf_max_size b1)) (mem_ample s1) (buf_bytes b1) f (buf_bytes b')"
      by blast
    have "loop_outcome out err (unat (buf_max_size b)) (mem_ample s) (buf_bytes b) f (buf_bytes b')"
      using IH(5) more(1,5,7) sys_frame_mem_ample [OF more(4)]
      by (auto simp: loop_outcome_def split: option.splits)
    then show ?thesis
      using IH more sys_frame_trans [OF more(4) IH(3)]
      by (intro exI [of _ f] exI [of _ b'] exI [of _ s']) simp
  qed
qed

text \<open>
  What running commands leaves alone, with the command lines it passed to \<open>popen\<close>.
\<close>

definition run_frame :: "'n sys \<Rightarrow> 'n sys \<Rightarrow> byte list list \<Rightarrow> bool" where
  "run_frame s s' cmds \<longleftrightarrow> s_grant s' = s_grant s \<and> s_fill s' = s_fill s \<and> s_popen s' = s_popen s \<and>
     s_nodes s' = s_nodes s \<and> s_clock s \<le> s_clock s' \<and> s_trace s' = s_trace s @ map Ev_run cmds"

lemma run_frame_mem_ample: "run_frame s t cs \<Longrightarrow> mem_ample t = mem_ample s"
  by (simp add: run_frame_def mem_ample_def)

lemma run_frame_Nil: "run_frame s t [] = sys_frame s t"
  by (auto simp: run_frame_def sys_frame_def)

lemma run_frame_trans: "run_frame s t cs \<Longrightarrow> run_frame t u ds \<Longrightarrow> run_frame s u (cs @ ds)"
  by (simp add: run_frame_def)

lemma run_frame_sys: "run_frame s t cs \<Longrightarrow> sys_frame t u \<Longrightarrow> run_frame s u cs"
  by (simp add: run_frame_def sys_frame_def)

lemma sys_frame_run: "sys_frame s t \<Longrightarrow> run_frame t u cs \<Longrightarrow> run_frame s u cs"
  by (simp add: run_frame_def sys_frame_def)

lemma run_frame_effect: "run_frame s t cs \<Longrightarrow> effect s t (map Ev_run cs)"
  by (simp add: run_frame_def effect_def)

lemma c_popen_frame: "c_popen cmd s = (r, s') \<Longrightarrow> run_frame s s' [cmd] \<and> s_live s' = s_live s"
  by (auto simp: c_popen_def run_frame_def)

text \<open>A result object and the block it owns.\<close>

definition res_wf :: "wc_command_result \<Rightarrow> bool" where
  "res_wf r \<longleftrightarrow> readable (res_data r) (res_length r)"

definition res_bytes :: "wc_command_result \<Rightarrow> byte list" where
  "res_bytes r = take (unat (res_length r)) (opt_bytes (res_data r))"

definition res_owned :: "wc_command_result \<Rightarrow> int" where
  "res_owned r = (if res_data r = None then 0 else 1)"

lemma result_zero_simps [simp]:
  "res_wf result_zero" "res_bytes result_zero = []" "res_owned result_zero = 0"
  by (simp_all add: result_zero_def res_wf_def res_bytes_def res_owned_def readable_def opt_bytes_def)

text \<open>\<open>reply_is x ample st r\<close>: the status and the result tell \<open>x\<close>, or the allocator refused.\<close>

definition reply_is :: "errno + byte list \<Rightarrow> bool \<Rightarrow> status \<Rightarrow> wc_command_result \<Rightarrow> bool" where
  "reply_is x ample st r \<longleftrightarrow> (case st of
       Inl e \<Rightarrow> r = result_zero \<and> (x = Inl e \<or> e = ENOMEM \<and> \<not> ample)
     | Inr _ \<Rightarrow> x = Inr (res_bytes r))"

lemma command_run_spec:
  assumes cmd: "c_string command = Some cmd"
  obtains st r s' where "wc_command_run command m result_zero s = Some (st, r, s')"
    "run_frame s s' [cmd]" "res_wf r" "s_live s' = s_live s + res_owned r"
    "reply_is (cmd_reply (unat m) (s_popen s (s_clock s) cmd)) (mem_ample s) st r"
proof -
  obtain p s1 where p: "c_popen cmd s = (p, s1)" "s_popen s (s_clock s) cmd = p"
    by (simp add: c_popen_def)
  note fr = c_popen_frame [OF p(1)]
  show ?thesis
  proof (cases p)
    case (Popen_failed e)
    with p fr show ?thesis
      by (intro that [of "Inl e" result_zero s1])
         (simp_all add: wc_command_run_def cmd cmd_reply_def reply_is_def)
  next
    case (Popen_ok out err ws)
    let ?b0 = "snd (wc_buffer_init m)"
    obtain f b s2 where l: "run_loop out err ?b0 s1 = Some (f, b, s2)" "buf_wf b" "sys_frame s1 s2"
      "s_live s2 = s_live s1 + buf_owned b" "loop_outcome out err (unat m) (mem_ample s) [] f (buf_bytes b)"
      using run_loop_spec [of ?b0 out err s1] run_frame_mem_ample [of s s1 "[cmd]"] fr by auto
    define g where "g = (if ws \<noteq> Exited 0 then (if f = None then Some EIO else f) else f)"
    have run: "wc_command_run command m result_zero s = (case g of
        Some e \<Rightarrow> Some (Inl e, result_zero, snd (wc_buffer_destroy b s2))
      | None \<Rightarrow> Some (wc_ok, result_zero\<lparr>res_data := buf_data b, res_length := buf_length b\<rparr>, s2))"
      using cmd p(1) Popen_ok l(1)
      by (simp add: wc_command_run_def wc_buffer_init_def g_def Let_def)
    show ?thesis
    proof (cases g)
      case None
      then have f: "f = None" "ws = Exited 0" by (auto simp: g_def split: if_splits)
      let ?r = "result_zero\<lparr>res_data := buf_data b, res_length := buf_length b\<rparr>"
      have r: "res_wf ?r" "res_bytes ?r = buf_bytes b" "res_owned ?r = buf_owned b"
        using buf_wf_D(2) [OF l(2)] buf_wf_null [OF l(2)]
        by (auto simp: res_wf_def res_bytes_def res_owned_def buf_owned_def readable_def buf_bytes_def
            buf_block_def opt_bytes_def split: option.splits)
      show ?thesis
        using run None r f l(3-5) fr p(2) Popen_ok run_frame_sys [OF _ l(3)]
        by (intro that [of wc_ok ?r s2]) (simp_all add: loop_outcome_def reply_is_def cmd_reply_def)
    next
      case (Some e)
      obtain b' s3 where d: "wc_buffer_destroy b s2 = (b', s3)" by fastforce
      have fr3: "run_frame s s3 [cmd]" "s_live s3 = s_live s"
        using destroy_spec(5,6) [OF d] l(3,4) fr run_frame_sys by (blast, simp)
      have "reply_is (cmd_reply (unat m) p) (mem_ample s) (Inl e) result_zero"
        using l(5) Some Popen_ok
        by (auto simp: g_def loop_outcome_def reply_is_def cmd_reply_def split: if_splits)
      with run Some fr3 d p(2) show ?thesis
        by (intro that [of "Inl e" result_zero s3]) simp_all
    qed
  qed
qed

section \<open>The three commands\<close>

text \<open>
  The command line a request stands for, or why it is refused before anything runs; and
  the reply to it, given what the child process did.
\<close>

definition request_command :: "wc_request_type \<Rightarrow> byte list \<Rightarrow> errno + byte list" where
  "request_command t a =
     (if t = 1 \<and> a \<noteq> [] \<and> 0 \<notin> set a then Inr (command_line ''ls -1 --'' a)
      else if t = 2 \<and> a = [] then Inr (c_str ''pwd 2>/dev/null'')
      else if t = 3 \<and> a \<noteq> [] \<and> hd a = 47 \<and> 0 \<notin> set a then Inr (command_line ''cat --'' a)
      else Inl EINVAL)"

definition reply_bytes :: "wc_request_type \<Rightarrow> byte list \<Rightarrow> byte list" where
  "reply_bytes t out = (if t = 2 \<and> out \<noteq> [] \<and> last out = 10 then butlast out else out)"

definition request_reply :: "wc_request_type \<Rightarrow> nat \<Rightarrow> popen_outcome \<Rightarrow> errno + byte list" where
  "request_reply t m p = map_sum id (reply_bytes t) (cmd_reply m p)"

definition exec_outcome :: "'n sys \<Rightarrow> wc_request_type \<Rightarrow> byte list \<Rightarrow> nat \<Rightarrow> byte list list \<Rightarrow>
    status \<Rightarrow> wc_command_result \<Rightarrow> bool" where
  "exec_outcome s t a m cmds st r \<longleftrightarrow> (case request_command t a of
       Inl e \<Rightarrow> st = Inl e \<and> r = result_zero \<and> cmds = []
     | Inr cmd \<Rightarrow> cmds = [] \<and> st = Inl ENOMEM \<and> r = result_zero \<and> \<not> mem_ample s
         \<or> cmds = [cmd] \<and> (\<exists>k. reply_is (request_reply t m (s_popen s k cmd)) (mem_ample s) st r))"

lemma lit_nonzero [simp]:
  "0 \<notin> set (c_str ''ls -1 --'')" "0 \<notin> set (c_str ''cat --'')" "0 \<notin> set (c_str ''pwd 2>/dev/null'')"
  by (simp_all add: c_str_def)

lemma request_reply_plain: "t \<noteq> 2 \<Longrightarrow> request_reply t m p = cmd_reply m p"
  by (cases "cmd_reply m p") (simp_all add: request_reply_def reply_bytes_def)

lemma build_invalid:
  assumes "readable arg n" "n = 0 \<or> 0 \<in> set (take (unat n) (opt_bytes arg))"
  shows "wc_command_build prog arg n s = Some (Inl EINVAL, s)"
  by (simp add: wc_command_build_def quote_argument_invalid [OF assms])

text \<open>Build, run, free: the common body of \<open>wc_command_ls\<close> and \<open>wc_command_cat\<close>.\<close>

definition program_body :: "string \<Rightarrow> byte list option \<Rightarrow> size_t \<Rightarrow> size_t \<Rightarrow> 'n sys \<Rightarrow>
    (status \<times> wc_command_result \<times> 'n sys) option" where
  "program_body prog arg n m s = do {
     (r, s1) \<leftarrow> wc_command_build (c_lit prog) arg n s;
     case r of
       Inl e \<Rightarrow> Some (Inl e, result_zero, s1)
     | Inr command \<Rightarrow> do {
         (st, result, s2) \<leftarrow> wc_command_run command m result_zero s1;
         Some (st, result, c_free (Some command) s2)
       }
   }"

lemma program_spec:
  assumes p: "0 \<notin> set (c_str prog)" "length prog < 256" and rd: "readable arg n" "unat n \<le> 65535"
    and n: "n \<noteq> 0" "0 \<notin> set (take (unat n) (opt_bytes arg))"
  obtains cmds st r s' where "program_body prog arg n m s = Some (st, r, s')"
    "run_frame s s' cmds" "res_wf r" "s_live s' = s_live s + res_owned r"
    "cmds = [] \<and> st = Inl ENOMEM \<and> r = result_zero \<and> \<not> mem_ample s \<or>
     cmds = [command_line prog (take (unat n) (opt_bytes arg))] \<and>
     (\<exists>k. reply_is (cmd_reply (unat m)
        (s_popen s k (command_line prog (take (unat n) (opt_bytes arg))))) (mem_ample s) st r)"
  using assms
proof (cases rule: build_spec [of prog arg n s])
  case (refused s')
  then show ?thesis by (intro that [of "Inl ENOMEM" result_zero s' "[]"]) (simp_all add: program_body_def run_frame_Nil)
next
  case (built cmd s1)
  let ?line = "command_line prog (take (unat n) (opt_bytes arg))"
  from built(4) obtain st r s2 where c: "wc_command_run cmd m result_zero s1 = Some (st, r, s2)"
    "run_frame s1 s2 [?line]" "res_wf r" "s_live s2 = s_live s1 + res_owned r"
    "reply_is (cmd_reply (unat m) (s_popen s1 (s_clock s1) ?line)) (mem_ample s1) st r"
    by (rule command_run_spec [where m = m and s = s1])
  have "reply_is (cmd_reply (unat m) (s_popen s (s_clock s1) ?line)) (mem_ample s) st r"
    using c(5) built(2) sys_frame_mem_ample [OF built(2)] by (simp add: sys_frame_def)
  moreover have "run_frame s (c_free (Some cmd) s2) [?line]"
    using sys_frame_run [OF built(2) c(2)] c_free_frame by (rule run_frame_sys)
  ultimately show ?thesis
    using built c by (intro that [of st r "c_free (Some cmd) s2" "[?line]"]) (auto simp: program_body_def c_free_live)
qed

lemma ls_spec:
  assumes rd: "readable arg n" "unat n \<le> 65535"
  obtains cmds st r s' where "wc_command_ls arg n m s = Some (st, r, s')"
    "run_frame s s' cmds" "res_wf r" "s_live s' = s_live s + res_owned r"
    "exec_outcome s 1 (take (unat n) (opt_bytes arg)) (unat m) cmds st r"
proof (cases "n = 0 \<or> 0 \<in> set (take (unat n) (opt_bytes arg))")
  case True
  then have "wc_command_ls arg n m s = Some (Inl EINVAL, result_zero, s)"
    by (simp add: wc_command_ls_def build_invalid [OF rd(1)])
  moreover have "request_command 1 (take (unat n) (opt_bytes arg)) = Inl EINVAL"
    using True by (auto simp: request_command_def)
  ultimately show ?thesis
    by (intro that [of "Inl EINVAL" result_zero s "[]"]) (simp_all add: exec_outcome_def run_frame_Nil)
next
  case False
  let ?a = "take (unat n) (opt_bytes arg)"
  have "?a \<noteq> []" using False length_take_readable [OF rd(1)] by auto
  then have cmd: "request_command 1 ?a = Inr (command_line ''ls -1 --'' ?a)"
    using False by (auto simp: request_command_def)
  obtain cmds st r s' where p: "program_body ''ls -1 --'' arg n m s = Some (st, r, s')"
    "run_frame s s' cmds" "res_wf r" "s_live s' = s_live s + res_owned r"
    "cmds = [] \<and> st = Inl ENOMEM \<and> r = result_zero \<and> \<not> mem_ample s \<or>
     cmds = [command_line ''ls -1 --'' ?a] \<and>
     (\<exists>k. reply_is (cmd_reply (unat m) (s_popen s k (command_line ''ls -1 --'' ?a))) (mem_ample s) st r)"
    by (rule program_spec [of "''ls -1 --''" arg n m s]) (use False rd in auto)
  then show ?thesis
    by (intro that [of st r s' cmds])
       (simp_all add: wc_command_ls_def program_body_def exec_outcome_def cmd request_reply_plain)
qed

lemma cat_spec:
  assumes rd: "readable arg n" "unat n \<le> 65535"
  obtains cmds st r s' where "wc_command_cat arg n m s = Some (st, r, s')"
    "run_frame s s' cmds" "res_wf r" "s_live s' = s_live s + res_owned r"
    "exec_outcome s 3 (take (unat n) (opt_bytes arg)) (unat m) cmds st r"
proof -
  let ?a = "take (unat n) (opt_bytes arg)"
  show ?thesis
  proof (cases "?a = [] \<or> hd ?a \<noteq> 47 \<or> 0 \<in> set ?a")
    case True
    have "wc_command_cat arg n m s = Some (Inl EINVAL, result_zero, s)"
    proof (cases "0 \<in> set ?a")
      case True
      then have "wc_command_build (c_lit ''cat --'') arg n s = Some (Inl EINVAL, s)"
        by (simp add: build_invalid [OF rd(1)])
      then show ?thesis
        using rd True
        by (auto simp: wc_command_cat_def readable_def opt_bytes_def split: option.splits)
    next
      case False
      with True rd show ?thesis
        by (auto simp: wc_command_cat_def readable_def opt_bytes_def hd_conv_nth unat_gt_0 split: option.splits)
    qed
    moreover have "request_command 3 ?a = Inl EINVAL"
      using True by (auto simp: request_command_def)
    ultimately show ?thesis
      by (intro that [of "Inl EINVAL" result_zero s "[]"]) (simp_all add: exec_outcome_def run_frame_Nil)
  next
    case False
    then have cmd: "request_command 3 ?a = Inr (command_line ''cat --'' ?a)"
      by (auto simp: request_command_def)
    obtain a where a: "arg = Some a" "a ! 0 = 47" "a \<noteq> []" "n \<noteq> 0"
      using False by (auto simp: opt_bytes_def hd_conv_nth unat_gt_0 split: option.splits)
    obtain cmds st r s' where p: "program_body ''cat --'' arg n m s = Some (st, r, s')"
      "run_frame s s' cmds" "res_wf r" "s_live s' = s_live s + res_owned r"
      "cmds = [] \<and> st = Inl ENOMEM \<and> r = result_zero \<and> \<not> mem_ample s \<or>
       cmds = [command_line ''cat --'' ?a] \<and>
       (\<exists>k. reply_is (cmd_reply (unat m) (s_popen s k (command_line ''cat --'' ?a))) (mem_ample s) st r)"
      by (rule program_spec [of "''cat --''" arg n m s]) (use False rd in auto)
    moreover have "wc_command_cat arg n m s = program_body ''cat --'' arg n m s"
      using a by (simp add: wc_command_cat_def program_body_def)
    ultimately show ?thesis
      by (intro that [of st r s' cmds]) (simp_all add: exec_outcome_def cmd request_reply_plain)
  qed
qed

lemma pwd_spec:
  obtains cmds st r s' where "wc_command_pwd m s = Some (st, r, s')"
    "run_frame s s' cmds" "res_wf r" "s_live s' = s_live s + res_owned r"
    "exec_outcome s 2 [] (unat m) cmds st r"
proof -
  let ?cmd = "c_str ''pwd 2>/dev/null''"
  obtain st r s' where c: "wc_command_run (c_lit ''pwd 2>/dev/null'') m result_zero s = Some (st, r, s')"
    "run_frame s s' [?cmd]" "res_wf r" "s_live s' = s_live s + res_owned r"
    "reply_is (cmd_reply (unat m) (s_popen s (s_clock s) ?cmd)) (mem_ample s) st r"
    by (rule command_run_spec [OF c_string_lit [OF lit_nonzero(3)]])
  have cmd: "request_command 2 [] = Inr ?cmd" by (simp add: request_command_def)
  have lr: "length (res_bytes r) = unat (res_length r)"
    using c(3) length_take_readable by (simp add: res_wf_def res_bytes_def)
  show ?thesis
  proof (cases "st = wc_ok \<and> res_length r > 0")
    case False
    then have "res_bytes r = [] \<or> st \<noteq> wc_ok" using lr by (auto simp: word_gt_0)
    then have "reply_is (request_reply 2 (unat m) (s_popen s (s_clock s) ?cmd)) (mem_ample s) st r"
      using c(5) by (auto simp: reply_is_def request_reply_def reply_bytes_def split: sum.splits)
    with False c cmd show ?thesis
      by (intro that [of st r s' "[?cmd]"]) (auto simp: wc_command_pwd_def exec_outcome_def)
  next
    case True
    then obtain d where d: "res_data r = Some d" "unat (res_length r) \<le> length d"
      using c(3) by (auto simp: res_wf_def readable_def split: option.splits)
    let ?r = "if last (res_bytes r) = 10 then r\<lparr>res_length := res_length r - 1\<rparr> else r"
    have pos: "0 < unat (res_length r)" using True by (simp add: word_less_nat_alt)
    have l1: "unat (res_length r - 1) = unat (res_length r) - 1"
      using pos by (simp add: unat_sub_if' word_le_nat_alt)
    have ne: "res_bytes r \<noteq> []" using lr pos by auto
    have lst: "d ! (unat (res_length r) - 1) = last (res_bytes r)"
      using d pos ne by (simp add: last_conv_nth lr) (simp add: res_bytes_def opt_bytes_def)
    have r: "res_wf ?r" "res_owned ?r = res_owned r" "res_bytes ?r = reply_bytes 2 (res_bytes r)"
      using d l1 c(3) ne
      by (auto simp: res_wf_def res_owned_def res_bytes_def readable_def reply_bytes_def opt_bytes_def
          butlast_take)
    have run: "wc_command_pwd m s = Some (st, ?r, s')"
      using c(1) d True l1 lst pos by (simp add: wc_command_pwd_def)
    have "reply_is (request_reply 2 (unat m) (s_popen s (s_clock s) ?cmd)) (mem_ample s) st ?r"
      using c(5) True r(3) by (auto simp: reply_is_def request_reply_def split: sum.splits)
    with run r c cmd show ?thesis
      by (intro that [of st ?r s' "[?cmd]"]) (auto simp: exec_outcome_def)
  qed
qed

section \<open>Properties\<close>

text \<open>
  Reading a quoted argument with any shell reader that takes the characters between two
  single quotes literally and a backslashed character other than a newline literally.
\<close>

lemma read_quoted:
  assumes single: "\<And>q rest acc. 39 \<notin> set q \<Longrightarrow> R (39 # q @ 39 # rest) acc = R rest (acc @ q)"
    and escape: "\<And>c rest acc. c \<noteq> 10 \<Longrightarrow> R (92 # c # rest) acc = R rest (acc @ [c])"
  shows "39 \<notin> set p \<Longrightarrow> R (39 # p @ concat (map quote_byte a) @ 39 # rest) acc = R rest (acc @ p @ a)"
proof (induction a arbitrary: p acc)
  case Nil
  then show ?case using single [of p rest acc] by simp
next
  case (Cons b a)
  show ?case
  proof (cases "b = (39 :: byte)")
    case True
    have "R (39 # p @ concat (map quote_byte (b # a)) @ 39 # rest) acc =
        R (92 # 39 # 39 # concat (map quote_byte a) @ 39 # rest) (acc @ p)"
      using single [OF Cons.prems, of "92 # 39 # 39 # concat (map quote_byte a) @ 39 # rest" acc] True
      by (simp add: quote_byte_def [of "39"])
    also have "\<dots> = R (39 # [] @ concat (map quote_byte a) @ 39 # rest) (acc @ p @ [39])"
      by (simp add: escape)
    also have "\<dots> = R rest (acc @ p @ b # a)" using Cons.IH [of "[]" "acc @ p @ [39]"] True by simp
    finally show ?thesis .
  next
    case False
    then show ?thesis
      using Cons.IH [of "p @ [b]" acc] Cons.prems by (simp add: quote_byte_def [of b])
  qed
qed

text \<open>
  C21. Let \<open>R input word\<close> be what a shell makes of the rest of a command line when it is in
  the middle of a word, any reader that keeps characters between single quotes and a
  backslashed character literally. On the command line that \<open>wc_command_build\<close> returns, the
  part after the program name and a space is read as one word made of exactly the
  argument's bytes, whatever those bytes are, followed by the redirection suffix: an
  argument can neither start another word nor another command.
\<close>

theorem built_argument_is_one_word:
  fixes R :: "byte list \<Rightarrow> byte list \<Rightarrow> 'r"
  assumes single: "\<And>q rest acc. 39 \<notin> set q \<Longrightarrow> R (39 # q @ 39 # rest) acc = R rest (acc @ q)"
    and escape: "\<And>c rest acc. c \<noteq> 10 \<Longrightarrow> R (92 # c # rest) acc = R rest (acc @ [c])"
    and prog: "0 \<notin> set (c_str prog)" "length prog < 256"
    and arg: "readable arg n" "unat n \<le> 65535"
    and built: "wc_command_build (c_lit prog) arg n s = Some (Inr command, s')"
  shows "\<exists>line. c_string command = Some (c_str prog @ c_str '' '' @ line) \<and>
           R line [] = R command_suffix (take (unat n) (opt_bytes arg))"
proof -
  have n: "\<not> (n = 0 \<or> 0 \<in> set (take (unat n) (opt_bytes arg)))"
    using built build_invalid [OF arg(1), of "c_lit prog" s] by auto
  let ?a = "take (unat n) (opt_bytes arg)"
  have "c_string command = Some (command_line prog ?a)"
    by (rule build_spec [OF prog arg, of s]) (use n built in auto)
  moreover have "R (shell_quote ?a @ command_suffix) [] = R command_suffix ?a"
    using read_quoted [of R "[]" ?a command_suffix "[]"] single escape by (simp add: shell_quote_def)
  ultimately show ?thesis
    by (intro exI [of _ "shell_quote ?a @ command_suffix"]) (simp add: command_line_def)
qed

text \<open>
  C25. Running a command line starts one child with exactly that line and returns the
  child's whole output when the child exits with status 0 and its output fits; it fails
  with \<open>EMSGSIZE\<close> when the output is too long, with \<open>EIO\<close> when reading fails or the child
  does not exit with 0, and with the error of \<open>popen\<close> when that fails, apart from
  \<open>ENOMEM\<close> when the allocator refuses. A failure leaves no block allocated, a success only
  the block of the result.
\<close>

theorem command_run_correct:
  assumes "c_string command = Some cmd"
  shows "\<exists>st r s'. wc_command_run command m result_zero s = Some (st, r, s') \<and>
    s_trace s' = s_trace s @ [Ev_run cmd] \<and> s_nodes s' = s_nodes s \<and>
    s_live s' = s_live s + res_owned r \<and>
    (case st of
       Inl e \<Rightarrow> r = result_zero \<and> (cmd_reply (unat m) (s_popen s (s_clock s) cmd) = Inl e \<or>
                   e = ENOMEM \<and> \<not> mem_ample s)
     | Inr _ \<Rightarrow> cmd_reply (unat m) (s_popen s (s_clock s) cmd) = Inr (res_bytes r))"
proof -
  from assms obtain st r s' where "wc_command_run command m result_zero s = Some (st, r, s')"
    "run_frame s s' [cmd]" "s_live s' = s_live s + res_owned r"
    "reply_is (cmd_reply (unat m) (s_popen s (s_clock s) cmd)) (mem_ample s) st r"
    by (rule command_run_spec)
  then show ?thesis
    by (intro exI [of _ st] exI [of _ r] exI [of _ s']) (simp add: run_frame_def reply_is_def)
qed

section \<open>Witnesses\<close>

text \<open>A concrete reader: quotes, backslashes and blanks.\<close>

function sh_word :: "byte list \<Rightarrow> byte list \<Rightarrow> byte list \<times> byte list" where
  "sh_word [] acc = (acc, [])"
| "sh_word (c # cs) acc =
     (if c = 39 then sh_word (drop 1 (dropWhile (\<lambda>b. b \<noteq> 39) cs)) (acc @ takeWhile (\<lambda>b. b \<noteq> 39) cs)
      else if c = 92 then (case cs of [] \<Rightarrow> (acc, []) | d # ds \<Rightarrow> sh_word ds (if d = 10 then acc else acc @ [d]))
      else if c = 32 then (acc, cs) else sh_word cs (acc @ [c]))"
  by pat_completeness auto
termination
  by (relation "measure (\<lambda>(cs, acc). length cs)") (auto intro!: le_imp_less_Suc intro: le_trans [OF diff_le_self length_dropWhile_le])

lemma sh_word_single: "39 \<notin> set q \<Longrightarrow> sh_word (39 # q @ 39 # rest) acc = sh_word rest (acc @ q)"
proof -
  assume "39 \<notin> set q"
  then have "\<And>x. x \<in> set q \<Longrightarrow> x \<noteq> 39" by auto
  then show ?thesis by (simp add: takeWhile_append2 dropWhile_append2)
qed

theorem built_argument_is_one_word_witness:
  "\<exists>command s' line. wc_command_build (c_lit ''ls -1 --'') (Some [47, 39, 59]) 3 (sys0 :: unit sys) =
      Some (Inr command, s') \<and> c_string command = Some (c_str ''ls -1 --'' @ c_str '' '' @ line) \<and>
     sh_word line [] = sh_word command_suffix [47, 39, 59]"
proof -
  have rd: "readable (Some [47, 39, 59]) 3" "unat (3 :: size_t) \<le> 65535" by (simp_all add: readable_def)
  obtain cmd s' where b: "wc_command_build (c_lit ''ls -1 --'') (Some [47, 39, 59]) 3 (sys0 :: unit sys) =
      Some (Inr cmd, s')"
    by (rule build_spec [of "''ls -1 --''" "Some [47, 39, 59]" 3 "sys0 :: unit sys"])
       (use rd mem_ample_sys0 in \<open>auto simp: opt_bytes_def\<close>)
  have "\<exists>line. c_string cmd = Some (c_str ''ls -1 --'' @ c_str '' '' @ line) \<and>
      sh_word line [] = sh_word command_suffix (take (unat (3 :: size_t)) (opt_bytes (Some [47, 39, 59])))"
    by (rule built_argument_is_one_word [OF sh_word_single _ _ _ rd b]) simp_all
  with b show ?thesis by (auto simp: opt_bytes_def)
qed

theorem command_run_correct_witness:
  "\<exists>r s'. wc_command_run (c_lit ''pwd 2>/dev/null'') 4 result_zero (sys0 :: unit sys) = Some (wc_ok, r, s') \<and>
     res_bytes r = [] \<and> s_trace s' = [Ev_run (c_str ''pwd 2>/dev/null'')]"
proof -
  have s0: "s_trace (sys0 :: unit sys) = []"
    "\<And>k cmd. cmd_reply (unat (4 :: size_t)) (s_popen (sys0 :: unit sys) k cmd) = Inr []"
    by (simp_all add: sys0_def cmd_reply_def)
  from command_run_correct [of "c_lit ''pwd 2>/dev/null''" "c_str ''pwd 2>/dev/null''" 4 "sys0 :: unit sys",
      unfolded s0]
  obtain st r s' where run: "wc_command_run (c_lit ''pwd 2>/dev/null'') 4 result_zero (sys0 :: unit sys) =
      Some (st, r, s')" "s_trace s' = [] @ [Ev_run (c_str ''pwd 2>/dev/null'')]"
    and st: "case st of Inl e \<Rightarrow> r = result_zero \<and> ((Inr [] :: errno + byte list) = Inl e \<or> e = ENOMEM \<and> \<not> mem_ample (sys0 :: unit sys))
      | Inr _ \<Rightarrow> (Inr [] :: errno + byte list) = Inr (res_bytes r)"
    by auto
  have "st = wc_ok" "res_bytes r = []"
    using st mem_ample_sys0 [where ?'n = unit] by (auto split: sum.splits)
  with run show ?thesis by simp
qed

end
