(* ===== verification/WC_Logging.thy ===== *)
theory WC_Logging
  imports WC_Prelude
begin

text \<open>
  The logger of \<^verbatim>\<open>src/src/logging.c\<close>: the process-wide minimum level, the timestamp and the
  single record written to standard error. The clock, \<open>strftime\<close> and \<open>vsnprintf\<close> are
  inputs of each call; \<open>env_errno\<close> is the value those calls leave in \<open>errno\<close>.

  The lemmas show that a call changes nothing but standard error, keeps \<open>errno\<close> whatever
  the library calls do to it, and writes exactly when its level is enabled. The models of
  the servers and the client therefore leave calls of \<open>wc_log\<close> out.
\<close>

section \<open>Operations\<close>

type_synonym wc_log_level = int

abbreviation (input) WC_LOG_ERROR :: wc_log_level where "WC_LOG_ERROR \<equiv> 0"
abbreviation (input) WC_LOG_WARN :: wc_log_level where "WC_LOG_WARN \<equiv> 1"
abbreviation (input) WC_LOG_INFO :: wc_log_level where "WC_LOG_INFO \<equiv> 2"
abbreviation (input) WC_LOG_DEBUG :: wc_log_level where "WC_LOG_DEBUG \<equiv> 3"
abbreviation (input) WC_LOG_TRACE :: wc_log_level where "WC_LOG_TRACE \<equiv> 4"

abbreviation (input) WC_LOG_TIMESTAMP_SIZE :: nat where "WC_LOG_TIMESTAMP_SIZE \<equiv> 40"
abbreviation (input) WC_LOG_MESSAGE_SIZE :: nat where "WC_LOG_MESSAGE_SIZE \<equiv> 2048"

record log_state =
  wc_minimum_level :: wc_log_level
  log_errno :: errno
  log_stderr :: "byte list"

text \<open>
  What the library calls of one record do: \<open>time\<close>, whether \<open>localtime_r\<close> succeeds, the text
  of \<open>strftime\<close>, the result of \<open>vsnprintf\<close> (\<open>None\<close> is a negative result, otherwise the whole
  formatted text), and what they leave in \<open>errno\<close>.
\<close>

record log_env =
  env_time :: int
  env_localtime :: bool
  env_strftime :: "byte list"
  env_vsnprintf :: "byte list option"
  env_errno :: errno

definition log_initial :: "log_state" where
  "log_initial = \<lparr>wc_minimum_level = WC_LOG_INFO, log_errno = Errno_stale, log_stderr = []\<rparr>"

definition wc_log_level_valid :: "wc_log_level \<Rightarrow> bool" where
  "wc_log_level_valid level \<longleftrightarrow> level \<ge> WC_LOG_ERROR \<and> level \<le> WC_LOG_TRACE"

definition wc_log_level_name :: "wc_log_level \<Rightarrow> byte list" where
  "wc_log_level_name level =
     (if \<not> wc_log_level_valid level then c_str ''UNKNOWN''
      else [c_str ''ERROR'', c_str ''WARN'', c_str ''INFO'', c_str ''DEBUG'', c_str ''TRACE''] ! nat level)"

definition wc_log_set_level :: "wc_log_level \<Rightarrow> log_state \<Rightarrow> log_state" where
  "wc_log_set_level level st = (if wc_log_level_valid level then st\<lparr>wc_minimum_level := level\<rparr> else st)"

definition wc_log_get_level :: "log_state \<Rightarrow> wc_log_level" where
  "wc_log_get_level st = wc_minimum_level st"

text \<open>\<open>strftime\<close> returns 0 when the text and its terminator do not fit.\<close>

definition wc_log_timestamp :: "nat \<Rightarrow> log_env \<Rightarrow> byte list option" where
  "wc_log_timestamp sz env =
     (if env_time env = - 1 then None
      else if \<not> env_localtime env then None
      else if env_strftime env = [] \<or> sz \<le> length (env_strftime env) then None
      else Some (env_strftime env))"

text \<open>The conversion \<open>%-5s\<close>.\<close>

definition pad5 :: "byte list \<Rightarrow> byte list" where
  "pad5 t = t @ replicate (5 - length t) 32"

definition log_record :: "byte list \<Rightarrow> byte list \<Rightarrow> byte list \<Rightarrow> byte list \<Rightarrow> byte list option \<Rightarrow> byte list" where
  "log_record timestamp name component event context =
     [91] @ timestamp @ [93, 32] @ pad5 name @ [32] @ component @ [58] @ event @
     (case context of None \<Rightarrow> [] | Some c \<Rightarrow> [32] @ c) @ [10]"

definition wc_log_v :: "wc_log_level \<Rightarrow> byte list option \<Rightarrow> byte list option \<Rightarrow> byte list option \<Rightarrow>
    log_env \<Rightarrow> log_state \<Rightarrow> log_state" where
  "wc_log_v level component event format env st =
     (let saved_errno = log_errno st in
      if \<not> wc_log_level_valid level \<or> level > wc_minimum_level st \<or> component = None \<or> event = None
        then st\<lparr>log_errno := saved_errno\<rparr>
      else
        let context = (if format = None \<or> format = Some [] then None
              else case env_vsnprintf env of
                  None \<Rightarrow> None
                | Some t \<Rightarrow> if length t > 0 then Some (take (WC_LOG_MESSAGE_SIZE - 1) t) else None);
            st1 = st\<lparr>log_errno := env_errno env\<rparr> in
        case wc_log_timestamp WC_LOG_TIMESTAMP_SIZE env of
          None \<Rightarrow> st1\<lparr>log_errno := saved_errno\<rparr>
        | Some timestamp \<Rightarrow>
            st1\<lparr>log_stderr := log_stderr st1 @ log_record timestamp (wc_log_level_name level)
                  (the component) (the event) context,
                log_errno := saved_errno\<rparr>)"

definition wc_log :: "wc_log_level \<Rightarrow> byte list option \<Rightarrow> byte list option \<Rightarrow> byte list option \<Rightarrow>
    log_env \<Rightarrow> log_state \<Rightarrow> log_state" where
  "wc_log level component event format env st =
     (let saved_errno = log_errno st in
      (wc_log_v level component event format env st)\<lparr>log_errno := saved_errno\<rparr>)"

section \<open>Properties\<close>

lemma log_record_nonempty: "log_record a b c d e \<noteq> []"
  by (simp add: log_record_def)

text \<open>
  C40. A logging call changes nothing but standard error: \<open>errno\<close> and the minimum level are
  kept whatever the library calls do. It writes exactly when the level is valid and
  enabled, both identifiers are given and the timestamp can be made.
\<close>

theorem log_changes_only_stderr:
  "\<exists>out. wc_log level component event format env st = st\<lparr>log_stderr := log_stderr st @ out\<rparr> \<and>
     (out \<noteq> [] \<longleftrightarrow> 0 \<le> level \<and> level \<le> 4 \<and> level \<le> wc_minimum_level st \<and>
        component \<noteq> None \<and> event \<noteq> None \<and> wc_log_timestamp 40 env \<noteq> None)"
proof (cases "wc_log_level_valid level \<and> level \<le> wc_minimum_level st \<and> component \<noteq> None \<and> event \<noteq> None")
  case False
  then have "wc_log level component event format env st = st"
    by (auto simp: wc_log_def wc_log_v_def Let_def)
  with False show ?thesis
    by (intro exI [of _ "[]"]) (auto simp: wc_log_level_valid_def)
next
  case True
  show ?thesis
  proof (cases "wc_log_timestamp 40 env")
    case None
    with True show ?thesis
      by (intro exI [of _ "[]"]) (auto simp: wc_log_def wc_log_v_def Let_def)
  next
    case (Some ts)
    define c where "c = (if format = None \<or> format = Some [] then None
              else case env_vsnprintf env of
                  None \<Rightarrow> None
                | Some t \<Rightarrow> if length t > 0 then Some (take (2048 - 1) t) else None)"
    let ?r = "log_record ts (wc_log_level_name level) (the component) (the event) c"
    have "wc_log level component event format env st = st\<lparr>log_stderr := log_stderr st @ ?r\<rparr>"
      using True Some unfolding wc_log_def wc_log_v_def c_def Let_def by auto
    with True Some log_record_nonempty show ?thesis
      by (intro exI [of _ ?r]) (auto simp: wc_log_level_valid_def)
  qed
qed

text \<open>
  After any sequence of \<open>wc_log_set_level\<close> calls the minimum level is the last valid
  level that was set, \<open>INFO\<close> when there was none, and so always a valid level.
\<close>

theorem log_level_last_valid:
  "wc_log_get_level (foldl (\<lambda>st l. wc_log_set_level l st) log_initial ls) =
     (case filter wc_log_level_valid (rev ls) of [] \<Rightarrow> 2 | l # _ \<Rightarrow> l) \<and>
   wc_log_level_valid (wc_log_get_level (foldl (\<lambda>st l. wc_log_set_level l st) log_initial ls))"
proof (induction ls rule: rev_induct)
  case Nil
  then show ?case by (simp add: wc_log_get_level_def log_initial_def wc_log_level_valid_def)
next
  case (snoc l ls)
  then show ?case by (auto simp: wc_log_get_level_def wc_log_set_level_def)
qed

end
