(* ===== verification/WC_Socket.thy ===== *)
theory WC_Socket
  imports WC_Buffer
begin

text \<open>
  The socket helpers of \<^verbatim>\<open>src/src/socket_utils.c\<close> and the system calls on descriptors that
  the servers and the client use. What the kernel answers to successive calls is a list
  of outcomes, the script; a call takes the first outcome. On a nonblocking descriptor
  the end of the script is \<open>EAGAIN\<close>; on a blocking one the call does not return.
\<close>

section \<open>Outcomes of system calls\<close>

text \<open>
  \<open>Read_bytes bs\<close>: the bytes that have arrived; \<open>read\<close> takes as many as it asked for and
  leaves the rest. \<open>Read_bytes []\<close> is the end of the stream. \<open>Send_bytes k\<close>: the kernel
  accepts at most \<open>k\<close> bytes.
\<close>

datatype read_outcome = Read_bytes "byte list" | Read_error errno
datatype send_outcome = Send_bytes nat | Send_error errno

fun sock_read :: "fd \<Rightarrow> nat \<Rightarrow> read_outcome list \<Rightarrow> 'n sys \<Rightarrow>
    ((errno + byte list) \<times> read_outcome list \<times> 'n sys) option" where
  "sock_read f n [] s = None"
| "sock_read f n (Read_error e # rest) s = Some (Inl e, rest, s)"
| "sock_read f n (Read_bytes bs # rest) s =
     Some (Inr (take n bs), if length bs \<le> n then rest else Read_bytes (drop n bs) # rest,
           s_emit (Ev_recv f (take n bs)) s)"

definition sock_send :: "fd \<Rightarrow> byte list \<Rightarrow> send_outcome \<Rightarrow> 'n sys \<Rightarrow> (errno + nat) \<times> 'n sys" where
  "sock_send f bs x s = (case x of
       Send_error e \<Rightarrow> (Inl e, s)
     | Send_bytes k \<Rightarrow> (Inr (min k (length bs)), s_emit (Ev_send f (take k bs)) s))"

text \<open>
  \<open>accept\<close> returns a new descriptor, chosen by the kernel in view of the open ones, or an
  error. The rest of the outcome are the flags and the \<open>fcntl\<close> calls of the descriptor.
\<close>

datatype accept_outcome = Accept_fd "fd list \<Rightarrow> fd" "32 word" "errno option list" | Accept_error errno

text \<open>The kernel hands out descriptors that are not open.\<close>

definition fresh_accept :: "accept_outcome \<Rightarrow> bool" where
  "fresh_accept x = (case x of Accept_fd pick _ _ \<Rightarrow> \<forall>fds. 0 \<le> pick fds \<and> pick fds \<notin> set fds | _ \<Rightarrow> True)"

text \<open>
  What the kernel answers while a Unix-domain listener is opened: \<open>socket\<close>, the flags and the
  \<open>fcntl\<close> calls of the new descriptor, \<open>unlink\<close>, \<open>bind\<close> and \<open>listen\<close>.
\<close>

record listener_env =
  le_socket :: "errno + fd"
  le_flags :: "32 word"
  le_fcntl :: "errno option list"
  le_unlink :: status
  le_bind :: status
  le_listen :: status

text \<open>The bytes a system call reads at a pointer, undefined beyond the object.\<close>

definition c_read_block :: "byte list option \<Rightarrow> nat \<Rightarrow> byte list option" where
  "c_read_block p n = (case p of
       None \<Rightarrow> if n = 0 then Some [] else None
     | Some d \<Rightarrow> if n \<le> length d then Some (take n d) else None)"

text \<open>The bytes sent to and received from a descriptor, in order.\<close>

fun ev_sent :: "fd \<Rightarrow> event \<Rightarrow> byte list" where
  "ev_sent f (Ev_send g bs) = (if f = g then bs else [])"
| "ev_sent f _ = []"

fun ev_received :: "fd \<Rightarrow> event \<Rightarrow> byte list" where
  "ev_received f (Ev_recv g bs) = (if f = g then bs else [])"
| "ev_received f _ = []"

definition sent_to :: "fd \<Rightarrow> event list \<Rightarrow> byte list" where
  "sent_to f tr = concat (map (ev_sent f) tr)"

text \<open>
  \<open>fd_run S tr\<close> follows the open descriptors along a trace; \<open>None\<close> when a descriptor is
  opened while open, or closed, read or written while not open. \<open>session_sent f tr\<close> and
  \<open>session_recv f tr\<close> are the bytes sent to and received from \<open>f\<close> since it was last opened.
\<close>

fun fd_step :: "fd set \<Rightarrow> event \<Rightarrow> fd set option" where
  "fd_step S (Ev_open f) = (if f \<in> S then None else Some (insert f S))"
| "fd_step S (Ev_close f) = (if f \<in> S then Some (S - {f}) else None)"
| "fd_step S (Ev_send f bs) = (if f \<in> S then Some S else None)"
| "fd_step S (Ev_recv f bs) = (if f \<in> S then Some S else None)"
| "fd_step S _ = Some S"

fun fd_run :: "fd set \<Rightarrow> event list \<Rightarrow> fd set option" where
  "fd_run S [] = Some S"
| "fd_run S (e # tr) = Option.bind (fd_step S e) (\<lambda>S'. fd_run S' tr)"

definition session_sent :: "fd \<Rightarrow> event list \<Rightarrow> byte list" where
  "session_sent f tr = foldl (\<lambda>acc e. if e = Ev_open f then [] else acc @ ev_sent f e) [] tr"

definition session_recv :: "fd \<Rightarrow> event list \<Rightarrow> byte list" where
  "session_recv f tr = foldl (\<lambda>acc e. if e = Ev_open f then [] else acc @ ev_received f e) [] tr"

definition received_from :: "fd \<Rightarrow> event list \<Rightarrow> byte list" where
  "received_from f tr = concat (map (ev_received f) tr)"

section \<open>Operations\<close>

text \<open>
  \<open>fcntl\<close> on a descriptor with status flags \<open>fl\<close>; the script says which calls fail, and a call
  beyond its end succeeds. A successful \<open>F_SETFL\<close> with argument \<open>arg\<close> leaves the flags
  \<open>fcntl_setfl fl arg\<close>: as documented for Linux it changes only \<open>SETFL_FLAGS\<close>, that is
  \<open>O_APPEND\<close>, \<open>O_NONBLOCK\<close>, \<open>O_ASYNC\<close>, \<open>O_DIRECT\<close> and \<open>O_NOATIME\<close> (in this order below), and
  ignores the other bits of its argument.

  The loops are the two \<open>do ... while\<close> loops of \<open>wc_socket_set_nonblocking\<close>. In the second,
  \<open>flags\<close> is the variable of the code, from which the argument of each call is computed and
  which holds the result \<open>-1\<close> of the previous call when the call is repeated, and \<open>fl\<close> are the
  flags of the descriptor. The loops return the status and the flags of the descriptor afterwards.
\<close>

definition O_NONBLOCK :: "32 word" where
  "O_NONBLOCK = 2048"

fun getfl_loop :: "errno option list \<Rightarrow> (errno option) \<times> errno option list" where
  "getfl_loop [] = (None, [])"
| "getfl_loop (None # rest) = (None, rest)"
| "getfl_loop (Some e # rest) = (if e = EINTR then getfl_loop rest else (Some e, rest))"

unbundle bit_operations_syntax

definition SETFL_FLAGS :: "32 word" where
  "SETFL_FLAGS = 1024 OR O_NONBLOCK OR 8192 OR 16384 OR 262144"

definition fcntl_setfl :: "32 word \<Rightarrow> 32 word \<Rightarrow> 32 word" where
  "fcntl_setfl fl arg = (fl AND NOT SETFL_FLAGS) OR (arg AND SETFL_FLAGS)"

fun setfl_loop :: "32 word \<Rightarrow> 32 word \<Rightarrow> errno option list \<Rightarrow> status \<times> 32 word" where
  "setfl_loop flags fl [] = (wc_ok, fcntl_setfl fl (flags OR O_NONBLOCK))"
| "setfl_loop flags fl (None # rest) = (wc_ok, fcntl_setfl fl (flags OR O_NONBLOCK))"
| "setfl_loop flags fl (Some e # rest) = (if e = EINTR then setfl_loop (- 1) fl rest else (Inl e, fl))"

definition wc_socket_set_nonblocking :: "32 word \<Rightarrow> errno option list \<Rightarrow> status \<times> 32 word" where
  "wc_socket_set_nonblocking fl script =
     (case getfl_loop script of
        (Some e, _) \<Rightarrow> (Inl e, fl)
      | (None, rest) \<Rightarrow>
          if fl AND O_NONBLOCK \<noteq> 0 then (wc_ok, fl) else setfl_loop fl fl rest)"

text \<open>
  The loop of \<open>wc_socket_write_all\<close> on a blocking descriptor; \<open>None\<close> when the kernel never
  accepts the rest.
\<close>

fun write_loop :: "fd \<Rightarrow> byte list option \<Rightarrow> size_t \<Rightarrow> size_t \<Rightarrow> send_outcome list \<Rightarrow> 'n sys \<Rightarrow>
    (status \<times> 'n sys) option" where
  "write_loop descriptor data total_written sz [] s =
     (if total_written < sz then None else Some (wc_ok, s))"
| "write_loop descriptor data total_written sz (x # script) s =
     (if total_written < sz then do {
        bs \<leftarrow> c_read_block (map_option (drop (unat total_written)) data) (unat (sz - total_written));
        case sock_send descriptor bs x s of
          (Inr bytes_written, s1) \<Rightarrow>
            if bytes_written > 0
            then write_loop descriptor data (total_written + of_nat bytes_written) sz script s1
            else Some (Inl EIO, s1)
        | (Inl e, s1) \<Rightarrow>
            if e = EINTR then write_loop descriptor data total_written sz script s1
            else Some (Inl e, s1)
      }
      else Some (wc_ok, s))"

definition wc_socket_write_all :: "fd \<Rightarrow> byte list option \<Rightarrow> size_t \<Rightarrow> send_outcome list \<Rightarrow> 'n sys \<Rightarrow>
    (status \<times> 'n sys) option" where
  "wc_socket_write_all descriptor data sz script s =
     (if data = None \<and> sz \<noteq> 0 then Some (Inl EINVAL, s)
      else write_loop descriptor data 0 sz script s)"

section \<open>Lemmas\<close>

lemma sent_to_simps [simp]:
  "sent_to f [] = []" "sent_to f (xs @ ys) = sent_to f xs @ sent_to f ys"
  "sent_to f (e # xs) = ev_sent f e @ sent_to f xs"
  by (simp_all add: sent_to_def)

lemma fd_run_append: "fd_run S (xs @ ys) = Option.bind (fd_run S xs) (\<lambda>S'. fd_run S' ys)"
  by (induction xs arbitrary: S) (auto split: Option.bind_splits)

lemma fd_run_sends: "f \<in> S \<Longrightarrow> fd_run S (map (Ev_send f) bss) = Some S"
  by (induction bss) auto

lemma fd_run_runs: "fd_run S (map Ev_run cmds) = Some S"
  by (induction cmds) auto

lemma session_append:
  assumes "Ev_open f \<notin> set ys"
  shows "session_sent f (xs @ ys) = session_sent f xs @ sent_to f ys"
    and "session_recv f (xs @ ys) = session_recv f xs @ received_from f ys"
  using assms
  by (induction ys rule: rev_induct)
     (auto simp: session_sent_def session_recv_def received_from_def simp flip: append_assoc)

lemma session_open [simp]:
  "session_sent f (xs @ [Ev_open f]) = []" "session_recv f (xs @ [Ev_open f]) = []"
  by (simp_all add: session_sent_def session_recv_def)

lemma trace_bytes_simps [simp]:
  "sent_to f (map (Ev_send f) bss) = concat bss" "received_from f (map (Ev_send g) bss) = []"
  "received_from f (map (Ev_recv f) bss) = concat bss" "sent_to f (map (Ev_recv g) bss) = []"
  "sent_to f (map Ev_run cmds) = []" "received_from f (map Ev_run cmds) = []"
  "received_from f [] = []" "received_from f (xs @ ys) = received_from f xs @ received_from f ys"
  by (simp_all add: sent_to_def received_from_def o_def)

lemma trace_bytes_other [simp]:
  "f \<noteq> g \<Longrightarrow> sent_to f (map (Ev_send g) bss) = []"
  "f \<noteq> g \<Longrightarrow> received_from f (map (Ev_recv g) bss) = []"
  by (simp_all add: sent_to_def received_from_def o_def)

lemma fd_run_recvs: "f \<in> S \<Longrightarrow> fd_run S (map (Ev_recv f) bss) = Some S"
  by (induction bss) auto

lemma buf_read_block: "buf_wf b \<Longrightarrow> c_read_block (buf_data b) (unat (buf_length b)) = Some (buf_bytes b)"
  by (auto simp: c_read_block_def buf_bytes_def buf_block_def buf_wf_def split: option.splits)

text \<open>Progress of a read script: a call consumes an outcome or at least one byte of it.\<close>

fun script_size :: "read_outcome list \<Rightarrow> nat" where
  "script_size [] = 0"
| "script_size (Read_bytes bs # r) = Suc (length bs + script_size r)"
| "script_size (Read_error e # r) = Suc (script_size r)"

lemma sock_read_size:
  "sock_read f n script s = Some (r, rest, s') \<Longrightarrow> 0 < n \<Longrightarrow> script_size rest < script_size script"
  by (cases "(f, n, script, s)" rule: sock_read.cases) (auto split: if_splits)

lemma write_step_block:
  assumes "tw + length rest = length d" "rest = drop tw d" "length d < 2 ^ 64"
    and "t = of_nat tw" "sz = (of_nat (length d) :: size_t)"
  shows "c_read_block (map_option (drop (unat t)) (Some d)) (unat (sz - t)) = Some rest"
    and "t < sz \<longleftrightarrow> rest \<noteq> []"
proof -
  have u: "unat t = tw" "unat sz = length d" using assms by simp_all
  have le: "t \<le> sz" using u assms(1) by (simp add: word_le_nat_alt)
  have "unat (sz - t) = length rest" using u assms(1) unat_sub [OF le] by simp
  then show "c_read_block (map_option (drop (unat t)) (Some d)) (unat (sz - t)) = Some rest"
    using u assms(2) by (simp add: c_read_block_def)
  show "t < sz \<longleftrightarrow> rest \<noteq> []" 
    using u assms(1) length_greater_0_conv [of rest] unfolding word_less_nat_alt by linarith
qed

text \<open>Whatever the kernel does, what has been sent is a prefix of the data, all of it exactly on success.\<close>

lemma write_loop_sound:
  assumes "tw + length rest = length d" "rest = drop tw d" "length d < 2 ^ 64"
    and "write_loop f (Some d) (of_nat tw) (of_nat (length d)) script s = Some (st, s')"
  shows "\<exists>sent. sent_to f (s_trace s') = sent_to f (s_trace s) @ sent \<and>
           (\<exists>u. rest = sent @ u \<and> (st = wc_ok \<longleftrightarrow> u = []))"
  using assms
proof (induction script arbitrary: tw rest s)
  case Nil
  note blk = write_step_block [OF Nil.prems(1-3) refl refl]
  show ?case using Nil.prems(4) blk(2) by (auto split: if_splits)
next
  case (Cons x script)
  note blk = write_step_block [OF Cons.prems(1-3) refl refl]
  show ?case
  proof (cases "rest = []")
    case True
    with Cons.prems(4) blk(2) show ?thesis by simp
  next
    case False
    note run = Cons.prems(4) [unfolded write_loop.simps blk(1) if_P [OF iffD2 [OF blk(2) False]]
        Option.bind.bind_lunit]
    show ?thesis
    proof (cases x)
      case (Send_error e)
      show ?thesis
      proof (cases "e = EINTR")
        case True
        with run Send_error Cons.IH [OF Cons.prems(1-3), of s] show ?thesis
          by (simp add: sock_send_def)
      next
        case False
        with run Send_error \<open>rest \<noteq> []\<close> show ?thesis by (auto simp: sock_send_def)
      qed
    next
      case (Send_bytes k)
      let ?k = "min k (length rest)" and ?s = "s_emit (Ev_send f (take k rest)) s"
      show ?thesis
      proof (cases "?k = 0")
        case True
        with run Send_bytes False show ?thesis
          by (intro exI [of _ "take k rest"] conjI exI [of _ "drop k rest"]) (auto simp: sock_send_def)
      next
        case k: False
        have t: "of_nat tw + of_nat ?k = (of_nat (tw + ?k) :: size_t)" by simp
        have "write_loop f (Some d) (of_nat (tw + ?k)) (of_nat (length d)) script ?s = Some (st, s')"
          using run Send_bytes k unfolding t [symmetric] by (simp add: sock_send_def)
        moreover have "tw + ?k + length (drop k rest) = length d" "drop k rest = drop (tw + ?k) d"
          using Cons.prems(1,2) by (auto simp: min_def drop_drop add.commute)
        ultimately obtain sent u where IH: "sent_to f (s_trace s') = sent_to f (s_trace ?s) @ sent"
          "drop k rest = sent @ u" "st = wc_ok \<longleftrightarrow> u = []"
          using Cons.IH [OF _ _ Cons.prems(3), of "tw + ?k" "drop k rest" ?s] by blast
        have "rest = (take k rest @ sent) @ u" using IH(2) append_take_drop_id [of k rest] by simp
        with IH show ?thesis by (intro exI [of _ "take k rest @ sent"] conjI exI [of _ u]) simp_all
      qed
    qed
  qed
qed

text \<open>
  A script that never reports an error other than an interruption and accepts enough bytes
  in all lets the loop finish.
\<close>

fun willing :: "send_outcome list \<Rightarrow> bool" where
  "willing [] = True"
| "willing (Send_bytes k # r) = (0 < k \<and> willing r)"
| "willing (Send_error e # r) = (e = EINTR \<and> willing r)"

fun accepted :: "send_outcome list \<Rightarrow> nat" where
  "accepted [] = 0"
| "accepted (Send_bytes k # r) = k + accepted r"
| "accepted (Send_error e # r) = accepted r"

lemma write_loop_returns:
  assumes "tw + length rest = length d" "rest = drop tw d" "length d < 2 ^ 64"
    and "willing script" "length rest \<le> accepted script"
  shows "\<exists>s'. write_loop f (Some d) (of_nat tw) (of_nat (length d)) script s = Some (wc_ok, s')"
  using assms
proof (induction script arbitrary: tw rest s)
  case Nil
  then show ?case by simp
next
  case (Cons x script)
  note blk = write_step_block [OF Cons.prems(1-3) refl refl]
  show ?case
  proof (cases "rest = []")
    case True
    with blk(2) show ?thesis by simp
  next
    case False
    note unf = write_loop.simps(2) [of f "Some d" "of_nat tw" "of_nat (length d)", unfolded blk(1)
        if_P [OF iffD2 [OF blk(2) False]] Option.bind.bind_lunit]
    show ?thesis
    proof (cases x)
      case (Send_error e)
      then show ?thesis
        using Cons.IH [OF Cons.prems(1-3), of s] Cons.prems(4,5)
        unfolding unf Send_error by (simp add: sock_send_def)
    next
      case (Send_bytes k)
      let ?k = "min k (length rest)"
      have t: "of_nat tw + of_nat ?k = (of_nat (tw + ?k) :: size_t)" by simp
      have "0 < ?k" using Cons.prems(4) Send_bytes False by simp
      moreover have "tw + ?k + length (drop k rest) = length d" "drop k rest = drop (tw + ?k) d"
        "length (drop k rest) \<le> accepted script"
        using Cons.prems(1,2,5) Send_bytes by (auto simp: min_def drop_drop add.commute)
      ultimately show ?thesis
        using Cons.IH [OF _ _ Cons.prems(3), of "tw + ?k" "drop k rest"] Cons.prems(4) Send_bytes
        unfolding unf t [symmetric] by (simp add: sock_send_def)
    qed
  qed
qed

text \<open>
  The argument of the \<open>F_SETFL\<close> call that succeeds: the flags read before with \<open>O_NONBLOCK\<close>, or
  all bits when an earlier call was interrupted.
\<close>

lemma setfl_loop_result:
  "setfl_loop flags fl rest = (wc_ok, fl') \<Longrightarrow>
     fl' = fcntl_setfl fl (if take 1 rest = [Some EINTR] then - 1 else flags OR O_NONBLOCK)"
proof (induction flags fl rest rule: setfl_loop.induct)
  case (3 flags fl e rest)
  then show ?case by (cases "e = EINTR") (simp_all split: if_splits)
qed simp_all

lemma nonblock_bit: "bit O_NONBLOCK m \<longleftrightarrow> m = 11"
proof -
  have eq: "O_NONBLOCK = push_bit 11 1" by (simp add: O_NONBLOCK_def push_bit_eq_mult)
  show ?thesis unfolding eq bit_push_bit_iff bit_1_iff by auto
qed

lemma nonblock_set:
  assumes "fl AND O_NONBLOCK \<noteq> 0"
  shows "fl OR O_NONBLOCK = fl"
proof (rule bit_word_eqI)
  fix n
  obtain m where "bit (fl AND O_NONBLOCK) m" using assms by (auto simp: bit_eq_iff)
  then have "bit fl 11" by (auto simp: bit_and_iff nonblock_bit)
  then show "bit (fl OR O_NONBLOCK) n \<longleftrightarrow> bit fl n" by (auto simp: bit_or_iff nonblock_bit)
qed

lemma fcntl_setfl_eqs:
  "fcntl_setfl fl (- 1) = fl OR SETFL_FLAGS" "fcntl_setfl fl (fl OR O_NONBLOCK) = fl OR O_NONBLOCK"
proof -
  have "bit SETFL_FLAGS n" if "bit O_NONBLOCK n" for n using that by (simp add: SETFL_FLAGS_def bit_or_iff)
  then show "fcntl_setfl fl (- 1) = fl OR SETFL_FLAGS" "fcntl_setfl fl (fl OR O_NONBLOCK) = fl OR O_NONBLOCK"
    by (auto intro!: bit_word_eqI simp: fcntl_setfl_def bit_and_iff bit_or_iff bit_not_iff)
qed

section \<open>Properties\<close>

text \<open>
  C38. \<open>wc_socket_write_all\<close> on a blocking descriptor: whenever it returns, the bytes it has
  sent to the descriptor are a prefix of the data, and it reports success exactly when they
  are all of the data; and it does return with success when the kernel only interrupts calls
  and accepts enough bytes in all.
\<close>

theorem write_all_correct:
  assumes "length d < 2 ^ 64"
  shows "(\<forall>st s'. wc_socket_write_all f (Some d) (of_nat (length d)) script s = Some (st, s') \<longrightarrow>
            (\<exists>sent u. sent_to f (s_trace s') = sent_to f (s_trace s) @ sent \<and> d = sent @ u \<and>
               (st = wc_ok \<longleftrightarrow> u = []))) \<and>
         (willing script \<and> length d \<le> accepted script \<longrightarrow>
            (\<exists>s'. wc_socket_write_all f (Some d) (of_nat (length d)) script s = Some (wc_ok, s')))"
  using write_loop_sound [of 0 d d f script s] write_loop_returns [of 0 d d script f s] assms
  by (auto simp: wc_socket_write_all_def)

text \<open>
  C39. \<open>wc_socket_set_nonblocking\<close>, when it succeeds, leaves exactly the previous status flags
  together with \<open>O_NONBLOCK\<close>, except when the descriptor was not yet nonblocking and the first
  \<open>F_SETFL\<close> call was interrupted: the repeated call is then made with all bits set, and every
  flag that \<open>F_SETFL\<close> can set is set.
\<close>

theorem set_nonblocking_interrupted:
  assumes "getfl_loop script = (None, rest)" "wc_socket_set_nonblocking fl script = (wc_ok, fl')"
  shows "fl' = (if fl AND O_NONBLOCK = 0 \<and> take 1 rest = [Some EINTR]
                then fl OR SETFL_FLAGS else fl OR O_NONBLOCK)"
proof (cases "fl AND O_NONBLOCK = 0")
  case True
  then have "setfl_loop fl fl rest = (wc_ok, fl')"
    using assms by (simp add: wc_socket_set_nonblocking_def)
  from setfl_loop_result [OF this] True show ?thesis by (simp add: fcntl_setfl_eqs)
next
  case False
  with assms nonblock_set [OF False] show ?thesis by (simp add: wc_socket_set_nonblocking_def)
qed

section \<open>Witnesses\<close>

theorem write_all_correct_witness:
  "\<exists>s'. wc_socket_write_all 4 (Some [1, 2, 3]) (of_nat (length [1, 2, 3 :: byte]))
      [Send_bytes 1, Send_error EINTR, Send_bytes 7] (sys0 :: unit sys) = Some (wc_ok, s') \<and>
     sent_to 4 (s_trace s') = [1, 2, 3]"
proof -
  note c = write_all_correct [of "[1, 2, 3]" 4 "[Send_bytes 1, Send_error EINTR, Send_bytes 7]" "sys0 :: unit sys"]
  obtain s' where "wc_socket_write_all 4 (Some [1, 2, 3]) (of_nat (length [1, 2, 3 :: byte]))
      [Send_bytes 1, Send_error EINTR, Send_bytes 7] (sys0 :: unit sys) = Some (wc_ok, s')"
    using c by auto
  moreover have "s_trace (sys0 :: unit sys) = []" by (simp add: sys0_def)
  ultimately show ?thesis using c by (intro exI [of _ s']) force
qed

theorem set_nonblocking_interrupted_witness:
  "wc_socket_set_nonblocking 2 [None, Some EINTR, None] = (wc_ok, 289794) \<and>
   (289794 :: 32 word) = 2 OR SETFL_FLAGS"
proof -
  have r: "wc_socket_set_nonblocking 2 [None, Some EINTR, None] = (wc_ok, 289794)"
    by (simp add: wc_socket_set_nonblocking_def O_NONBLOCK_def fcntl_setfl_def SETFL_FLAGS_def)
  from set_nonblocking_interrupted [OF _ r, of "[Some EINTR, None]"] r show ?thesis
    by (simp add: O_NONBLOCK_def)
qed

end
