(* ===== verification/WC_Respond.thy ===== *)
theory WC_Respond
  imports WC_Commands
begin

text \<open>
  Answering one request. Each of the three servers has its own copy of the dispatch on the
  request type and of the encoding of the result or of an error text. This theory holds
  the contract of those functions as the locale \<open>responder\<close>, a reference implementation
  and the proof that it meets the contract; every server's copy is interpreted as a
  \<open>responder\<close> in the theory of that server.

  \<open>strerror\<close> is a parameter: the texts belong to the C library.
\<close>

section \<open>The contract\<close>

text \<open>The text of an error, cut to the 256-byte array the servers format it into.\<close>

definition error_text :: "(errno \<Rightarrow> byte list) \<Rightarrow> errno \<Rightarrow> byte list" where
  "error_text strerror e = take 255 (c_str ''ERROR: '' @ strerror e)"

definition reply_data :: "(errno \<Rightarrow> byte list) \<Rightarrow> errno + byte list \<Rightarrow> byte list" where
  "reply_data strerror x = (case x of Inl e \<Rightarrow> error_text strerror e | Inr out \<Rightarrow> out)"

text \<open>
  \<open>answers strerror p ample t a cmds data\<close>: the command lines \<open>cmds\<close> were run for the request
  of type \<open>t\<close> with argument \<open>a\<close> and \<open>data\<close> is the reply, where \<open>p\<close> describes the children.
\<close>

definition answers :: "(errno \<Rightarrow> byte list) \<Rightarrow> (nat \<Rightarrow> byte list \<Rightarrow> popen_outcome) \<Rightarrow> bool \<Rightarrow>
    wc_request_type \<Rightarrow> byte list \<Rightarrow> byte list list \<Rightarrow> byte list \<Rightarrow> bool" where
  "answers strerror p ample t a cmds data \<longleftrightarrow> (case request_command t a of
       Inl e \<Rightarrow> cmds = [] \<and> data = error_text strerror e
     | Inr cmd \<Rightarrow>
         cmds = [cmd] \<and> (\<exists>k. data = reply_data strerror (request_reply t 65535 (p k cmd)))
         \<or> (cmds = [] \<or> cmds = [cmd]) \<and> \<not> ample \<and> data = error_text strerror ENOMEM)"

definition cmds_ok :: "wc_request_type \<Rightarrow> byte list \<Rightarrow> byte list list \<Rightarrow> bool" where
  "cmds_ok t a cmds \<longleftrightarrow> cmds = [] \<or> (\<exists>cmd. request_command t a = Inr cmd \<and> cmds = [cmd])"

lemma answers_cmds_ok: "answers strerror p ample t a cmds data \<Longrightarrow> cmds_ok t a cmds"
  by (auto simp: answers_def cmds_ok_def split: sum.splits)

locale responder =
  fixes respond :: "(errno \<Rightarrow> byte list) \<Rightarrow> wc_buffer \<Rightarrow> wc_request_type \<Rightarrow> byte list option \<Rightarrow> size_t \<Rightarrow>
      'n sys \<Rightarrow> (status \<times> wc_buffer \<times> 'n sys) option"
  assumes respond_law: "buf_wf b \<Longrightarrow> buf_bytes b = [] \<Longrightarrow> buf_max_size b = 65537 \<Longrightarrow>
      readable arg n \<Longrightarrow> unat n \<le> 65535 \<Longrightarrow>
      \<exists>st b' s' cmds. respond strerror b t arg n s = Some (st, b', s') \<and> buf_wf b' \<and>
        buf_max_size b' = 65537 \<and> run_frame s s' cmds \<and> cmds_ok t (take (unat n) (opt_bytes arg)) cmds \<and>
        s_live s' = s_live s + buf_owned b' - buf_owned b \<and>
        (st = wc_ok \<and> (\<exists>data. length data \<le> 65535 \<and> buf_bytes b' = response_frame data \<and>
            answers strerror (s_popen s) (mem_ample s) t (take (unat n) (opt_bytes arg)) cmds data)
         \<or> st = Inl ENOMEM \<and> \<not> mem_ample s \<and> buf_bytes b' = [])"
begin

lemma respond_cases:
  assumes "buf_wf b" "buf_bytes b = []" "buf_max_size b = 65537" "readable arg n" "unat n \<le> 65535"
    and "take (unat n) (opt_bytes arg) = a"
  obtains
    (answered) b' s' cmds data where "respond strerror b t arg n s = Some (wc_ok, b', s')"
      "buf_wf b'" "buf_max_size b' = 65537" "run_frame s s' cmds"
      "s_live s' = s_live s + buf_owned b' - buf_owned b"
      "length data \<le> 65535" "buf_bytes b' = response_frame data"
      "answers strerror (s_popen s) (mem_ample s) t a cmds data"
  | (refused) b' s' cmds where "respond strerror b t arg n s = Some (Inl ENOMEM, b', s')"
      "buf_wf b'" "buf_max_size b' = 65537" "run_frame s s' cmds" "cmds_ok t a cmds"
      "s_live s' = s_live s + buf_owned b' - buf_owned b"
      "\<not> mem_ample s" "buf_bytes b' = []"
  using respond_law [OF assms(1-5), of strerror t s] unfolding assms(6) by blast

end

section \<open>A reference implementation\<close>

definition ref_run_command :: "wc_request_type \<Rightarrow> byte list option \<Rightarrow> size_t \<Rightarrow> 'n sys \<Rightarrow>
    (status \<times> wc_command_result \<times> 'n sys) option" where
  "ref_run_command t arg n s =
     (if t = 1 then wc_command_ls arg n UINT16_MAX s
      else if t = 2 then
        (if n \<noteq> 0 then Some (Inl EINVAL, result_zero, s) else wc_command_pwd UINT16_MAX s)
      else if t = 3 then wc_command_cat arg n UINT16_MAX s
      else Some (Inl EINVAL, result_zero, s))"

text \<open>\<open>snprintf\<close> of the error text and the encoding that follows it.\<close>

definition ref_error :: "(errno \<Rightarrow> byte list) \<Rightarrow> wc_buffer \<Rightarrow> errno \<Rightarrow> 'n sys \<Rightarrow>
    (status \<times> wc_buffer \<times> 'n sys) option" where
  "ref_error strerror output e s =
     (let msg = c_str ''ERROR: '' @ strerror e; text_length = int (length msg) in do {
        error_text \<leftarrow> c_snprintf (c_local 256 s) 256 msg;
        if text_length < 0 then Some (Inl EIO, output, s)
        else let n = (if nat text_length \<ge> 256 then 255 else nat text_length) in
          wc_protocol_encode_response output (Some error_text) (of_nat n) s
      })"

definition ref_respond :: "(errno \<Rightarrow> byte list) \<Rightarrow> wc_buffer \<Rightarrow> wc_request_type \<Rightarrow> byte list option \<Rightarrow> size_t \<Rightarrow>
    'n sys \<Rightarrow> (status \<times> wc_buffer \<times> 'n sys) option" where
  "ref_respond strerror output t arg n s = do {
     (st, result, s1) \<leftarrow> ref_run_command t arg n s;
     case st of
       Inr _ \<Rightarrow> do {
         (encode_result, o1, s2) \<leftarrow>
           wc_protocol_encode_response output (res_data result) (res_length result) s1;
         Some (encode_result, o1, snd (wc_command_result_destroy result s2))
       }
     | Inl command_errno \<Rightarrow> ref_error strerror output command_errno s1
   }"

lemma run_command_spec:
  assumes "readable arg n" "unat n \<le> 65535"
  obtains cmds st r s' where "ref_run_command t arg n s = Some (st, r, s')"
    "run_frame s s' cmds" "res_wf r" "s_live s' = s_live s + res_owned r"
    "exec_outcome s t (take (unat n) (opt_bytes arg)) 65535 cmds st r"
proof -
  let ?a = "take (unat n) (opt_bytes arg)"
  have la: "length ?a = unat n" by (rule length_take_readable [OF assms(1)])
  consider (ls) "t = 1" | (pwd) "t = 2" "n = 0" | (cat) "t = 3"
    | (bad) "request_command t ?a = Inl EINVAL" "t \<noteq> 1" "t \<noteq> 3" "t = 2 \<longrightarrow> n \<noteq> 0"
  proof -
    have "?a = [] \<longleftrightarrow> n = 0" using la by (metis length_0_conv unat_zero_iff_size)
    then have "t \<noteq> 1 \<Longrightarrow> t \<noteq> 3 \<Longrightarrow> t = 2 \<longrightarrow> n \<noteq> 0 \<Longrightarrow> request_command t ?a = Inl EINVAL"
      by (auto simp: request_command_def)
    then show thesis using that by blast
  qed
  then show ?thesis
  proof cases
    case ls
    show ?thesis
      by (rule ls_spec [OF assms, of UINT16_MAX s]) (use ls that in \<open>simp add: ref_run_command_def\<close>)
  next
    case pwd
    show ?thesis
      by (rule pwd_spec [of UINT16_MAX s]) (use pwd that in \<open>simp add: ref_run_command_def\<close>)
  next
    case cat
    show ?thesis
      by (rule cat_spec [OF assms, of UINT16_MAX s]) (use cat that in \<open>simp add: ref_run_command_def\<close>)
  next
    case bad
    then have "ref_run_command t arg n s = Some (Inl EINVAL, result_zero, s)"
      by (simp add: ref_run_command_def)
    with bad show ?thesis
      by (intro that [of "Inl EINVAL" result_zero s "[]"]) (simp_all add: exec_outcome_def run_frame_Nil)
  qed
qed

lemma length_error_text: "length (error_text strerror e) \<le> 255"
  by (simp add: error_text_def)

lemma snprintf_error:
  "c_snprintf (c_local 256 s) 256 msg = Some (take 255 msg @ 0 # drop (Suc (min 255 (length msg))) (c_local 256 s))"
  by (simp add: c_snprintf_def c_memcpy_def c_local_def min_def)

lemma error_spec:
  assumes "buf_wf b" "buf_bytes b = []" "buf_max_size b = 65537"
  obtains st b' s' where "ref_error strerror b e s = Some (st, b', s')"
    "buf_wf b'" "buf_max_size b' = 65537" "sys_frame s s'"
    "s_live s' = s_live s + buf_owned b' - buf_owned b"
    "st = wc_ok \<and> buf_bytes b' = response_frame (error_text strerror e)
     \<or> st = Inl ENOMEM \<and> buf_bytes b' = [] \<and> \<not> mem_ample s"
proof -
  define msg where "msg = c_str ''ERROR: '' @ strerror e"
  let ?t = msg
  let ?d = "take 255 ?t @ 0 # drop (Suc (min 255 (length ?t))) (c_local 256 s)"
  let ?n = "of_nat (if length ?t \<ge> 256 then 255 else length ?t) :: size_t"
  have n: "unat ?n = min 255 (length ?t)" by (simp add: min_def)
  have l0: "unat (buf_length b) = 0" using buf_wf_D(3) [OF assms(1)] assms(2) by simp
  have rd: "readable (Some ?d) ?n" "unat ?n \<le> 65535"
      "2 + unat ?n \<le> unat (buf_max_size b) - unat (buf_length b)"
    using n l0 assms(3) by (auto simp: readable_def)
  have bytes: "take (unat ?n) (opt_bytes (Some ?d)) = error_text strerror e"
    unfolding n by (simp add: opt_bytes_def error_text_def min_def msg_def)
  have run: "ref_error strerror b e s = wc_protocol_encode_response b (Some ?d) ?n s"
    unfolding ref_error_def snprintf_error Let_def msg_def [symmetric] by simp
  show ?thesis
    by (rule encode_response_fits [OF assms(1) rd, of s])
       (use that run assms bytes in auto)
qed

lemma reply_is_data:
  "reply_is x ample st r \<Longrightarrow>
   (case st of Inl e \<Rightarrow> error_text strerror e | Inr _ \<Rightarrow> res_bytes r) = reply_data strerror x \<or>
   \<not> ample \<and> (case st of Inl e \<Rightarrow> error_text strerror e | Inr _ \<Rightarrow> res_bytes r) = error_text strerror ENOMEM"
  by (cases st) (auto simp: reply_is_def reply_data_def)

lemma reply_answers:
  assumes "exec_outcome s t a 65535 cmds st r"
  shows "answers strerror (s_popen s) (mem_ample s) t a cmds
    (case st of Inl e \<Rightarrow> error_text strerror e | Inr _ \<Rightarrow> res_bytes r)"
proof (cases "request_command t a")
  case (Inl e)
  with assms show ?thesis by (auto simp: exec_outcome_def answers_def)
next
  case (Inr cmd)
  with assms consider "cmds = []" "st = Inl ENOMEM" "\<not> mem_ample s"
    | k where "cmds = [cmd]" "reply_is (request_reply t 65535 (s_popen s k cmd)) (mem_ample s) st r"
    by (auto simp: exec_outcome_def)
  then show ?thesis
  proof cases
    case 1
    with Inr show ?thesis by (simp add: answers_def)
  next
    case 2
    from reply_is_data [OF 2(2), of strerror] 2(1) Inr show ?thesis by (auto simp: answers_def)
  qed
qed

lemma length_reply_bytes: "length (reply_bytes t out) \<le> length out"
  by (simp add: reply_bytes_def)

lemma exec_outcome_length:
  assumes "exec_outcome s t a 65535 cmds wc_ok r"
  shows "length (res_bytes r) \<le> 65535"
proof -
  obtain cmd k where "request_reply t 65535 (s_popen s k cmd) = Inr (res_bytes r)"
    using assms by (auto simp: exec_outcome_def reply_is_def split: sum.splits)
  then obtain out where "cmd_reply 65535 (s_popen s k cmd) = Inr out" "res_bytes r = reply_bytes t out"
    by (cases "cmd_reply 65535 (s_popen s k cmd)") (auto simp: request_reply_def)
  then show ?thesis
    using length_reply_bytes [of t out] by (auto simp: cmd_reply_def split: popen_outcome.splits if_splits)
qed

lemma result_destroy_frame:
  "sys_frame s (snd (wc_command_result_destroy r s))"
  "s_live (snd (wc_command_result_destroy r s)) = s_live s - res_owned r"
  by (simp_all add: wc_command_result_destroy_def c_free_live res_owned_def)

lemma ref_respond_law:
  assumes b: "buf_wf b" "buf_bytes b = []" "buf_max_size b = 65537"
    and arg: "readable arg n" "unat n \<le> 65535"
  shows "\<exists>st b' s' cmds. ref_respond strerror b t arg n s = Some (st, b', s') \<and> buf_wf b' \<and>
        buf_max_size b' = 65537 \<and> run_frame s s' cmds \<and> cmds_ok t (take (unat n) (opt_bytes arg)) cmds \<and>
        s_live s' = s_live s + buf_owned b' - buf_owned b \<and>
        (st = wc_ok \<and> (\<exists>data. length data \<le> 65535 \<and> buf_bytes b' = response_frame data \<and>
            answers strerror (s_popen s) (mem_ample s) t (take (unat n) (opt_bytes arg)) cmds data)
         \<or> st = Inl ENOMEM \<and> \<not> mem_ample s \<and> buf_bytes b' = [])"
proof -
  let ?a = "take (unat n) (opt_bytes arg)"
  obtain cmds st r s1 where c: "ref_run_command t arg n s = Some (st, r, s1)"
    "run_frame s s1 cmds" "res_wf r" "s_live s1 = s_live s + res_owned r"
    "exec_outcome s t ?a 65535 cmds st r"
    by (rule run_command_spec [OF arg])
  have ok: "cmds_ok t ?a cmds" using reply_answers [OF c(5)] by (rule answers_cmds_ok)
  have ample: "mem_ample s1 = mem_ample s" using c(2) by (rule run_frame_mem_ample)
  show ?thesis
  proof (cases st)
    case (Inl e)
    obtain st' b' s' where e: "ref_error strerror b e s1 = Some (st', b', s')"
      "buf_wf b'" "buf_max_size b' = 65537" "sys_frame s1 s'"
      "s_live s' = s_live s1 + buf_owned b' - buf_owned b"
      "st' = wc_ok \<and> buf_bytes b' = response_frame (error_text strerror e)
       \<or> st' = Inl ENOMEM \<and> buf_bytes b' = [] \<and> \<not> mem_ample s1"
      by (rule error_spec [OF b])
    have r: "r = result_zero" using c(5) Inl by (auto simp: exec_outcome_def reply_is_def split: sum.splits)
    show ?thesis
      using c(1,4) Inl e run_frame_sys [OF c(2) e(4)] ok ample r reply_answers [OF c(5), of strerror]
        length_error_text [of strerror e]
      by (intro exI [of _ st'] exI [of _ b'] exI [of _ s'] exI [of _ cmds])
         (auto simp: ref_respond_def intro!: exI [of _ "error_text strerror e"])
  next
    case (Inr u)
    have st: "st = wc_ok" using Inr by simp
    have len: "unat (res_length r) \<le> 65535"
      using exec_outcome_length [of s t ?a cmds r] c(3,5) st length_take_readable [of "res_data r" "res_length r"]
      by (simp add: res_bytes_def res_wf_def)
    have l0: "unat (buf_length b) = 0" using buf_wf_D(3) [OF b(1)] b(2) by simp
    have room: "2 + unat (res_length r) \<le> unat (buf_max_size b) - unat (buf_length b)"
      using len l0 b(3) by simp
    obtain st' b' s2 where e: "wc_protocol_encode_response b (res_data r) (res_length r) s1 = Some (st', b', s2)"
      "buf_wf b'" "buf_max_size b' = buf_max_size b" "sys_frame s1 s2"
      "s_live s2 = s_live s1 + buf_owned b' - buf_owned b"
      "st' = wc_ok \<and> buf_bytes b' = buf_bytes b @ response_frame (take (unat (res_length r)) (opt_bytes (res_data r)))
       \<or> st' = Inl ENOMEM \<and> buf_bytes b' = buf_bytes b \<and> \<not> mem_ample s1"
      by (rule encode_response_fits [OF b(1) c(3) [unfolded res_wf_def] len room])
    let ?s = "snd (wc_command_result_destroy r s2)"
    have fr: "run_frame s ?s cmds"
      using run_frame_sys [OF c(2) sys_frame_trans [OF e(4) result_destroy_frame(1)]] .
    show ?thesis
      using c(1,4) Inr e fr ok ample b reply_answers [OF c(5), of strerror] result_destroy_frame(2) [of r s2]
        exec_outcome_length [of s t ?a cmds r] c(5) st
      by (intro exI [of _ st'] exI [of _ b'] exI [of _ ?s] exI [of _ cmds])
         (auto simp: ref_respond_def res_bytes_def [symmetric] intro!: exI [of _ "res_bytes r"])
  qed
qed

interpretation ref: responder ref_respond
  by unfold_locales (rule ref_respond_law)

end
