(* ===== verification/WC_Server_UDS.thy ===== *)
theory WC_Server_UDS
  imports WC_Queue WC_Respond WC_Socket
begin

text \<open>
  The single-threaded Unix-domain server of \<^verbatim>\<open>src/src/server_uds.c\<close>: the table of clients,
  reading and parsing of requests into the shared queue, processing of the queue, writing
  of responses, accepting, removal of clients and the poll loop with its shutdown.

  A pointer to a table entry is its index. The answers of the kernel in one iteration of
  the loop are the record \<open>uds_io\<close>: the result of \<open>poll\<close> and, per table entry, the scripts
  of \<open>read\<close> and \<open>send\<close>, and the script of \<open>accept\<close>. The flag \<open>*stop_requested\<close> is read as
  set when the list of iterations ends. Calls of \<open>wc_log\<close> are left out.
\<close>

section \<open>Clients\<close>

abbreviation (input) WC_UDS_MAX_CLIENTS :: nat where "WC_UDS_MAX_CLIENTS \<equiv> 64"
abbreviation (input) WC_UDS_MAX_QUEUED_REQUESTS :: size_t where "WC_UDS_MAX_QUEUED_REQUESTS \<equiv> 256"
abbreviation (input) WC_UDS_READ_SIZE :: size_t where "WC_UDS_READ_SIZE \<equiv> 4096"
abbreviation (input) WC_UDS_INPUT_LIMIT :: size_t where "WC_UDS_INPUT_LIMIT \<equiv> 65535"
abbreviation (input) WC_UDS_OUTPUT_LIMIT :: size_t where "WC_UDS_OUTPUT_LIMIT \<equiv> 65537"

record wc_uds_client =
  uc_fd :: fd
  uc_input :: wc_buffer
  uc_output :: wc_buffer

type_synonym clients = "wc_uds_client list"

definition wc_uds_clients_init :: "clients \<Rightarrow> clients" where
  "wc_uds_clients_init clients = map (\<lambda>c. c\<lparr>uc_fd := - 1\<rparr>) clients"

fun wc_uds_find_client :: "clients \<Rightarrow> fd \<Rightarrow> nat option" where
  "wc_uds_find_client [] client_fd = None"
| "wc_uds_find_client (c # cs) client_fd =
     (if uc_fd c = client_fd then Some 0 else map_option Suc (wc_uds_find_client cs client_fd))"

fun wc_uds_has_free_client_slot :: "clients \<Rightarrow> bool" where
  "wc_uds_has_free_client_slot [] = False"
| "wc_uds_has_free_client_slot (c # cs) =
     (if uc_fd c = - 1 then True else wc_uds_has_free_client_slot cs)"

fun wc_uds_add_client :: "clients \<Rightarrow> fd \<Rightarrow> qsys \<Rightarrow> status \<times> clients \<times> qsys" where
  "wc_uds_add_client [] client_fd s = (Inl EMFILE, [], s)"
| "wc_uds_add_client (c # cs) client_fd s =
     (if uc_fd c \<noteq> - 1 then
        (case wc_uds_add_client cs client_fd s of (st, cs', s') \<Rightarrow> (st, c # cs', s'))
      else case wc_buffer_init WC_UDS_INPUT_LIMIT of
          (Inl e, b) \<Rightarrow> (Inl e, c\<lparr>uc_input := b\<rparr> # cs, s)
        | (Inr _, b) \<Rightarrow>
            (case wc_buffer_init WC_UDS_OUTPUT_LIMIT of
               (Inl e, b2) \<Rightarrow>
                 (let (b1, s1) = wc_buffer_destroy b s in
                  (Inl e, c\<lparr>uc_input := b1, uc_output := b2\<rparr> # cs, s1))
             | (Inr _, b2) \<Rightarrow>
                 (wc_ok, c\<lparr>uc_input := b, uc_output := b2, uc_fd := client_fd\<rparr> # cs, s)))"

definition wc_uds_remove_client ::
  "clients \<Rightarrow> nat option \<Rightarrow> wc_request_queue \<Rightarrow> qsys \<Rightarrow> (clients \<times> wc_request_queue \<times> qsys) option" where
  "wc_uds_remove_client clients client queue s = (case client of
       None \<Rightarrow> Some (clients, queue, s)
     | Some i \<Rightarrow>
         if i \<ge> length clients then None
         else if uc_fd (clients ! i) = - 1 then Some (clients, queue, s)
         else let c = clients ! i; client_fd = uc_fd c in do {
           (_, queue1, s1) \<leftarrow> wc_request_queue_discard_client queue client_fd s;
           let (b1, s2) = wc_buffer_destroy (uc_input c) s1;
               (b2, s3) = wc_buffer_destroy (uc_output c) s2 in
           Some (clients[i := c\<lparr>uc_input := b1, uc_output := b2, uc_fd := - 1\<rparr>], queue1,
                 s_emit (Ev_close client_fd) s3)
         })"

section \<open>The listener\<close>

abbreviation (input) SUN_PATH_SIZE :: nat where "SUN_PATH_SIZE \<equiv> 108"

definition wc_uds_open_listener :: "byte list option \<Rightarrow> listener_env \<Rightarrow> 'n sys \<Rightarrow> (errno + fd) \<times> 'n sys" where
  "wc_uds_open_listener socket_path env s = (case socket_path of
       None \<Rightarrow> (Inl ENAMETOOLONG, s)
     | Some p \<Rightarrow>
         if p = [] \<or> length p \<ge> SUN_PATH_SIZE then (Inl ENAMETOOLONG, s)
         else case le_socket env of
             Inl e \<Rightarrow> (Inl e, s)
           | Inr listener_fd \<Rightarrow>
               (case fst (wc_socket_set_nonblocking (le_flags env) (le_fcntl env)) of
                  Inl saved_errno \<Rightarrow>
                    (Inl saved_errno, s_emit (Ev_close listener_fd) (s_emit (Ev_open listener_fd) s))
                | Inr _ \<Rightarrow>
                    let s1 = s_emit (Ev_unlink p) (s_emit (Ev_open listener_fd) s) in
                    if le_unlink env \<noteq> wc_ok \<and> le_unlink env \<noteq> Inl ENOENT then
                      (Inl (projl (le_unlink env)), s_emit (Ev_close listener_fd) s1)
                    else case (if le_bind env \<noteq> wc_ok then le_bind env else le_listen env) of
                        Inl saved_errno \<Rightarrow>
                          (Inl saved_errno, s_emit (Ev_unlink p) (s_emit (Ev_close listener_fd) s1))
                      | Inr _ \<Rightarrow> (Inr listener_fd, s1)))"

definition live_fds :: "clients \<Rightarrow> fd list" where
  "live_fds clients = map uc_fd (filter (\<lambda>c. uc_fd c \<noteq> - 1) clients)"

fun wc_uds_accept_clients :: "fd \<Rightarrow> clients \<Rightarrow> accept_outcome list \<Rightarrow> qsys \<Rightarrow> clients \<times> qsys" where
  "wc_uds_accept_clients listener_fd clients [] s = (clients, s)"
| "wc_uds_accept_clients listener_fd clients (x # script) s =
     (if \<not> wc_uds_has_free_client_slot clients then (clients, s)
      else case x of
          Accept_error e \<Rightarrow>
            if e = EINTR then wc_uds_accept_clients listener_fd clients script s else (clients, s)
        | Accept_fd pick flags fcntls \<Rightarrow>
            (let client_fd = pick (listener_fd # live_fds clients);
                 s0 = s_emit (Ev_open client_fd) s in
             case fst (wc_socket_set_nonblocking flags fcntls) of
               Inl _ \<Rightarrow>
                 wc_uds_accept_clients listener_fd clients script (s_emit (Ev_close client_fd) s0)
             | Inr _ \<Rightarrow>
                 (case wc_uds_add_client clients client_fd s0 of
                    (Inl _, clients1, s1) \<Rightarrow>
                      wc_uds_accept_clients listener_fd clients1 script (s_emit (Ev_close client_fd) s1)
                  | (Inr _, clients1, s1) \<Rightarrow>
                      wc_uds_accept_clients listener_fd clients1 script s1)))"

section \<open>Reading and writing\<close>

text \<open>The loops below return \<open>None\<close> also when they never end.\<close>

partial_function (option) wc_uds_enqueue_complete_requests ::
  "wc_uds_client \<Rightarrow> wc_request_queue \<Rightarrow> qsys \<Rightarrow> (status \<times> wc_uds_client \<times> wc_request_queue \<times> qsys) option" where
  "wc_uds_enqueue_complete_requests client queue s = do {
     (parse_result, r, k) \<leftarrow>
       wc_protocol_parse_request (buf_data (uc_input client)) (buf_length (uc_input client));
     if parse_result = WC_PARSE_NEED_MORE then Some (wc_ok, client, queue, s)
     else if parse_result = WC_PARSE_INVALID then Some (Inl EPROTO, client, queue, s)
     else do {
       request \<leftarrow> r;
       consumed \<leftarrow> k;
       if q_length queue \<ge> WC_UDS_MAX_QUEUED_REQUESTS then Some (Inl ENOBUFS, client, queue, s)
       else do {
         (st, queue1, s1) \<leftarrow> wc_request_queue_enqueue queue (uc_fd client) (req_type request)
             (map_option (drop (req_argument request)) (buf_data (uc_input client)))
             (req_argument_length request) s;
         if st \<noteq> wc_ok then Some (st, client, queue1, s1)
         else do {
           (st2, b) \<leftarrow> wc_buffer_consume (uc_input client) consumed;
           if st2 \<noteq> wc_ok then Some (st2, client\<lparr>uc_input := b\<rparr>, queue1, s1)
           else wc_uds_enqueue_complete_requests (client\<lparr>uc_input := b\<rparr>) queue1 s1
         }
       }
     }
   }"

declare wc_uds_enqueue_complete_requests.simps [code]

function wc_uds_read_client ::
  "wc_uds_client \<Rightarrow> wc_request_queue \<Rightarrow> read_outcome list \<Rightarrow> qsys \<Rightarrow>
   (status \<times> wc_uds_client \<times> wc_request_queue \<times> qsys) option" where
  "wc_uds_read_client client queue script s =
     (let available = buf_max_size (uc_input client) - buf_length (uc_input client);
          read_size = (if available < WC_UDS_READ_SIZE then available else WC_UDS_READ_SIZE) in
      if read_size = 0 then Some (Inl EMSGSIZE, client, queue, s)
      else case sock_read (uc_fd client) (unat read_size) script s of
          None \<Rightarrow> Some (wc_ok, client, queue, s)
        | Some (Inr bytes, rest, s0) \<Rightarrow>
            if length bytes > 0 then do {
              (st, b, s1) \<leftarrow> wc_buffer_append (uc_input client) (Some bytes) (of_nat (length bytes)) s0;
              if st \<noteq> wc_ok then Some (st, client\<lparr>uc_input := b\<rparr>, queue, s1)
              else do {
                (st2, client2, queue2, s2) \<leftarrow>
                  wc_uds_enqueue_complete_requests (client\<lparr>uc_input := b\<rparr>) queue s1;
                if st2 \<noteq> wc_ok then Some (st2, client2, queue2, s2)
                else wc_uds_read_client client2 queue2 rest s2
              }
            }
            else Some (Inl Errno_stale, client, queue, s0)
        | Some (Inl e, rest, s0) \<Rightarrow>
            if e = EINTR then wc_uds_read_client client queue rest s0
            else if e = EAGAIN \<or> e = EWOULDBLOCK then Some (wc_ok, client, queue, s0)
            else Some (Inl e, client, queue, s0))"
  by pat_completeness auto
termination
  by (relation "measure (\<lambda>(c, q, script, s). script_size script)")
     (auto dest!: sock_read_size simp: unat_gt_0)

declare wc_uds_read_client.simps [simp del]

fun wc_uds_write_client :: "wc_uds_client \<Rightarrow> send_outcome list \<Rightarrow> qsys \<Rightarrow> (status \<times> wc_uds_client \<times> qsys) option" where
  "wc_uds_write_client client [] s = Some (wc_ok, client, s)"
| "wc_uds_write_client client (x # script) s =
     (if buf_length (uc_output client) > 0 then do {
        bytes \<leftarrow> c_read_block (buf_data (uc_output client)) (unat (buf_length (uc_output client)));
        case sock_send (uc_fd client) bytes x s of
          (Inr bytes_written, s1) \<Rightarrow>
            if bytes_written > 0 then do {
              (st, b) \<leftarrow> wc_buffer_consume (uc_output client) (of_nat bytes_written);
              if st \<noteq> wc_ok then Some (st, client\<lparr>uc_output := b\<rparr>, s1)
              else wc_uds_write_client (client\<lparr>uc_output := b\<rparr>) script s1
            }
            else Some (Inl Errno_stale, client, s1)
        | (Inl e, s1) \<Rightarrow>
            if e = EINTR then wc_uds_write_client client script s1
            else if e = EAGAIN \<or> e = EWOULDBLOCK then Some (wc_ok, client, s1)
            else Some (Inl e, client, s1)
      }
      else Some (wc_ok, client, s))"

section \<open>Answering requests\<close>

definition wc_uds_run_command :: "wc_queued_request \<Rightarrow> qsys \<Rightarrow> (status \<times> wc_command_result \<times> qsys) option" where
  "wc_uds_run_command request s =
     (if qr_type request = WC_REQUEST_LS then
        wc_command_ls (Some (qr_argument request)) (qr_argument_length request) UINT16_MAX s
      else if qr_type request = WC_REQUEST_PWD then
        (if qr_argument_length request \<noteq> 0 then Some (Inl EINVAL, result_zero, s)
         else wc_command_pwd UINT16_MAX s)
      else if qr_type request = WC_REQUEST_CAT then
        wc_command_cat (Some (qr_argument request)) (qr_argument_length request) UINT16_MAX s
      else Some (Inl EINVAL, result_zero, s))"

definition wc_uds_encode_command_response ::
  "(errno \<Rightarrow> byte list) \<Rightarrow> wc_uds_client \<Rightarrow> wc_queued_request \<Rightarrow> qsys \<Rightarrow>
   (status \<times> wc_uds_client \<times> qsys) option" where
  "wc_uds_encode_command_response strerror client request s = do {
     (st, result, s1) \<leftarrow> wc_uds_run_command request s;
     case st of
       Inr _ \<Rightarrow> do {
         (encode_result, b, s2) \<leftarrow>
           wc_protocol_encode_response (uc_output client) (res_data result) (res_length result) s1;
         Some (encode_result, client\<lparr>uc_output := b\<rparr>, snd (wc_command_result_destroy result s2))
       }
     | Inl command_errno \<Rightarrow>
         (let msg = c_str ''ERROR: '' @ strerror command_errno; text_length = int (length msg) in do {
            error_text \<leftarrow> c_snprintf (c_local 256 s1) 256 msg;
            if text_length < 0 then Some (Inl EIO, client, s1)
            else let n = (if nat text_length \<ge> 256 then 255 else nat text_length) in do {
              (encode_result, b, s2) \<leftarrow>
                wc_protocol_encode_response (uc_output client) (Some error_text) (of_nat n) s1;
              Some (encode_result, client\<lparr>uc_output := b\<rparr>, s2)
            }
          })
   }"

partial_function (option) wc_uds_process_queue ::
  "(errno \<Rightarrow> byte list) \<Rightarrow> clients \<Rightarrow> wc_request_queue \<Rightarrow> qsys \<Rightarrow> (clients \<times> wc_request_queue \<times> qsys) option" where
  "wc_uds_process_queue strerror clients queue s = (case wc_request_queue_peek queue of
       None \<Rightarrow> Some (clients, queue, s)
     | Some p \<Rightarrow> do {
         first \<leftarrow> s_nodes s p;
         case wc_uds_find_client clients (qr_client_fd first) of
           None \<Rightarrow> do {
             (r, queue1, s1) \<leftarrow> wc_request_queue_dequeue queue s;
             case r of
               Inr request \<Rightarrow> do {
                 s2 \<leftarrow> wc_queued_request_destroy (Some request) s1;
                 wc_uds_process_queue strerror clients queue1 s2
               }
             | Inl _ \<Rightarrow> wc_uds_process_queue strerror clients queue1 s1
           }
         | Some i \<Rightarrow>
             if buf_length (uc_output (clients ! i)) \<noteq> 0 then Some (clients, queue, s)
             else do {
               (r, queue1, s1) \<leftarrow> wc_request_queue_dequeue queue s;
               case r of
                 Inl _ \<Rightarrow> Some (clients, queue1, s1)
               | Inr request \<Rightarrow> do {
                   node \<leftarrow> s_nodes s1 request;
                   (st, client, s2) \<leftarrow> wc_uds_encode_command_response strerror (clients ! i) node s1;
                   s3 \<leftarrow> wc_queued_request_destroy (Some request) s2;
                   if st \<noteq> wc_ok then do {
                     (clients2, queue2, s4) \<leftarrow>
                       wc_uds_remove_client (clients[i := client]) (Some i) queue1 s3;
                     wc_uds_process_queue strerror clients2 queue2 s4
                   }
                   else wc_uds_process_queue strerror (clients[i := client]) queue1 s3
                 }
             }
       })"

declare wc_uds_process_queue.simps [code]

section \<open>The event loop\<close>

abbreviation (input) POLLIN :: uint16 where "POLLIN \<equiv> 1"
abbreviation (input) POLLOUT :: uint16 where "POLLOUT \<equiv> 4"
abbreviation (input) POLLERR :: uint16 where "POLLERR \<equiv> 8"
abbreviation (input) POLLHUP :: uint16 where "POLLHUP \<equiv> 16"
abbreviation (input) POLLNVAL :: uint16 where "POLLNVAL \<equiv> 32"

text \<open>The descriptors with their requested events, and the table index of each but the first.\<close>

definition wc_uds_build_poll_list :: "fd \<Rightarrow> clients \<Rightarrow> (fd \<times> uint16) list \<times> nat list" where
  "wc_uds_build_poll_list listener_fd clients =
     (let client_indexes = filter (\<lambda>i. uc_fd (clients ! i) \<noteq> - 1) [0..<length clients] in
      ((listener_fd, if wc_uds_has_free_client_slot clients then POLLIN else 0) #
       map (\<lambda>i. (uc_fd (clients ! i),
                 if buf_length (uc_output (clients ! i)) > 0 then POLLIN OR POLLOUT else POLLIN))
         client_indexes,
       client_indexes))"

text \<open>
  The kernel's answers in one iteration. \<open>io_poll\<close> is the error of \<open>poll\<close> or, for the list of
  descriptors it is given, the returned events of the listener and of each client in order.
\<close>

record uds_io =
  io_poll :: "(fd \<times> uint16) list \<Rightarrow> errno + uint16 \<times> (nat \<Rightarrow> uint16)"
  io_reads :: "nat \<Rightarrow> read_outcome list"
  io_sends :: "nat \<Rightarrow> send_outcome list"
  io_accepts :: "accept_outcome list"

text \<open>The body of the loop over the clients' descriptors.\<close>

definition uds_handle_client ::
  "nat \<Rightarrow> uint16 \<Rightarrow> read_outcome list \<Rightarrow> send_outcome list \<Rightarrow> clients \<Rightarrow> wc_request_queue \<Rightarrow> qsys \<Rightarrow>
   (clients \<times> wc_request_queue \<times> qsys) option" where
  "uds_handle_client i events reads sends clients queue s =
     (if uc_fd (clients ! i) = - 1 then Some (clients, queue, s)
      else do {
        (st1, client1, queue1, s1) \<leftarrow> (if events AND POLLIN \<noteq> 0
            then wc_uds_read_client (clients ! i) queue reads s
            else Some (wc_ok, clients ! i, queue, s));
        if st1 \<noteq> wc_ok then wc_uds_remove_client (clients[i := client1]) (Some i) queue1 s1
        else do {
          (st2, client2, s2) \<leftarrow> (if events AND POLLOUT \<noteq> 0
              then wc_uds_write_client client1 sends s1
              else Some (wc_ok, client1, s1));
          if st2 \<noteq> wc_ok then wc_uds_remove_client (clients[i := client2]) (Some i) queue1 s2
          else if events AND (POLLERR OR POLLHUP OR POLLNVAL) \<noteq> 0
          then wc_uds_remove_client (clients[i := client2]) (Some i) queue1 s2
          else Some (clients[i := client2], queue1, s2)
        }
      })"

fun uds_handle_clients ::
  "nat list \<Rightarrow> (nat \<Rightarrow> uint16) \<Rightarrow> (nat \<Rightarrow> read_outcome list) \<Rightarrow> (nat \<Rightarrow> send_outcome list) \<Rightarrow>
   clients \<Rightarrow> wc_request_queue \<Rightarrow> qsys \<Rightarrow> (clients \<times> wc_request_queue \<times> qsys) option" where
  "uds_handle_clients [] revents reads sends clients queue s = Some (clients, queue, s)"
| "uds_handle_clients (i # is) revents reads sends clients queue s = do {
     (clients1, queue1, s1) \<leftarrow> uds_handle_client i (revents i) (reads i) (sends i) clients queue s;
     uds_handle_clients is revents reads sends clients1 queue1 s1
   }"

text \<open>One iteration; the status is an error when the loop is left by \<open>break\<close>.\<close>

definition uds_iteration ::
  "(errno \<Rightarrow> byte list) \<Rightarrow> fd \<Rightarrow> uds_io \<Rightarrow> clients \<Rightarrow> wc_request_queue \<Rightarrow> qsys \<Rightarrow>
   (status \<times> clients \<times> wc_request_queue \<times> qsys) option" where
  "uds_iteration strerror listener_fd io clients queue s = do {
     (clients1, queue1, s1) \<leftarrow> wc_uds_process_queue strerror clients queue s;
     let (descriptors, client_indexes) = wc_uds_build_poll_list listener_fd clients1 in
     case io_poll io descriptors of
       Inl e \<Rightarrow> if e = EINTR then Some (wc_ok, clients1, queue1, s1) else Some (Inl e, clients1, queue1, s1)
     | Inr (listener_revents, revents) \<Rightarrow>
         if listener_revents AND (POLLERR OR POLLHUP OR POLLNVAL) \<noteq> 0
         then Some (Inl EIO, clients1, queue1, s1)
         else do {
           (clients2, queue2, s2) \<leftarrow>
             uds_handle_clients client_indexes revents (io_reads io) (io_sends io) clients1 queue1 s1;
           if listener_revents AND POLLIN \<noteq> 0
           then (case wc_uds_accept_clients listener_fd clients2 (io_accepts io) s2 of
                   (clients3, s3) \<Rightarrow> Some (wc_ok, clients3, queue2, s3))
           else Some (wc_ok, clients2, queue2, s2)
         }
   }"

fun uds_loop ::
  "(errno \<Rightarrow> byte list) \<Rightarrow> fd \<Rightarrow> uds_io list \<Rightarrow> clients \<Rightarrow> wc_request_queue \<Rightarrow> qsys \<Rightarrow>
   (status \<times> clients \<times> wc_request_queue \<times> qsys) option" where
  "uds_loop strerror listener_fd [] clients queue s = Some (wc_ok, clients, queue, s)"
| "uds_loop strerror listener_fd (io # ios) clients queue s = do {
     (st, clients1, queue1, s1) \<leftarrow> uds_iteration strerror listener_fd io clients queue s;
     if st \<noteq> wc_ok then Some (st, clients1, queue1, s1)
     else uds_loop strerror listener_fd ios clients1 queue1 s1
   }"

fun close_loop :: "nat list \<Rightarrow> clients \<Rightarrow> wc_request_queue \<Rightarrow> qsys \<Rightarrow>
    (clients \<times> wc_request_queue \<times> qsys) option" where
  "close_loop [] clients queue s = Some (clients, queue, s)"
| "close_loop (i # is) clients queue s = do {
     (clients1, queue1, s1) \<leftarrow> wc_uds_remove_client clients (Some i) queue s;
     close_loop is clients1 queue1 s1
   }"

definition wc_uds_close_all_clients ::
  "clients \<Rightarrow> wc_request_queue \<Rightarrow> qsys \<Rightarrow> (clients \<times> wc_request_queue \<times> qsys) option" where
  "wc_uds_close_all_clients clients queue s = close_loop [0..<WC_UDS_MAX_CLIENTS] clients queue s"

text \<open>
  \<open>stop\<close> says whether the flag pointer is non-null; \<open>table\<close> is the uninitialised table;
  \<open>close_st\<close> and \<open>unlink_st\<close> are the results of the final \<open>close\<close> and \<open>unlink\<close>.
\<close>

definition wc_server_uds_run ::
  "(errno \<Rightarrow> byte list) \<Rightarrow> byte list option \<Rightarrow> bool \<Rightarrow> clients \<Rightarrow> listener_env \<Rightarrow> uds_io list \<Rightarrow> status \<Rightarrow> status \<Rightarrow>
   qsys \<Rightarrow> (status \<times> qsys) option" where
  "wc_server_uds_run strerror socket_path stop table env ios close_st unlink_st s =
     (if \<not> stop then Some (Inl EINVAL, s)
      else let clients = wc_uds_clients_init table; (st0, queue) = wc_request_queue_init in
        if st0 \<noteq> wc_ok then Some (st0, s)
        else case wc_uds_open_listener socket_path env s of
            (Inl e, s1) \<Rightarrow> Some (Inl e, s1)
          | (Inr listener_fd, s1) \<Rightarrow> do {
              (result, clients2, queue2, s2) \<leftarrow> uds_loop strerror listener_fd ios clients queue s1;
              (clients3, queue3, s3) \<leftarrow> wc_uds_close_all_clients clients2 queue2 s2;
              (queue4, s4) \<leftarrow> wc_request_queue_clear queue3 s3;
              let s5 = s_emit (Ev_close listener_fd) s4;
                  result1 = (if close_st \<noteq> wc_ok \<and> result = wc_ok then close_st else result);
                  s6 = s_emit (Ev_unlink (the socket_path)) s5;
                  result2 = (if unlink_st \<noteq> wc_ok \<and> unlink_st \<noteq> Inl ENOENT \<and> result1 = wc_ok
                             then unlink_st else result1) in
              Some (result2, s6)
            })"

end
