(* ===== verification/WC_History.thy ===== *)
theory WC_History
  imports WC_Respond WC_Socket "HOL-Library.Sublist"
begin

text \<open>
  Sessions: what a server may have sent on a connection, given what it received there. The
  definitions and lemmas are shared by the invariants of the single-threaded server and of the
  worker threads of the other two.
\<close>

section \<open>Definitions\<close>

text \<open>The command lines that well-formed requests ask for.\<close>

definition safe_command :: "byte list \<Rightarrow> bool" where
  "safe_command cmd \<longleftrightarrow> (\<exists>t a. request_command t a = Inr cmd)"

text \<open>Answered requests: type, argument and the reply.\<close>

type_synonym answer = "wc_request_type \<times> byte list \<times> byte list"

abbreviation asked :: "answer \<Rightarrow> wc_request_type \<times> byte list" where
  "asked x \<equiv> (fst x, fst (snd x))"

definition answered_ok :: "(errno \<Rightarrow> byte list) \<Rightarrow> 'n sys \<Rightarrow> answer \<Rightarrow> bool" where
  "answered_ok strerror s x \<longleftrightarrow> length (snd (snd x)) \<le> 65535 \<and>
     (\<exists>cmds. answers strerror (s_popen s) (mem_ample s) (fst x) (fst (snd x)) cmds (snd (snd x)))"

definition session_is :: "(errno \<Rightarrow> byte list) \<Rightarrow> 'n sys \<Rightarrow> fd \<Rightarrow> (wc_request_type \<times> byte list) list \<Rightarrow>
    byte list \<Rightarrow> byte list \<Rightarrow> answer list \<Rightarrow> bool" where
  "session_is strerror s f queued inp outp ans \<longleftrightarrow>
     drain request_spec (session_recv f (s_trace s)) = (map asked ans @ queued, inp, True) \<and>
     session_sent f (s_trace s) @ outp = concat (map (\<lambda>x. response_frame (snd (snd x))) ans) \<and>
     list_all (answered_ok strerror s) ans"

text \<open>
  The same for a descriptor that may be closed: what was sent in its last session is a prefix of
  the responses to a prefix of the requests received.
\<close>

definition history_ok :: "(errno \<Rightarrow> byte list) \<Rightarrow> 'n sys \<Rightarrow> fd \<Rightarrow> bool" where
  "history_ok strerror s f \<longleftrightarrow> (\<exists>ans.
     prefix (session_sent f (s_trace s)) (concat (map (\<lambda>x. response_frame (snd (snd x))) ans)) \<and>
     prefix (map asked ans) (fst (drain request_spec (session_recv f (s_trace s)))) \<and>
     list_all (answered_ok strerror s) ans)"

text \<open>Events of one connection: traffic on its descriptor and permitted commands.\<close>

definition evs_of :: "fd \<Rightarrow> event list \<Rightarrow> bool" where
  "evs_of f evs \<longleftrightarrow> (\<forall>e \<in> set evs. (\<exists>bs. e = Ev_send f bs \<or> e = Ev_recv f bs) \<or>
     (\<exists>cmd. e = Ev_run cmd \<and> safe_command cmd))"

section \<open>Lemmas\<close>

text \<open>The request at the head of a well-formed input buffer, as the code passes it on.\<close>

lemma head_request:
  assumes wf: "buf_wf b" and fr: "request_spec (buf_bytes b) = Frame (t, a) k"
  shows "readable (map_option (drop 6) (buf_data b)) (of_nat (length a))"
    and "take (unat (of_nat (length a) :: size_t)) (opt_bytes (map_option (drop 6) (buf_data b))) = a"
proof -
  note D = request_spec_FrameD [OF fr]
  have l: "unat (of_nat (length a) :: size_t) = length a" using D(4) by simp
  have ne: "6 + length a \<le> length (buf_bytes b)" using D(1,2) by simp
  obtain d where d: "buf_data b = Some d"
    using ne by (cases "buf_data b") (auto simp: buf_bytes_def buf_block_def)
  have b: "buf_bytes b = take (unat (buf_length b)) d" by (simp add: buf_bytes_def buf_block_def d)
  have u: "6 + length a \<le> unat (buf_length b)" "unat (buf_length b) \<le> length d"
    using ne buf_wf_D(2,3) [OF wf] d by (simp_all add: buf_block_def)
  show "readable (map_option (drop 6) (buf_data b)) (of_nat (length a))"
    using u l d by (simp add: readable_def)
  have "take (length a) (drop 6 d) = take (length a) (drop 6 (buf_bytes b))"
    unfolding b using u by (simp add: drop_take)
  also note D(7) [symmetric]
  finally show "take (unat (of_nat (length a) :: size_t)) (opt_bytes (map_option (drop 6) (buf_data b))) = a"
    using l d by (simp add: opt_bytes_def)
qed

text \<open>Parsing a longer sequence continues after the requests already found.\<close>

lemma drain_continue:
  assumes "drain request_spec xs = (ms, r, ok)"
  shows "ok \<Longrightarrow> drain request_spec (r @ ys) = (ms', r', ok') \<Longrightarrow>
           drain request_spec (xs @ ys) = (ms @ ms', r', ok')"
    and "\<not> ok \<Longrightarrow> drain request_spec (xs @ ys) = (ms, r @ ys, False)"
    and "\<exists>ms'. fst (drain request_spec (xs @ ys)) = ms @ ms'"
  using req.drain_append [OF assms, of ys] by (auto split: prod.splits)

lemma session_more:
  "session_is strerror s f queued inp outp ans \<Longrightarrow> request_spec inp = More"
  using req.drain_rest by (auto simp: session_is_def)

text \<open>Events that do not concern a descriptor leave its session alone.\<close>

lemma answered_ok_effect: "effect s s' evs \<Longrightarrow> answered_ok strerror s' = answered_ok strerror s"
  by (rule ext) (simp add: answered_ok_def effect_mem_ample effect_popen)

lemma session_keep:
  assumes "effect s s' evs" "Ev_open f \<notin> set evs" "sent_to f evs = []" "received_from f evs = []"
  shows "session_is strerror s' f = session_is strerror s f"
  using session_append [OF assms(2), of "s_trace s"] assms(3,4)
  by (simp add: session_is_def fun_eq_iff effect_trace [OF assms(1)] answered_ok_effect [OF assms(1)])

lemma drain_prefix: "prefix (fst (drain request_spec xs)) (fst (drain request_spec (xs @ ys)))"
proof -
  obtain ms r ok where "drain request_spec xs = (ms, r, ok)" by (metis prod_cases3)
  from req.drain_append [OF this, of ys] this show ?thesis by (auto split: prod.splits)
qed

lemma history_keep:
  assumes "history_ok strerror s f" "effect s s' evs" "Ev_open f \<notin> set evs" "sent_to f evs = []"
  shows "history_ok strerror s' f"
proof -
  let ?sent = "\<lambda>s. session_sent f (s_trace s)" and ?recv = "\<lambda>s. session_recv f (s_trace s)"
  have sent: "?sent s' = ?sent s" and recv: "?recv s' = ?recv s @ received_from f evs"
    by (simp_all add: effect_trace [OF assms(2)] session_append [OF assms(3)] assms(4))
  obtain ans where ans: "prefix (?sent s) (concat (map (\<lambda>x. response_frame (snd (snd x))) ans))"
    "prefix (map asked ans) (fst (drain request_spec (?recv s)))" "list_all (answered_ok strerror s) ans"
    using assms(1) unfolding history_ok_def by blast
  have "prefix (map asked ans) (fst (drain request_spec (?recv s')))"
    unfolding recv by (rule prefix_order.order_trans [OF ans(2) drain_prefix])
  with ans(1,3) show ?thesis
    unfolding history_ok_def sent answered_ok_effect [OF assms(2)] by blast
qed

lemma history_session:
  assumes "session_is strerror s f queued inp outp ans"
  shows "history_ok strerror s f"
  using assms unfolding history_ok_def session_is_def
  by (intro exI [of _ ans]) (auto intro: prefixI [OF sym])

lemma evs_of_simps [simp]:
  "evs_of f []" "evs_of f (xs @ ys) \<longleftrightarrow> evs_of f xs \<and> evs_of f ys"
  "evs_of f (map (Ev_send f) bss)" "evs_of f (map (Ev_recv f) bss)"
  by (auto simp: evs_of_def)

lemma evs_of_runs: "cmds_ok t a cmds \<Longrightarrow> evs_of f (map Ev_run cmds)"
  unfolding evs_of_def cmds_ok_def safe_command_def by fastforce

lemma evs_ofD:
  assumes "evs_of f evs"
  shows "Ev_open g \<notin> set evs" "g \<noteq> f \<Longrightarrow> sent_to g evs = []" "g \<noteq> f \<Longrightarrow> received_from g evs = []"
    and "f \<in> S \<Longrightarrow> fd_run S evs = Some S" "Ev_run cmd \<in> set evs \<Longrightarrow> safe_command cmd"
proof -
  show "Ev_open g \<notin> set evs" "Ev_run cmd \<in> set evs \<Longrightarrow> safe_command cmd"
    using assms by (auto simp: evs_of_def)
  show "g \<noteq> f \<Longrightarrow> sent_to g evs = []" "g \<noteq> f \<Longrightarrow> received_from g evs = []"
    using assms by (auto simp: evs_of_def sent_to_def received_from_def)
  show "f \<in> S \<Longrightarrow> fd_run S evs = Some S"
    using assms by (induction evs) (auto simp: evs_of_def)
qed

text \<open>A descriptor that is opened now has an empty session; those of the others are unchanged.\<close>

lemma session_other:
  assumes "effect s s' evs" "set evs \<subseteq> {Ev_open f, Ev_close f}" "g \<noteq> f"
  shows "session_is strerror s' g = session_is strerror s g"
proof (rule session_keep [OF assms(1)])
  show "Ev_open g \<notin> set evs" using assms(2,3) by auto
  show "sent_to g evs = []" "received_from g evs = []"
    using assms(2) by (auto simp: sent_to_def received_from_def)
qed

lemma session_fresh: "session_is strerror (s_emit (Ev_open f) s) f [] [] [] []"
  using req.drain_More [of "[]"] by (simp add: session_is_def request_spec_def)

lemma history_open:
  assumes "history_ok strerror s g"
  shows "history_ok strerror (s_emit (Ev_open f) s) g"
proof (cases "g = f")
  case True
  then show ?thesis using history_session [OF session_fresh] by simp
next
  case False
  then show ?thesis by (intro history_keep [OF assms effect_emit]) simp_all
qed

lemma history_quiet:
  assumes "\<forall>e \<in> set (s_trace s). ev_sent f e = []"
  shows "history_ok strerror s f"
proof -
  have "session_sent f tr = []" if "\<forall>e \<in> set tr. ev_sent f e = []" for tr
    using that unfolding session_sent_def by (induction tr rule: rev_induct) auto
  then have "session_sent f (s_trace s) = []" using assms by blast
  then show ?thesis unfolding history_ok_def by (intro exI [of _ "[]"]) simp
qed

end
