(* ===== verification/WC_UDS_Handlers.thy ===== *)
theory WC_UDS_Handlers
  imports WC_Server_UDS WC_History
begin

text \<open>
  What each handler of the single-threaded server does to one client, the queue and the
  trace: parsing of buffered requests, reading, writing, answering and removal. The
  lemmas give for every handler that it returns, its effect on the queue's requests and
  on the bytes of the buffers, and the events it causes.
\<close>

section \<open>One client\<close>

definition client_wf :: "wc_uds_client \<Rightarrow> bool" where
  "client_wf c \<longleftrightarrow> 0 \<le> uc_fd c \<and> buf_wf (uc_input c) \<and> buf_max_size (uc_input c) = 65535 \<and>
     buf_wf (uc_output c) \<and> buf_max_size (uc_output c) = 65537"

abbreviation in_bytes :: "wc_uds_client \<Rightarrow> byte list" where
  "in_bytes c \<equiv> buf_bytes (uc_input c)"

abbreviation out_bytes :: "wc_uds_client \<Rightarrow> byte list" where
  "out_bytes c \<equiv> buf_bytes (uc_output c)"

definition owned :: "wc_uds_client \<Rightarrow> int" where
  "owned c = (if uc_fd c = - 1 then 0 else buf_owned (uc_input c) + buf_owned (uc_output c))"

text \<open>The entries a client's parsed requests become.\<close>

definition entries_of :: "fd \<Rightarrow> (int \<times> byte list) list \<Rightarrow> entry list" where
  "entries_of f ms = map (\<lambda>(t, a). (f, t, a)) ms"

lemma entries_of_simps [simp]:
  "entries_of f [] = []" "entries_of f ((t, a) # ms) = (f, t, a) # entries_of f ms"
  "entries_of f (ms @ ns) = entries_of f ms @ entries_of f ns" "length (entries_of f ms) = length ms"
  by (simp_all add: entries_of_def)

section \<open>Parsing of buffered requests\<close>

text \<open>How a parsing pass over \<open>xs\<close> queued requests can end.\<close>

definition parse_end :: "bool \<Rightarrow> nat \<Rightarrow> (int \<times> byte list) list \<times> byte list \<times> bool \<Rightarrow> status \<Rightarrow> nat \<Rightarrow> byte list \<Rightarrow> bool" where
  "parse_end ample len d st j rest \<longleftrightarrow> (case d of (ms, r, ok) \<Rightarrow>
       j \<le> length ms \<and>
       (st = wc_ok \<and> ok \<and> j = length ms \<and> rest = r
        \<or> st = Inl EPROTO \<and> \<not> ok
        \<or> st = Inl ENOBUFS \<and> j < length ms \<and> 256 \<le> len + j
        \<or> st = Inl ENOMEM \<and> \<not> ample))"

lemma enqueue_complete_step:
  assumes "client_wf c" "queue_holds q s xs" "length xs < 256"
    and fr: "request_spec (in_bytes c) = Frame (t, a) k"
  obtains
    (nomem) s' where "wc_uds_enqueue_complete_requests c q s = Some (Inl ENOMEM, c, q, s')"
      "queue_holds q s' xs" "effect s s' []" "s_live s' = s_live s" "\<not> mem_ample s"
  | (more) b q' s' where "wc_uds_enqueue_complete_requests c q s =
        wc_uds_enqueue_complete_requests (c\<lparr>uc_input := b\<rparr>) q' s'"
      "client_wf (c\<lparr>uc_input := b\<rparr>)" "buf_bytes b = drop k (in_bytes c)"
      "buf_owned b = buf_owned (uc_input c)" "queue_holds q' s' (xs @ [(uc_fd c, t, a)])"
      "effect s s' []" "s_live s' = s_live s"
proof -
  let ?i = "uc_input c"
  let ?arg = "map_option (drop 6) (buf_data ?i)" and ?n = "of_nat (length a) :: size_t"
  have wf: "buf_wf ?i" "buf_max_size ?i = 65535" using assms(1) by (auto simp: client_wf_def)
  note D = request_spec_FrameD [OF fr]
  have parse: "wc_protocol_parse_request (buf_data ?i) (buf_length ?i) =
      Some (WC_PARSE_COMPLETE, Some \<lparr>req_type = t, req_argument = 6, req_argument_length = ?n,
        req_message_length = of_nat k\<rparr>, Some (of_nat k))"
    using req.parse_buffer [OF wf(1)] fr by (simp add: request_out_def)
  have ql: "\<not> q_length q \<ge> 256"
    using queue_holds_length [OF assms(2)] assms(3) by (simp add: word_le_nat_alt)
  have n: "unat ?n \<le> 65535" "0 \<le> uc_fd c" "length xs < 2 ^ 64 - 1"
    using D(4) assms(1,3) by (auto simp: client_wf_def)
  have unf: "wc_uds_enqueue_complete_requests c q s =
      (do { (st, queue1, s1) \<leftarrow> wc_request_queue_enqueue q (uc_fd c) t ?arg ?n s;
            if st \<noteq> wc_ok then Some (st, c, queue1, s1)
            else do {
              (st2, b) \<leftarrow> wc_buffer_consume ?i (of_nat k);
              if st2 \<noteq> wc_ok then Some (st2, c\<lparr>uc_input := b\<rparr>, queue1, s1)
              else wc_uds_enqueue_complete_requests (c\<lparr>uc_input := b\<rparr>) queue1 s1 } })"
    by (subst wc_uds_enqueue_complete_requests.simps) (simp add: parse ql)
  from assms(2) n(2) D(5) head_request(1) [OF wf(1) fr] n(1,3) show ?thesis
  proof (cases rule: enqueue_holds)
    case (refused s')
    then show ?thesis
      by (intro nomem [of s']) (auto simp: unf queue_frame_effect queue_frame_def)
  next
    case (added q' s')
    have "unat (of_nat k :: size_t) = k" using D(3) by simp
    then obtain b where b: "wc_buffer_consume ?i (of_nat k) = Some (wc_ok, b)" "buf_wf b"
      "buf_bytes b = drop k (in_bytes c)" "buf_max_size b = buf_max_size ?i" "buf_owned b = buf_owned ?i"
      using consume_spec [OF wf(1), of "of_nat k"] D(2) by auto
    show ?thesis
      using added b assms(1) head_request(2) [OF wf(1) fr]
      by (intro more [of b q' s'])
         (auto simp: unf client_wf_def queue_frame_effect queue_frame_def)
  qed
qed

text \<open>The parsing loop stops: no complete request, a malformed one, or a full queue.\<close>

lemma enqueue_complete_stop:
  assumes "client_wf c" "queue_holds q s xs" "length xs \<le> 256"
    and "request_spec (in_bytes c) = More \<and> st = wc_ok \<or> request_spec (in_bytes c) = Bad \<and> st = Inl EPROTO \<or>
      (\<exists>t a k. request_spec (in_bytes c) = Frame (t, a) k) \<and> \<not> length xs < 256 \<and> st = Inl ENOBUFS"
  shows "wc_uds_enqueue_complete_requests c q s = Some (st, c, q, s)"
    "parse_end (mem_ample s) (length xs) (drain request_spec (in_bytes c)) st 0 (in_bytes c)"
proof -
  have wf: "buf_wf (uc_input c)" using assms(1) by (simp add: client_wf_def)
  have full: "\<not> length xs < 256 \<Longrightarrow> q_length q \<ge> 256"
    using queue_holds_length [OF assms(2)] by (simp add: word_le_nat_alt)
  show "wc_uds_enqueue_complete_requests c q s = Some (st, c, q, s)"
    using assms(4) full req.parse_buffer [OF wf]
    by (subst wc_uds_enqueue_complete_requests.simps) (auto simp: request_out_def)
  show "parse_end (mem_ample s) (length xs) (drain request_spec (in_bytes c)) st 0 (in_bytes c)"
    using assms(3,4) by (auto simp: req.drain_More req.drain_Bad req.drain_Frame parse_end_def split: prod.splits)
qed

lemma enqueue_complete_spec:
  assumes "client_wf c" "queue_holds q s xs" "length xs \<le> 256"
  shows "\<exists>st c' q' s' j. wc_uds_enqueue_complete_requests c q s = Some (st, c', q', s') \<and>
     client_wf c' \<and> uc_fd c' = uc_fd c \<and> uc_output c' = uc_output c \<and>
     queue_holds q' s' (xs @ entries_of (uc_fd c) (take j (fst (drain request_spec (in_bytes c))))) \<and>
     length xs + j \<le> 256 \<and> effect s s' [] \<and> s_live s' = s_live s \<and> owned c' = owned c \<and>
     parse_end (mem_ample s) (length xs) (drain request_spec (in_bytes c)) st j (in_bytes c')"
  using assms
proof (induction "length (in_bytes c)" arbitrary: c q s xs rule: less_induct)
  case less
  show ?case
  proof (cases "\<exists>t a k. request_spec (in_bytes c) = Frame (t, a) k \<and> length xs < 256")
    case False
    then obtain st where "request_spec (in_bytes c) = More \<and> st = wc_ok \<or> request_spec (in_bytes c) = Bad \<and> st = Inl EPROTO \<or>
      (\<exists>t a k. request_spec (in_bytes c) = Frame (t, a) k) \<and> \<not> length xs < 256 \<and> st = Inl ENOBUFS"
      by (cases "request_spec (in_bytes c)") auto
    from enqueue_complete_stop [OF less.prems this] show ?thesis
      using less.prems by (intro exI [of _ st] exI [of _ c] exI [of _ q] exI [of _ s] exI [of _ 0]) simp
  next
    case True
    then obtain t a k where Frame: "request_spec (in_bytes c) = Frame (t, a) k" and room: "length xs < 256" by blast
    note D = request_spec_FrameD [OF Frame]
    obtain ms r ok where d: "drain request_spec (drop k (in_bytes c)) = (ms, r, ok)" by (metis prod_cases3)
    then have dc: "drain request_spec (in_bytes c) = ((t, a) # ms, r, ok)" using req.drain_Frame [OF Frame] by simp
    from less.prems(1,2) room Frame show ?thesis
    proof (cases rule: enqueue_complete_step)
      case (nomem s')
      then show ?thesis
        using less.prems dc
        by (intro exI [of _ "Inl ENOMEM"] exI [of _ c] exI [of _ q] exI [of _ s'] exI [of _ 0])
           (simp add: parse_end_def)
    next
      case (more b q1 s1)
      have "length (in_bytes (c\<lparr>uc_input := b\<rparr>)) < length (in_bytes c)"
        using more(3) D(1,2) by simp
      from less.hyps [OF this more(2,5)] room
      obtain st c' q' s' j where IH:
        "wc_uds_enqueue_complete_requests (c\<lparr>uc_input := b\<rparr>) q1 s1 = Some (st, c', q', s')"
        "client_wf c'" "uc_fd c' = uc_fd c" "uc_output c' = uc_output c"
        "queue_holds q' s' ((xs @ [(uc_fd c, t, a)]) @ entries_of (uc_fd c) (take j ms))"
        "length xs + Suc j \<le> 256" "effect s1 s' []" "s_live s' = s_live s1"
        "owned c' = owned (c\<lparr>uc_input := b\<rparr>)"
        "parse_end (mem_ample s1) (Suc (length xs)) (ms, r, ok) st j (in_bytes c')"
        using more(3) d by auto
      have "parse_end (mem_ample s) (length xs) ((t, a) # ms, r, ok) st (Suc j) (in_bytes c')"
        using IH(10) effect_mem_ample [OF more(6)] by (auto simp: parse_end_def)
      then show ?thesis
        using IH more(1,4,7) effect_trans_Nil [OF more(6) IH(7)] dc
        by (intro exI [of _ st] exI [of _ c'] exI [of _ q'] exI [of _ s'] exI [of _ "Suc j"])
           (simp add: owned_def)
    qed
  qed
qed

lemma queue_holds_effect:
  assumes "queue_holds q s xs" "effect s s' evs" "s_nodes s' = s_nodes s"
  shows "queue_holds q s' xs"
proof -
  have "queue_at q s ps \<Longrightarrow> queue_at q s' ps" for ps
    using assms(2,3) by (force simp: queue_at_def nodes_ok_def effect_def)
  then show ?thesis using assms(1,3) by (auto simp: queue_holds_def)
qed

section \<open>Reading\<close>

text \<open>The bytes a script delivers before reading stops, and why it stops.\<close>

fun arrived :: "read_outcome list \<Rightarrow> byte list \<times> status" where
  "arrived [] = ([], wc_ok)"
| "arrived (Read_bytes bs # r) =
     (if bs = [] then ([], Inl Errno_stale) else (bs @ fst (arrived r), snd (arrived r)))"
| "arrived (Read_error e # r) =
     (if e = EINTR then arrived r
      else if e = EAGAIN \<or> e = EWOULDBLOCK then ([], wc_ok) else ([], Inl e))"

definition read_end :: "bool \<Rightarrow> nat \<Rightarrow> (int \<times> byte list) list \<times> byte list \<times> bool \<Rightarrow> status \<Rightarrow>
    status \<Rightarrow> nat \<Rightarrow> byte list \<Rightarrow> bool" where
  "read_end ample len d fin st j rest \<longleftrightarrow> (case d of (ms, r, ok) \<Rightarrow>
       j \<le> length ms \<and>
       (st = fin \<and> ok \<and> j = length ms \<and> rest = r
        \<or> st = Inl EPROTO \<and> \<not> ok
        \<or> st = Inl ENOBUFS \<and> 256 < len + length ms
        \<or> st = Inl ENOMEM \<and> \<not> ample))"

text \<open>The room left in the input buffer, and how much the next call of \<open>read\<close> asks for.\<close>

lemma read_size_facts:
  assumes "client_wf c" "request_spec (in_bytes c) = More"
  defines "n \<equiv> (if buf_max_size (uc_input c) - buf_length (uc_input c) < 4096
                then buf_max_size (uc_input c) - buf_length (uc_input c) else 4096)"
  shows "n \<noteq> 0" "unat n \<le> unat (buf_max_size (uc_input c)) - unat (buf_length (uc_input c))"
proof -
  have wf: "buf_wf (uc_input c)" "buf_max_size (uc_input c) = 65535"
    using assms(1) by (auto simp: client_wf_def)
  have len: "unat (buf_length (uc_input c)) < 65535"
    using req.more_bound [OF assms(2)] buf_wf_D(3) [OF wf(1)] by simp
  have sub: "unat (buf_max_size (uc_input c) - buf_length (uc_input c)) = 65535 - unat (buf_length (uc_input c))"
    using len wf(2) by (simp add: unat_sub_if')
  have un: "unat n = min (65535 - unat (buf_length (uc_input c))) 4096"
    unfolding n_def by (simp only: word_less_nat_alt sub if_distrib [of unat]) (simp add: min_def)
  show "n \<noteq> 0"
  proof
    assume "n = 0"
    then have "unat n = 0" by simp
    with un len show False by simp
  qed
  show "unat n \<le> unat (buf_max_size (uc_input c)) - unat (buf_length (uc_input c))"
    using un wf(2) by simp
qed

text \<open>One successful call of \<open>read\<close>: the bytes are appended and the complete requests queued.\<close>

lemma read_chunk:
  assumes c: "client_wf c" and q: "queue_holds q s xs" "length xs \<le> 256"
    and bs: "0 < length bs" "length bs \<le> unat (buf_max_size (uc_input c)) - unat (buf_length (uc_input c))"
  obtains
    (nomem) b s' where "wc_buffer_append (uc_input c) (Some bs) (of_nat (length bs)) s = Some (Inl ENOMEM, b, s')"
      "client_wf (c\<lparr>uc_input := b\<rparr>)" "queue_holds q s' xs" "effect s s' []"
      "s_live s' = s_live s + owned (c\<lparr>uc_input := b\<rparr>) - owned c" "\<not> mem_ample s"
  | (stored) b s1 st c' q' s' j where
      "wc_buffer_append (uc_input c) (Some bs) (of_nat (length bs)) s = Some (wc_ok, b, s1)"
      "wc_uds_enqueue_complete_requests (c\<lparr>uc_input := b\<rparr>) q s1 = Some (st, c', q', s')"
      "client_wf c'" "uc_fd c' = uc_fd c" "uc_output c' = uc_output c"
      "queue_holds q' s' (xs @ entries_of (uc_fd c) (take j (fst (drain request_spec (in_bytes c @ bs)))))"
      "length xs + j \<le> 256" "effect s s' []" "s_live s' = s_live s + owned c' - owned c"
      "parse_end (mem_ample s) (length xs) (drain request_spec (in_bytes c @ bs)) st j (in_bytes c')"
proof -
  have wf: "buf_wf (uc_input c)" "buf_max_size (uc_input c) = 65535" "0 \<le> uc_fd c"
    using c by (auto simp: client_wf_def)
  have u: "unat (of_nat (length bs) :: size_t) = length bs" using bs(2) wf(2) by simp
  obtain st b s1 where a: "wc_buffer_append (uc_input c) (Some bs) (of_nat (length bs)) s = Some (st, b, s1)"
    "buf_wf b" "buf_max_size b = buf_max_size (uc_input c)" "sys_frame s s1"
    "s_live s1 = s_live s + buf_owned b - buf_owned (uc_input c)"
    "st = wc_ok \<and> buf_bytes b = in_bytes c @ take (unat (of_nat (length bs) :: size_t)) (case Some bs of None \<Rightarrow> [] | Some d \<Rightarrow> d)
     \<or> st = Inl ENOMEM \<and> b = uc_input c \<and> \<not> mem_ample s"
    by (rule append_spec [OF wf(1), where data = "Some bs" and n = "of_nat (length bs)" and s = s]) (use u bs(2) in auto)
  have wfb: "client_wf (c\<lparr>uc_input := b\<rparr>)" using c a(2,3) by (simp add: client_wf_def)
  have q1: "queue_holds q s1 xs" by (rule queue_holds_frame [OF q(1) a(4)])
  have own: "s_live s1 = s_live s + owned (c\<lparr>uc_input := b\<rparr>) - owned c"
    using a(5) wf(3) by (simp add: owned_def)
  from a(6) consider "st = Inl ENOMEM" "\<not> mem_ample s" | "st = wc_ok" "buf_bytes b = in_bytes c @ bs"
    using u by auto
  then show ?thesis
  proof cases
    case 1
    then show ?thesis using a(1,4) wfb q1 own by (intro nomem [of b s1]) (auto simp: sys_frame_effect)
  next
    case 2
    from enqueue_complete_spec [OF wfb q1 q(2)] obtain st2 c' q' s' j where e:
      "wc_uds_enqueue_complete_requests (c\<lparr>uc_input := b\<rparr>) q s1 = Some (st2, c', q', s')"
      "client_wf c'" "uc_fd c' = uc_fd c" "uc_output c' = uc_output c"
      "queue_holds q' s' (xs @ entries_of (uc_fd c) (take j (fst (drain request_spec (in_bytes c @ bs)))))"
      "length xs + j \<le> 256" "effect s1 s' []" "s_live s' = s_live s1" "owned c' = owned (c\<lparr>uc_input := b\<rparr>)"
      "parse_end (mem_ample s1) (length xs) (drain request_spec (in_bytes c @ bs)) st2 j (in_bytes c')"
      using 2(2) by auto
    show ?thesis
      using a(1) 2(1) e own effect_trans_Nil [OF sys_frame_effect [OF a(4)] e(7)] sys_frame_mem_ample [OF a(4)]
      by (intro stored [of b s1 st2 c' q' s' j]) simp_all
  qed
qed

lemma sock_read_bytes:
  assumes "bs \<noteq> []" "0 < n"
  shows "\<exists>rest. sock_read f n (Read_bytes bs # r) s =
       Some (Inr (take n bs), rest, s_emit (Ev_recv f (take n bs)) s) \<and>
     script_size rest < script_size (Read_bytes bs # r) \<and>
     arrived (Read_bytes bs # r) = (take n bs @ fst (arrived rest), snd (arrived rest))"
  using assms by (auto simp: not_le)

lemma read_end_stop:
  assumes "parse_end ample len (drain request_spec xs) st j rest" "st \<noteq> wc_ok" "len + j \<le> 256"
  shows "read_end ample len (drain request_spec (xs @ ys)) fin st j rest \<and>
    take j (fst (drain request_spec (xs @ ys))) = take j (fst (drain request_spec xs))"
proof -
  obtain ms r ok where d: "drain request_spec xs = (ms, r, ok)" by (metis prod_cases3)
  obtain ms1 r1 ok1 where d1: "drain request_spec (xs @ ys) = (ms1, r1, ok1)" by (metis prod_cases3)
  obtain ms' where ms': "ms1 = ms @ ms'" using drain_continue(3) [OF d, of ys] d1 by auto
  have "\<not> ok \<Longrightarrow> \<not> ok1" using drain_continue(2) [OF d, of ys] d1 by simp
  then show ?thesis using assms d d1 ms' by (auto simp: parse_end_def read_end_def)
qed

text \<open>The result of reading a whole script.\<close>

definition read_result :: "wc_uds_client \<Rightarrow> entry list \<Rightarrow> read_outcome list \<Rightarrow> qsys \<Rightarrow> nat \<Rightarrow>
    status \<times> wc_uds_client \<times> wc_request_queue \<times> qsys \<Rightarrow> bool" where
  "read_result c xs script s j res \<longleftrightarrow> (case res of (st, c', q', s') \<Rightarrow>
     client_wf c' \<and> uc_fd c' = uc_fd c \<and> uc_output c' = uc_output c \<and>
     queue_holds q' s' (xs @ entries_of (uc_fd c)
       (take j (fst (drain request_spec (in_bytes c @ fst (arrived script)))))) \<and>
     length xs + j \<le> 256 \<and> s_live s' = s_live s + owned c' - owned c \<and>
     (\<exists>chunks. effect s s' (map (Ev_recv (uc_fd c)) chunks) \<and>
        (st = wc_ok \<longrightarrow> concat chunks = fst (arrived script))) \<and>
     read_end (mem_ample s) (length xs) (drain request_spec (in_bytes c @ fst (arrived script)))
       (snd (arrived script)) st j (in_bytes c'))"

lemma read_result_stay:
  assumes "client_wf c" "request_spec (in_bytes c) = More" "queue_holds q s' xs" "length xs \<le> 256"
    and "arrived script = ([], st)" "s_live s' = s_live s"
    and "effect s s' (map (Ev_recv (uc_fd c)) chunks)" "concat chunks = []"
  shows "read_result c xs script s 0 (st, c, q, s')"
proof -
  have "\<exists>chunks. effect s s' (map (Ev_recv (uc_fd c)) chunks) \<and> (st = wc_ok \<longrightarrow> concat chunks = [])"
    using assms(7,8) by blast
  then show ?thesis
    unfolding read_result_def assms(5) using assms(1-4,6) req.drain_More [OF assms(2)]
    by (simp add: read_end_def)
qed

lemma read_result_same:
  assumes "client_wf c" "request_spec (in_bytes c) = More" "queue_holds q s xs" "length xs \<le> 256"
    and "arrived script = ([], st)"
  shows "read_result c xs script s 0 (st, c, q, s)"
  by (rule read_result_stay [OF assms, where chunks = "[]"]) simp_all

lemma read_result_eof:
  assumes "client_wf c" "request_spec (in_bytes c) = More" "queue_holds q s xs" "length xs \<le> 256"
    and "arrived script = ([], st)"
  shows "read_result c xs script s 0 (st, c, q, s_emit (Ev_recv (uc_fd c) []) s)"
proof -
  have "queue_holds q (s_emit (Ev_recv (uc_fd c) []) s) xs"
    by (rule queue_holds_effect [OF assms(3) effect_emit]) simp
  then show ?thesis by (rule read_result_stay [OF assms(1,2) _ assms(4,5), where chunks = "[[]]"]) simp_all
qed

lemma read_end_shift:
  "read_end ample (len + length ms) (ms', r, ok) fin st j rest \<Longrightarrow>
   read_end ample len (ms @ ms', r, ok) fin st (length ms + j) rest"
  by (auto simp: read_end_def)

lemma read_result_step:
  assumes ch: "arrived script = (bs @ fst (arrived rest), snd (arrived rest))"
    and c1: "client_wf c1" "uc_fd c1 = uc_fd c" "uc_output c1 = uc_output c" "request_spec (in_bytes c1) = More"
    and d: "drain request_spec (in_bytes c @ bs) = (ms, in_bytes c1, True)"
    and eff: "effect s s1 [Ev_recv (uc_fd c) bs]" "s_live s1 = s_live s + owned c1 - owned c"
    and rec: "read_result c1 (xs @ entries_of (uc_fd c) ms) rest s1 j res"
  shows "read_result c xs script s (length ms + j) res"
proof -
  obtain st c' q' s' where res: "res = (st, c', q', s')" by (metis prod_cases4)
  let ?d1 = "drain request_spec (in_bytes c1 @ fst (arrived rest))"
  obtain ms' r' ok' where d1: "?d1 = (ms', r', ok')" by (metis prod_cases3)
  then have dd: "drain request_spec (in_bytes c @ fst (arrived script)) = (ms @ ms', r', ok')"
    using drain_continue(1) [OF d, of "fst (arrived rest)"] ch by simp
  obtain chunks where chunks: "effect s1 s' (map (Ev_recv (uc_fd c)) chunks)"
    "st = wc_ok \<longrightarrow> concat chunks = fst (arrived rest)"
    using rec c1(2) by (auto simp: read_result_def res)
  have "effect s s' (map (Ev_recv (uc_fd c)) (bs # chunks))"
    using effect_trans [OF eff(1) chunks(1)] by simp
  moreover have "st = wc_ok \<longrightarrow> concat (bs # chunks) = fst (arrived script)"
    using chunks(2) ch by simp
  ultimately have "\<exists>chunks. effect s s' (map (Ev_recv (uc_fd c)) chunks) \<and>
      (st = wc_ok \<longrightarrow> concat chunks = fst (arrived script))"
    by blast
  moreover have "read_end (mem_ample s) (length xs) (ms @ ms', r', ok') (snd (arrived rest)) st
      (length ms + j) (in_bytes c')"
    using rec effect_mem_ample [OF eff(1)] d1 by (intro read_end_shift) (simp add: read_result_def res)
  ultimately show ?thesis
    using rec c1(2,3) eff(2) d1 unfolding read_result_def res prod.case dd by (simp add: ch)
qed

text \<open>The case of a read that returns bytes, given the rest of the loop.\<close>

lemma read_client_bytes:
  assumes wf: "client_wf c" and more: "request_spec (in_bytes c) = More" and q: "queue_holds q s xs" and len256: "length xs \<le> 256"
    and script: "script = Read_bytes bs # r" and ne: "bs \<noteq> []"
    and IH: "\<And>script' c q s xs. script_size script' < script_size script \<Longrightarrow> client_wf c \<Longrightarrow> request_spec (in_bytes c) = More \<Longrightarrow>
      queue_holds q s xs \<Longrightarrow> length xs \<le> 256 \<Longrightarrow> \<exists>res j. wc_uds_read_client c q script' s = Some res \<and> read_result c xs script' s j res"
  shows "\<exists>res j. wc_uds_read_client c q script s = Some res \<and> read_result c xs script s j res"
proof -
  let ?n = "if buf_max_size (uc_input c) - buf_length (uc_input c) < 4096
            then buf_max_size (uc_input c) - buf_length (uc_input c) else 4096"
  note n = read_size_facts [OF wf more]
  note unf = wc_uds_read_client.simps [of c q _ s, unfolded Let_def if_not_P [OF n(1)]]
  have pos: "0 < unat ?n" using n(1) unfolding unat_gt_0 .
  have "length (take (unat ?n) bs) = min (length bs) (unat ?n)" by (rule length_take)
  then have len: "0 < length (take (unat ?n) bs)" "length (take (unat ?n) bs) \<le>
      unat (buf_max_size (uc_input c)) - unat (buf_length (uc_input c))"
    using ne pos n(2) length_greater_0_conv [of bs] by linarith+
  obtain ch rest where
    rd: "sock_read (uc_fd c) (unat ?n) script s = Some (Inr ch, rest, s_emit (Ev_recv (uc_fd c) ch) s)"
    "script_size rest < script_size script"
    "arrived script = (ch @ fst (arrived rest), snd (arrived rest))"
    and ch: "0 < length ch" "length ch \<le> unat (buf_max_size (uc_input c)) - unat (buf_length (uc_input c))"
    using sock_read_bytes [OF ne pos, of "uc_fd c" r s] script len by blast
  let ?s0 = "s_emit (Ev_recv (uc_fd c) ch) s"
  note unf' = unf [of script, unfolded rd(1) option.case prod.case sum.case if_P [OF ch(1)]]
  have q0: "queue_holds q ?s0 xs" by (rule queue_holds_effect [OF q effect_emit]) simp
  have s0: "s_live ?s0 = s_live s" "mem_ample ?s0 = mem_ample s" by (simp_all add: mem_ample_def)
  have eff: "effect s u (map (Ev_recv (uc_fd c)) [ch])" if "effect ?s0 u []" for u
    using effect_trans [OF effect_emit that] by simp
  from wf q0 len256 ch show ?thesis
  proof (cases rule: read_chunk)
    case (nomem b s')
    have "read_result c xs script s 0 (Inl ENOMEM, c\<lparr>uc_input := b\<rparr>, q, s')"
      using nomem(2,3,5,6) eff [OF nomem(4)] s0 len256
      by (auto simp: read_result_def read_end_def split: prod.split intro: exI [of _ "[ch]"])
    then show ?thesis using nomem(1) unfolding unf' by auto
  next
    case (stored b s1 st c1 q1 s2 j)
    show ?thesis
    proof (cases "st = wc_ok")
      case False
      then have "read_result c xs script s j (st, c1, q1, s2)"
        using stored(3-7,9) eff [OF stored(8)] s0 rd(3) False
          read_end_stop [OF stored(10) False stored(7), of "fst (arrived rest)" "snd (arrived rest)"]
        by (auto simp: read_result_def intro: exI [of _ "[ch]"])
      then show ?thesis using stored(1,2) False unfolding unf' by auto
    next
      case True
      obtain ms where d: "drain request_spec (in_bytes c @ ch) = (ms, in_bytes c1, True)" "j = length ms"
        using stored(10) True by (auto simp: parse_end_def split: prod.splits)
      have more: "request_spec (in_bytes c1) = More" using req.drain_rest [OF d(1)] by simp
      have q1: "queue_holds q1 s2 (xs @ entries_of (uc_fd c) ms)" "length (xs @ entries_of (uc_fd c) ms) \<le> 256"
        using stored(6,7) d by simp_all
      from IH [OF rd(2) stored(3) more q1] obtain res i where
        rec: "wc_uds_read_client c1 q1 rest s2 = Some res"
          "read_result c1 (xs @ entries_of (uc_fd c) ms) rest s2 i res"
        by blast
      have "read_result c xs script s (length ms + i) res"
        by (rule read_result_step [OF rd(3) stored(3-5) more d(1) _ _ rec(2)])
           (use eff [OF stored(8)] stored(9) s0 in simp_all)
      then show ?thesis using stored(1,2) True rec(1) unfolding unf' by auto
    qed
  qed
qed

lemma read_client_spec:
  assumes "client_wf c" "request_spec (in_bytes c) = More" "queue_holds q s xs" "length xs \<le> 256"
  shows "\<exists>res j. wc_uds_read_client c q script s = Some res \<and> read_result c xs script s j res"
  using assms
proof (induction "script_size script" arbitrary: script c q s xs rule: less_induct)
  case less
  let ?n = "if buf_max_size (uc_input c) - buf_length (uc_input c) < 4096
            then buf_max_size (uc_input c) - buf_length (uc_input c) else 4096"
  note n = read_size_facts [OF less.prems(1,2)]
  note unf = wc_uds_read_client.simps [of c q _ s, unfolded Let_def if_not_P [OF n(1)]]
  note stay = read_result_same [OF less.prems]
  show ?case
  proof (cases script)
    case Nil
    then show ?thesis using stay [of script] by (auto simp: unf)
  next
    case (Cons x r)
    show ?thesis
    proof (cases x)
      case (Read_error e)
      show ?thesis
      proof (cases "e = EINTR")
        case True
        have "script_size r < script_size script" using Cons Read_error by simp
        from less.hyps [OF this less.prems] Cons Read_error True show ?thesis
          by (simp add: unf read_result_def)
      next
        case False
        then show ?thesis using Cons Read_error stay [of script] by (auto simp: unf)
      qed
    next
      case (Read_bytes bs)
      show ?thesis
      proof (cases "bs = []")
        case True
        then show ?thesis
          using Cons Read_bytes read_result_eof [OF less.prems, of script] by (auto simp: unf)
      next
        case False
        from read_client_bytes [OF less.prems _ False less.hyps] Cons Read_bytes show ?thesis by blast
      qed
    qed
  qed
qed

section \<open>Writing\<close>

text \<open>What writing does to a client: a prefix of the pending output is sent.\<close>

definition written :: "wc_uds_client \<Rightarrow> qsys \<Rightarrow> wc_uds_client \<Rightarrow> qsys \<Rightarrow> bool" where
  "written c s c' s' \<longleftrightarrow> client_wf c' \<and> uc_fd c' = uc_fd c \<and> uc_input c' = uc_input c \<and> owned c' = owned c \<and>
     (\<exists>chunks. out_bytes c = concat chunks @ out_bytes c' \<and> effect s s' (map (Ev_send (uc_fd c)) chunks)) \<and>
     s_nodes s' = s_nodes s \<and> s_live s' = s_live s"

lemma written_refl: "client_wf c \<Longrightarrow> written c s c s"
  unfolding written_def by (auto intro!: exI [of _ "[] :: byte list list"])

lemma written_trans:
  assumes "written c s c1 s1" "written c1 s1 c2 s2"
  shows "written c s c2 s2"
proof -
  obtain xs ys where "out_bytes c = concat xs @ out_bytes c1" "effect s s1 (map (Ev_send (uc_fd c)) xs)"
    "out_bytes c1 = concat ys @ out_bytes c2" "effect s1 s2 (map (Ev_send (uc_fd c1)) ys)"
    using assms unfolding written_def by blast
  moreover from this effect_trans have "effect s s2 (map (Ev_send (uc_fd c)) (xs @ ys))"
    using assms(1) by (fastforce simp: written_def)
  ultimately show ?thesis using assms unfolding written_def by (auto intro!: exI [of _ "xs @ ys"])
qed

lemma written_send:
  assumes "client_wf c"
  obtains b where "wc_buffer_consume (uc_output c) (of_nat (min k (length (out_bytes c)))) = Some (wc_ok, b)"
    "written c s (c\<lparr>uc_output := b\<rparr>) (s_emit (Ev_send (uc_fd c) (take k (out_bytes c))) s)"
proof -
  have wf: "buf_wf (uc_output c)" using assms by (simp add: client_wf_def)
  obtain b where b: "wc_buffer_consume (uc_output c) (of_nat (min k (length (out_bytes c)))) = Some (wc_ok, b)" "buf_wf b"
    "out_bytes c = take k (out_bytes c) @ buf_bytes b" "buf_max_size b = buf_max_size (uc_output c)" "buf_owned b = buf_owned (uc_output c)"
    by (rule consume_sent [OF wf])
  have "out_bytes c = concat [take k (out_bytes c)] @ out_bytes (c\<lparr>uc_output := b\<rparr>)" using b(3) by simp
  moreover have "effect s (s_emit (Ev_send (uc_fd c) (take k (out_bytes c))) s) (map (Ev_send (uc_fd c)) [take k (out_bytes c)])" by simp
  ultimately have "written c s (c\<lparr>uc_output := b\<rparr>) (s_emit (Ev_send (uc_fd c) (take k (out_bytes c))) s)"
    using assms b(2,4,5) unfolding written_def by (auto simp: client_wf_def owned_def intro!: exI [of _ "[take k (out_bytes c)]"])
  with b(1) show thesis by (rule that)
qed

lemma write_client_written:
  assumes "client_wf c"
  shows "\<exists>st c' s'. wc_uds_write_client c script s = Some (st, c', s') \<and> written c s c' s'"
  using assms
proof (induction script arbitrary: c s)
  case Nil
  then show ?case by (simp add: written_refl)
next
  case (Cons x script)
  have wf: "buf_wf (uc_output c)" using Cons.prems by (simp add: client_wf_def)
  show ?case
  proof (cases "buf_length (uc_output c) > 0")
    case False
    then show ?thesis using Cons.prems by (simp add: written_refl)
  next
    case True
    note unf = wc_uds_write_client.simps(2) [of c x script s, unfolded buf_read_block [OF wf] if_P [OF True] Option.bind.bind_lunit]
    show ?thesis
    proof (cases x)
      case (Send_error e)
      then show ?thesis
        using Cons.IH [OF Cons.prems, of s] Cons.prems unfolding unf by (simp add: sock_send_def written_refl)
    next
      case (Send_bytes k)
      let ?s = "s_emit (Ev_send (uc_fd c) (take k (out_bytes c))) s" and ?k = "min k (length (out_bytes c))"
      have send: "sock_send (uc_fd c) (out_bytes c) x s = (Inr ?k, ?s)" by (simp add: sock_send_def Send_bytes)
      obtain b where b: "wc_buffer_consume (uc_output c) (of_nat ?k) = Some (wc_ok, b)" "written c s (c\<lparr>uc_output := b\<rparr>) ?s"
        by (rule written_send [OF Cons.prems])
      show ?thesis
      proof (cases "?k = 0")
        case True
        then have "take k (out_bytes c) = []" by (auto simp: min_def split: if_splits)
        then have "written c s c ?s"
          using Cons.prems by (auto simp: written_def intro!: exI [of _ "[take k (out_bytes c)]"])
        with True show ?thesis unfolding unf send by simp
      next
        case False
        have "client_wf (c\<lparr>uc_output := b\<rparr>)" using b(2) by (simp add: written_def)
        from Cons.IH [OF this, of ?s] False b written_trans [OF b(2)] show ?thesis unfolding unf send by auto
      qed
    qed
  qed
qed

lemma write_client_spec:
  assumes "client_wf c"
  shows "\<exists>st c' s' chunks. wc_uds_write_client c script s = Some (st, c', s') \<and>
     client_wf c' \<and> uc_fd c' = uc_fd c \<and> uc_input c' = uc_input c \<and> owned c' = owned c \<and>
     out_bytes c = concat chunks @ out_bytes c' \<and> effect s s' (map (Ev_send (uc_fd c)) chunks) \<and>
     s_nodes s' = s_nodes s \<and> s_live s' = s_live s"
  using write_client_written [OF assms, of script s] unfolding written_def by blast

section \<open>Answering and removing\<close>

text \<open>The server's copy of the answering code is the reference one.\<close>

lemma uds_encode_eq:
  "wc_uds_encode_command_response strerror c n s =
     map_option (\<lambda>(st, b, s'). (st, c\<lparr>uc_output := b\<rparr>, s'))
       (ref_respond strerror (uc_output c) (qr_type n) (Some (qr_argument n)) (qr_argument_length n) s)"
proof -
  have run: "wc_uds_run_command n s =
      ref_run_command (qr_type n) (Some (qr_argument n)) (qr_argument_length n) s"
    by (simp add: wc_uds_run_command_def ref_run_command_def)
  show ?thesis
    unfolding wc_uds_encode_command_response_def ref_respond_def ref_error_def run Let_def
    by (auto simp: bind_eq_Some_conv split: Option.bind_splits sum.splits)
qed

lemma remove_client_spec:
  assumes i: "i < length cs" "uc_fd (cs ! i) \<noteq> - 1" and c: "client_wf (cs ! i)" and q: "queue_holds q s xs"
  obtains c' q' s' where "wc_uds_remove_client cs (Some i) q s = Some (cs[i := c'], q', s')"
    "uc_fd c' = - 1" "queue_holds q' s' (filter (\<lambda>e. fst e \<noteq> uc_fd (cs ! i)) xs)"
    "effect s s' [Ev_close (uc_fd (cs ! i))]" "s_live s' = s_live s - owned (cs ! i)"
proof -
  let ?c = "cs ! i"
  obtain q' s1 where d: "wc_request_queue_discard_client q (uc_fd ?c) s =
      Some (of_nat (length (filter (\<lambda>e. fst e = uc_fd ?c) xs)), q', s1)"
    "queue_holds q' s1 (filter (\<lambda>e. fst e \<noteq> uc_fd ?c) xs)" "queue_frame s s1"
    by (rule discard_holds [OF q])
  obtain b1 s2 where b1: "wc_buffer_destroy (uc_input ?c) s1 = (b1, s2)" by fastforce
  obtain b2 s3 where b2: "wc_buffer_destroy (uc_output ?c) s2 = (b2, s3)" by fastforce
  note D1 = destroy_spec [OF b1] and D2 = destroy_spec [OF b2]
  let ?s = "s_emit (Ev_close (uc_fd ?c)) s3"
  have fr: "sys_frame s1 s3" using D1(5) D2(5) by (rule sys_frame_trans)
  have q3: "queue_holds q' s3 (filter (\<lambda>e. fst e \<noteq> uc_fd ?c) xs)" by (rule queue_holds_frame [OF d(2) fr])
  have q4: "queue_holds q' ?s (filter (\<lambda>e. fst e \<noteq> uc_fd ?c) xs)"
    by (rule queue_holds_effect [OF q3 effect_emit]) simp
  have eff: "effect s ?s [Ev_close (uc_fd ?c)]"
    using effect_trans [OF effect_trans [OF queue_frame_effect [OF d(3)] sys_frame_effect [OF fr]] effect_emit]
    by simp
  have live: "s_live ?s = s_live s - owned ?c"
    using D1(6) D2(6) d(3) i(2) by (simp add: owned_def queue_frame_def)
  show ?thesis
    by (rule that [of "?c\<lparr>uc_input := b1, uc_output := b2, uc_fd := - 1\<rparr>" q' ?s])
       (use i d(1) b1 b2 q4 eff live in \<open>simp_all add: wc_uds_remove_client_def Let_def\<close>)
qed

end
