(* ===== verification/WC_UDS_Invariant.thy ===== *)
theory WC_UDS_Invariant
  imports WC_UDS_Handlers
begin

text \<open>
  The invariant of the single-threaded server and its preservation by every handler, by
  an iteration of the event loop and by the loop. It says that the table and the queue
  are well formed, that every queued request belongs to a connected client, that the
  memory in use is what the connected clients' buffers own, that descriptors are opened,
  used and closed consistently, that only permitted command lines were run, and, for
  every connected client, that its session is right: the requests in the bytes received
  are those answered followed by those queued, in order, and the bytes sent together with
  the pending output are one response frame per answered request.
\<close>

section \<open>The table of clients\<close>

lemma live_fds_alt: "live_fds cs = filter (\<lambda>f. f \<noteq> - 1) (map uc_fd cs)"
  by (simp add: live_fds_def filter_map o_def)

lemma in_live_fds: "f \<in> set (live_fds cs) \<longleftrightarrow> (\<exists>c \<in> set cs. uc_fd c = f \<and> f \<noteq> - 1)"
  by (auto simp: live_fds_def)

lemma live_fds_update:
  "i < length cs \<Longrightarrow> uc_fd c = uc_fd (cs ! i) \<Longrightarrow> live_fds (cs[i := c]) = live_fds cs"
  using list_update_id [of "map uc_fd cs" i] by (simp add: live_fds_alt map_update)

lemma live_fds_split:
  "i < length cs \<Longrightarrow> live_fds cs = live_fds (take i cs) @ live_fds [cs ! i] @ live_fds (drop (Suc i) cs)"
  by (subst id_take_nth_drop [of i cs]) (simp_all add: live_fds_def)

lemma live_fds_dead:
  assumes "i < length cs" "uc_fd c = - 1" "uc_fd (cs ! i) \<noteq> - 1" "distinct (live_fds cs)"
  shows "distinct (live_fds (cs[i := c]))"
    and "set (live_fds (cs[i := c])) = set (live_fds cs) - {uc_fd (cs ! i)}"
proof -
  have u: "live_fds (cs[i := c]) = live_fds (take i cs) @ live_fds (drop (Suc i) cs)"
    using assms(1,2) by (simp add: upd_conv_take_nth_drop live_fds_def)
  have s: "live_fds cs = live_fds (take i cs) @ uc_fd (cs ! i) # live_fds (drop (Suc i) cs)"
    using live_fds_split [OF assms(1)] assms(3) by (simp add: live_fds_def)
  show "distinct (live_fds (cs[i := c]))" using assms(4) unfolding u s by auto
  show "set (live_fds (cs[i := c])) = set (live_fds cs) - {uc_fd (cs ! i)}"
    using assms(4) unfolding u s by auto
qed

lemma live_unique:
  assumes "distinct (live_fds cs)" "i < length cs" "j < length cs" "uc_fd (cs ! i) \<noteq> - 1"
    "uc_fd (cs ! i) = uc_fd (cs ! j)"
  shows "i = j"
proof (rule ccontr)
  assume ne: "i \<noteq> j"
  let ?c = "(cs ! i)\<lparr>uc_fd := - 1\<rparr>"
  have "set (live_fds (cs[i := ?c])) = set (live_fds cs) - {uc_fd (cs ! i)}"
    using assms by (intro live_fds_dead(2)) simp_all
  moreover have "cs ! j \<in> set (cs[i := ?c])" using ne assms(3) by (metis length_list_update nth_list_update_neq nth_mem)
  then have "uc_fd (cs ! j) \<in> set (live_fds (cs[i := ?c]))"
    using assms(4,5) by (auto simp: in_live_fds)
  ultimately show False using assms(5) by auto
qed

lemma find_client_spec:
  "wc_uds_find_client cs f = Some i \<Longrightarrow> i < length cs \<and> uc_fd (cs ! i) = f"
  "wc_uds_find_client cs f = None \<Longrightarrow> c \<in> set cs \<Longrightarrow> uc_fd c \<noteq> f"
  by (induction cs arbitrary: i) (auto split: if_splits)

lemma find_live:
  assumes "f \<in> set (live_fds cs)"
  obtains i where "wc_uds_find_client cs f = Some i" "i < length cs" "uc_fd (cs ! i) = f" "f \<noteq> - 1"
proof -
  obtain c where c: "c \<in> set cs" "uc_fd c = f" "f \<noteq> - 1" using assms by (auto simp: in_live_fds)
  then obtain i where "wc_uds_find_client cs f = Some i"
    using find_client_spec(2) [of cs f c] by (cases "wc_uds_find_client cs f") auto
  with find_client_spec(1) [OF this] c(3) show ?thesis by (intro that [of i]) auto
qed

lemma has_free_slot_iff: "wc_uds_has_free_client_slot cs \<longleftrightarrow> (\<exists>c \<in> set cs. uc_fd c = - 1)"
  by (induction cs) auto

lemma sum_list_update_int:
  "i < length cs \<Longrightarrow> sum_list (map owned (cs[i := c])) = sum_list (map owned cs) + owned c - owned (cs ! i)"
  by (induction cs arbitrary: i) (auto split: nat.split)

section \<open>The invariant\<close>

definition entry_ok :: "clients \<Rightarrow> entry \<Rightarrow> bool" where
  "entry_ok cs e \<longleftrightarrow> fst e \<in> set (live_fds cs) \<and> fst (snd e) \<in> {1, 2, 3} \<and> length (snd (snd e)) \<le> 65529"

definition uds_core :: "int \<Rightarrow> clients \<Rightarrow> wc_request_queue \<Rightarrow> entry list \<Rightarrow> qsys \<Rightarrow> bool" where
  "uds_core m cs q xs s \<longleftrightarrow> length cs = 64 \<and> (\<forall>c \<in> set cs. uc_fd c \<noteq> - 1 \<longrightarrow> client_wf c) \<and>
     distinct (live_fds cs) \<and> queue_holds q s xs \<and> (\<forall>e \<in> set xs. entry_ok cs e) \<and> length xs \<le> 256 \<and>
     s_live s = m + sum_list (map owned cs)"

definition uds_trace :: "fd \<Rightarrow> clients \<Rightarrow> qsys \<Rightarrow> bool" where
  "uds_trace lf cs s \<longleftrightarrow> lf \<notin> set (live_fds cs) \<and>
     fd_run {} (s_trace s) = Some (insert lf (set (live_fds cs))) \<and>
     (\<forall>cmd. Ev_run cmd \<in> set (s_trace s) \<longrightarrow> safe_command cmd)"

abbreviation queued_for :: "fd \<Rightarrow> entry list \<Rightarrow> (wc_request_type \<times> byte list) list" where
  "queued_for f xs \<equiv> map snd (filter (\<lambda>e. fst e = f) xs)"

definition session_ok :: "(errno \<Rightarrow> byte list) \<Rightarrow> qsys \<Rightarrow> entry list \<Rightarrow> wc_uds_client \<Rightarrow> bool" where
  "session_ok strerror s xs c \<longleftrightarrow>
     (\<exists>ans. session_is strerror s (uc_fd c) (queued_for (uc_fd c) xs) (in_bytes c) (out_bytes c) ans)"

text \<open>The invariant, for the sessions of all clients but those in \<open>X\<close>.\<close>

definition uds_inv_but :: "fd set \<Rightarrow> (errno \<Rightarrow> byte list) \<Rightarrow> fd \<Rightarrow> int \<Rightarrow> clients \<Rightarrow> wc_request_queue \<Rightarrow>
    entry list \<Rightarrow> qsys \<Rightarrow> bool" where
  "uds_inv_but X strerror lf m cs q xs s \<longleftrightarrow> uds_core m cs q xs s \<and> uds_trace lf cs s \<and>
     (\<forall>f. history_ok strerror s f) \<and>
     (\<forall>c \<in> set cs. uc_fd c \<noteq> - 1 \<longrightarrow> uc_fd c \<notin> X \<longrightarrow> session_ok strerror s xs c)"

abbreviation uds_inv :: "(errno \<Rightarrow> byte list) \<Rightarrow> fd \<Rightarrow> int \<Rightarrow> clients \<Rightarrow> wc_request_queue \<Rightarrow> entry list \<Rightarrow>
    qsys \<Rightarrow> bool" where
  "uds_inv \<equiv> uds_inv_but {}"

lemma uds_coreD:
  assumes "uds_core m cs q xs s"
  shows "length cs = 64" "distinct (live_fds cs)" "queue_holds q s xs" "length xs \<le> 256"
    "s_live s = m + sum_list (map owned cs)"
    and "c \<in> set cs \<Longrightarrow> uc_fd c \<noteq> - 1 \<Longrightarrow> client_wf c" "e \<in> set xs \<Longrightarrow> entry_ok cs e"
  using assms by (auto simp: uds_core_def)

section \<open>Preservation, one client at a time\<close>

lemma core_update:
  assumes core: "uds_core m cs q xs s" and i: "i < length cs" "uc_fd c = uc_fd (cs ! i)"
    and c: "client_wf c" and q: "queue_holds q' s' xs'" "length xs' \<le> 256" "\<forall>e \<in> set xs'. entry_ok cs e"
    and live: "s_live s' = s_live s + owned c - owned (cs ! i)"
  shows "uds_core m (cs[i := c]) q' xs' s'"
proof -
  note D = uds_coreD [OF core]
  have "\<forall>x \<in> set (cs[i := c]). uc_fd x \<noteq> - 1 \<longrightarrow> client_wf x"
    using D(6) c set_update_subset_insert [of cs i c] by blast
  then show ?thesis
    using D live_fds_update [OF i] q live sum_list_update_int [OF i(1), of c]
    by (simp add: uds_core_def entry_ok_def)
qed

lemma trace_update:
  assumes "uds_trace lf cs s" "effect s s' evs" "evs_of f evs" "f \<in> set (live_fds cs)"
  shows "uds_trace lf cs s'"
  using assms evs_ofD(4,5) [OF assms(3)]
  by (auto simp: uds_trace_def effect_trace [OF assms(2)] fd_run_append)

lemma inv_update:
  assumes inv: "uds_inv strerror lf m cs q xs s"
    and i: "i < length cs" "uc_fd (cs ! i) = f" "f \<noteq> - 1" "uc_fd c = f" and c: "client_wf c"
    and q: "queue_holds q' s' xs'" "length xs' \<le> 256" "\<forall>e \<in> set xs'. entry_ok cs e"
    and others: "\<And>g. g \<noteq> f \<Longrightarrow> queued_for g xs' = queued_for g xs"
    and eff: "effect s s' evs" "evs_of f evs" and live: "s_live s' = s_live s + owned c - owned (cs ! i)"
  shows "sent_to f evs = [] \<Longrightarrow> uds_inv_but {f} strerror lf m (cs[i := c]) q' xs' s'"
    and "session_ok strerror s' xs' c \<Longrightarrow> uds_inv strerror lf m (cs[i := c]) q' xs' s'"
proof -
  have core: "uds_core m cs q xs s" and tr: "uds_trace lf cs s"
    and ses: "\<And>x. x \<in> set cs \<Longrightarrow> uc_fd x \<noteq> - 1 \<Longrightarrow> session_ok strerror s xs x"
    and hist: "\<And>g. history_ok strerror s g"
    using inv by (auto simp: uds_inv_but_def)
  have fl: "f \<in> set (live_fds cs)" using i nth_mem [OF i(1)] by (auto simp: in_live_fds)
  have core': "uds_core m (cs[i := c]) q' xs' s'"
    by (rule core_update [OF core i(1) _ c q live]) (simp add: i)
  have tr': "uds_trace lf (cs[i := c]) s'"
    using trace_update [OF tr eff fl] live_fds_update [OF i(1), of c] i(2,4) by (simp add: uds_trace_def)
  have other: "session_ok strerror s' xs' x" if "x \<in> set (cs[i := c])" "uc_fd x \<noteq> - 1" "uc_fd x \<noteq> f" for x
  proof -
    have "x \<in> set cs" using that(1,3) i(4) set_update_subset_insert [of cs i c] by auto
    note old = ses [OF this that(2)]
    have "session_is strerror s' (uc_fd x) = session_is strerror s (uc_fd x)"
      by (rule session_keep [OF eff(1) evs_ofD(1) [OF eff(2)] evs_ofD(2) [OF eff(2) that(3)]
            evs_ofD(3) [OF eff(2) that(3)]])
    with old show ?thesis unfolding session_ok_def others [OF that(3)] by simp
  qed
  have hist': "history_ok strerror s' g" if "g \<noteq> f \<or> sent_to f evs = []" for g
    by (rule history_keep [OF hist eff(1) evs_ofD(1) [OF eff(2)]]) (use that evs_ofD(2) [OF eff(2), of g] in auto)
  then show "sent_to f evs = [] \<Longrightarrow> uds_inv_but {f} strerror lf m (cs[i := c]) q' xs' s'"
    using core' tr' other by (simp add: uds_inv_but_def)
  assume sc: "session_ok strerror s' xs' c"
  have "x = c" if "x \<in> set (cs[i := c])" "uc_fd x = f" for x
  proof -
    from that(1) [unfolded in_set_conv_nth] obtain j where j: "j < length (cs[i := c])" "cs[i := c] ! j = x"
      by blast
    then have j: "j < length cs" "x = cs[i := c] ! j" by simp_all
    have "j = i"
    proof (rule ccontr)
      assume "j \<noteq> i"
      then have "uc_fd (cs ! j) = f" using j that(2) by simp
      with live_unique [OF uds_coreD(2) [OF core] i(1) j(1)] i(2,3) \<open>j \<noteq> i\<close> show False by simp
    qed
    with j i(1) show ?thesis by simp
  qed
  with sc other have "session_ok strerror s' xs' x" if "x \<in> set (cs[i := c])" "uc_fd x \<noteq> - 1" for x
    using that by blast
  moreover have "history_ok strerror s' f" using sc i(4) history_session by (auto simp: session_ok_def)
  then have "history_ok strerror s' g" for g using hist' [of g] by (cases "g = f") auto
  ultimately show "uds_inv strerror lf m (cs[i := c]) q' xs' s'"
    using core' tr' by (simp add: uds_inv_but_def)
qed

lemma inv_remove:
  assumes inv: "uds_inv_but {f} strerror lf m cs q xs s"
    and i: "i < length cs" "uc_fd (cs ! i) = f" "f \<noteq> - 1"
  obtains c q' s' where "wc_uds_remove_client cs (Some i) q s = Some (cs[i := c], q', s')" "uc_fd c = - 1"
    "uds_inv strerror lf m (cs[i := c]) q' (filter (\<lambda>e. fst e \<noteq> f) xs) s'" "effect s s' [Ev_close f]"
proof -
  have core: "uds_core m cs q xs s" and tr: "uds_trace lf cs s"
    and ses: "\<And>x. x \<in> set cs \<Longrightarrow> uc_fd x \<noteq> - 1 \<Longrightarrow> uc_fd x \<noteq> f \<Longrightarrow> session_ok strerror s xs x"
    and hist: "\<And>g. history_ok strerror s g"
    using inv by (auto simp: uds_inv_but_def)
  note D = uds_coreD [OF core]
  have wf: "client_wf (cs ! i)" using D(6) i by simp
  obtain c q' s' where r: "wc_uds_remove_client cs (Some i) q s = Some (cs[i := c], q', s')"
    "uc_fd c = - 1" "queue_holds q' s' (filter (\<lambda>e. fst e \<noteq> f) xs)"
    "effect s s' [Ev_close f]" "s_live s' = s_live s - owned (cs ! i)"
    by (rule remove_client_spec [OF i(1) _ wf D(3)]) (use i in auto)
  note L = live_fds_dead [OF i(1) r(2) _ D(2)]
  have Ls: "set (live_fds (cs[i := c])) = set (live_fds cs) - {f}" "distinct (live_fds (cs[i := c]))"
    using L i by auto
  have fl: "f \<in> set (live_fds cs)" using i nth_mem [OF i(1)] by (auto simp: in_live_fds)
  have "length (filter (\<lambda>e. fst e \<noteq> f) xs) \<le> 256" using D(4) length_filter_le [of "\<lambda>e. fst e \<noteq> f" xs] by linarith
  moreover have "\<forall>x \<in> set (cs[i := c]). uc_fd x \<noteq> - 1 \<longrightarrow> client_wf x"
    using D(6) r(2) set_update_subset_insert [of cs i c] by auto
  ultimately have core': "uds_core m (cs[i := c]) q' (filter (\<lambda>e. fst e \<noteq> f) xs) s'"
    using D r(2,3,5) Ls sum_list_update_int [OF i(1), of c]
    by (auto simp: uds_core_def entry_ok_def owned_def)
  have "insert lf (set (live_fds cs)) - {f} = insert lf (set (live_fds cs) - {f})"
    using tr fl by (auto simp: uds_trace_def)
  then have tr': "uds_trace lf (cs[i := c]) s'"
    using tr Ls(1) fl by (auto simp: uds_trace_def effect_trace [OF r(4)] fd_run_append)
  have ses': "session_ok strerror s' (filter (\<lambda>e. fst e \<noteq> f) xs) x"
    if "x \<in> set (cs[i := c])" "uc_fd x \<noteq> - 1" for x
  proof -
    have ne: "uc_fd x \<noteq> f" using that Ls(1) in_live_fds [of "uc_fd x" "cs[i := c]"] by auto
    have "x \<in> set cs" using that r(2) set_update_subset_insert [of cs i c] by auto
    moreover have "queued_for (uc_fd x) (filter (\<lambda>e. fst e \<noteq> f) xs) = queued_for (uc_fd x) xs"
      using ne by (auto intro!: arg_cong [of _ _ "map snd"] filter_cong)
    moreover have "session_is strerror s' (uc_fd x) = session_is strerror s (uc_fd x)"
      by (rule session_keep [OF r(4)]) (simp_all add: received_from_def)
    ultimately show ?thesis using ses [OF _ that(2) ne] unfolding session_ok_def by simp
  qed
  have "history_ok strerror s' g" for g by (rule history_keep [OF hist r(4)]) simp_all
  then show ?thesis
    by (intro that [OF r(1,2) _ r(4)]) (use core' tr' ses' in \<open>simp add: uds_inv_but_def\<close>)
qed

section \<open>The handlers of one client\<close>

lemma drain_requests_ok:
  "drain request_spec xs = (ms, r, ok) \<Longrightarrow> (t, a) \<in> set ms \<Longrightarrow> t \<in> {1, 2, 3} \<and> length a \<le> 65529"
proof (induction "length xs" arbitrary: xs ms rule: less_induct)
  case less
  show ?case
  proof (cases "request_spec xs")
    case (Frame m k)
    obtain u b where m: "m = (u, b)" by fastforce
    note D = request_spec_FrameD [OF Frame [unfolded m]]
    obtain ms' where d: "drain request_spec (drop k xs) = (ms', r, ok)" "ms = m # ms'"
      using less.prems(1) by (auto simp: req.drain_Frame [OF Frame] split: prod.splits)
    have "length (drop k xs) < length xs" using D(1,2) by simp
    from less.hyps [OF this d(1)] less.prems(2) d(2) D(4,5) m show ?thesis by auto
  qed (use less.prems in \<open>auto simp: req.drain_More req.drain_Bad\<close>)
qed

lemma queued_for_entries [simp]:
  "queued_for f (entries_of f ms) = ms" "g \<noteq> f \<Longrightarrow> queued_for g (entries_of f ms) = []"
  by (induction ms) auto

lemma entries_of_ok:
  assumes "drain request_spec xs = d" "f \<in> set (live_fds cs)" "e \<in> set (entries_of f (take j (fst d)))"
  shows "entry_ok cs e"
proof -
  obtain ms r ok where d: "d = (ms, r, ok)" by (metis prod_cases3)
  obtain t a where e: "e = (f, t, a)" "(t, a) \<in> set ms"
    using assms(3) d by (auto simp: entries_of_def dest: in_set_takeD)
  show ?thesis using drain_requests_ok [OF assms(1) [unfolded d] e(2)] e(1) assms(2) by (simp add: entry_ok_def)
qed

lemma inv_read:
  assumes inv: "uds_inv strerror lf m cs q xs s" and i: "i < length cs" "uc_fd (cs ! i) = f" "f \<noteq> - 1"
  obtains st c q' s' j where "wc_uds_read_client (cs ! i) q script s = Some (st, c, q', s')" "uc_fd c = f"
    "uds_inv_but {f} strerror lf m (cs[i := c]) q'
       (xs @ entries_of f (take j (fst (drain request_spec (in_bytes (cs ! i) @ fst (arrived script)))))) s'"
    "st = wc_ok \<Longrightarrow> uds_inv strerror lf m (cs[i := c]) q'
       (xs @ entries_of f (take j (fst (drain request_spec (in_bytes (cs ! i) @ fst (arrived script)))))) s'"
    "\<exists>evs. effect s s' evs \<and> evs_of f evs"
proof -
  let ?c = "cs ! i" and ?d = "drain request_spec (in_bytes (cs ! i) @ fst (arrived script))"
  have core: "uds_core m cs q xs s" and ses: "session_ok strerror s xs ?c"
    using inv i by (auto simp: uds_inv_but_def)
  note D = uds_coreD [OF core]
  have wf: "client_wf ?c" using D(6) i by simp
  have fl: "f \<in> set (live_fds cs)" using i nth_mem [OF i(1)] by (auto simp: in_live_fds)
  obtain ans where ans: "session_is strerror s f (queued_for f xs) (in_bytes ?c) (out_bytes ?c) ans"
    using ses i(2) by (auto simp: session_ok_def)
  obtain st c q' s' j where run: "wc_uds_read_client ?c q script s = Some (st, c, q', s')"
    and res: "read_result ?c xs script s j (st, c, q', s')"
    using read_client_spec [OF wf session_more [OF ans] D(3,4), of script] by (metis prod_cases4)
  let ?xs = "xs @ entries_of f (take j (fst ?d))"
  obtain chunks where R: "client_wf c" "uc_fd c = f" "uc_output c = uc_output ?c" "queue_holds q' s' ?xs"
    "length xs + j \<le> 256" "s_live s' = s_live s + owned c - owned ?c"
    "effect s s' (map (Ev_recv f) chunks)" "st = wc_ok \<longrightarrow> concat chunks = fst (arrived script)"
    "read_end (mem_ample s) (length xs) ?d (snd (arrived script)) st j (in_bytes c)"
    using res i(2) by (auto simp: read_result_def)
  have ok: "\<forall>e \<in> set ?xs. entry_ok cs e"
    using D(7) entries_of_ok [OF refl fl] by auto
  have len: "length ?xs \<le> 256" using R(5) by simp
  have others: "queued_for g ?xs = queued_for g xs" if "g \<noteq> f" for g
    using that by simp
  note U = inv_update [OF inv i R(2) R(1) R(4) len ok others R(7) evs_of_simps(4) R(6)]
  have no_send: "sent_to f (map (Ev_recv f) chunks) = []" by simp
  have "session_ok strerror s' ?xs c" if st: "st = wc_ok"
  proof -
    obtain ms where d: "?d = (ms, in_bytes c, True)" "j = length ms"
      using R(9) st by (auto simp: read_end_def split: prod.splits)
    have a: "drain request_spec (session_recv f (s_trace s)) = (map asked ans @ queued_for f xs, in_bytes ?c, True)"
      "session_sent f (s_trace s) @ out_bytes ?c = concat (map (\<lambda>x. response_frame (snd (snd x))) ans)"
      "list_all (answered_ok strerror s) ans"
      using ans by (simp_all add: session_is_def)
    have no: "Ev_open f \<notin> set (map (Ev_recv f) chunks)" by auto
    have "drain request_spec (session_recv f (s_trace s')) =
        (map asked ans @ queued_for f ?xs, in_bytes c, True)"
      using drain_continue(1) [OF a(1) _ d(1)] R(8) st d
      by (simp add: effect_trace [OF R(7)] session_append [OF no])
    moreover have "session_sent f (s_trace s') @ out_bytes c = concat (map (\<lambda>x. response_frame (snd (snd x))) ans)"
      using a(2) R(3) by (simp add: effect_trace [OF R(7)] session_append [OF no])
    ultimately show ?thesis
      using a(3) R(2) by (auto simp: session_ok_def session_is_def answered_ok_effect [OF R(7)])
  qed
  with U(1) [OF _ no_send] U(2) show ?thesis using run R(2,7) evs_of_simps(4) by (intro that [of st c q' s' j]) blast+
qed

lemma inv_write:
  assumes inv: "uds_inv strerror lf m cs q xs s" and i: "i < length cs" "uc_fd (cs ! i) = f" "f \<noteq> - 1"
  obtains st c s' where "wc_uds_write_client (cs ! i) script s = Some (st, c, s')" "uc_fd c = f"
    "uds_inv strerror lf m (cs[i := c]) q xs s'" "\<exists>evs. effect s s' evs \<and> evs_of f evs"
proof -
  let ?c = "cs ! i"
  have core: "uds_core m cs q xs s" and ses: "session_ok strerror s xs ?c"
    using inv i by (auto simp: uds_inv_but_def)
  note D = uds_coreD [OF core]
  have wf: "client_wf ?c" using D(6) i by simp
  obtain ans where ans: "session_is strerror s f (queued_for f xs) (in_bytes ?c) (out_bytes ?c) ans"
    using ses i(2) by (auto simp: session_ok_def)
  obtain st c s' chunks where w: "wc_uds_write_client ?c script s = Some (st, c, s')"
    "client_wf c" "uc_fd c = f" "uc_input c = uc_input ?c" "owned c = owned ?c"
    "out_bytes ?c = concat chunks @ out_bytes c" "effect s s' (map (Ev_send f) chunks)"
    "s_nodes s' = s_nodes s" "s_live s' = s_live s"
    using write_client_spec [OF wf, of script s] i(2) by auto
  have q': "queue_holds q s' xs" by (rule queue_holds_effect [OF D(3) w(7,8)])
  have live: "s_live s' = s_live s + owned c - owned ?c" using w(5,9) by simp
  have ok: "\<forall>e \<in> set xs. entry_ok cs e" using D(7) by blast
  note U = inv_update(2) [OF inv i w(3,2) q' D(4) ok refl w(7) evs_of_simps(3) live]
  have no: "Ev_open f \<notin> set (map (Ev_send f) chunks)" by auto
  have "session_is strerror s' f (queued_for f xs) (in_bytes c) (out_bytes c) ans"
    using ans w(4,6)
    by (simp add: session_is_def effect_trace [OF w(7)] session_append [OF no] answered_ok_effect [OF w(7)])
  then have "session_ok strerror s' xs c" using w(3) by (auto simp: session_ok_def)
  from U [OF this] w(1,3,7) show ?thesis using evs_of_simps(3) by (intro that [of st c s']) blast+
qed

text \<open>
  What one step of the loop over the clients may change: slot \<open>i\<close>, and the queued requests
  of the client in that slot.
\<close>

definition slot_only :: "nat \<Rightarrow> clients \<Rightarrow> clients \<Rightarrow> entry list \<Rightarrow> entry list \<Rightarrow> bool" where
  "slot_only i cs cs' xs xs' \<longleftrightarrow> (\<exists>c. cs' = cs[i := c] \<and> (uc_fd c = uc_fd (cs ! i) \<or> uc_fd c = - 1)) \<and>
     (\<forall>g. g \<noteq> uc_fd (cs ! i) \<longrightarrow> queued_for g xs' = queued_for g xs)"

lemma inv_remove_slot:
  assumes inv: "uds_inv_but {f} strerror lf m (cs[i := c]) q xs' s"
    and i: "i < length cs" "uc_fd (cs ! i) = f" "f \<noteq> - 1" "uc_fd c = f"
    and others: "\<And>g. g \<noteq> f \<Longrightarrow> queued_for g xs' = queued_for g xs"
  shows "\<exists>cs' q' s' ys. wc_uds_remove_client (cs[i := c]) (Some i) q s = Some (cs', q', s') \<and>
     uds_inv strerror lf m cs' q' ys s' \<and> slot_only i cs cs' xs ys"
proof -
  have i': "i < length (cs[i := c])" "uc_fd (cs[i := c] ! i) = f" using i by simp_all
  obtain d q' s' where r: "wc_uds_remove_client (cs[i := c]) (Some i) q s = Some (cs[i := c, i := d], q', s')"
    "uc_fd d = - 1" "uds_inv strerror lf m (cs[i := c, i := d]) q' (filter (\<lambda>e. fst e \<noteq> f) xs') s'"
    by (rule inv_remove [OF inv i' i(3)])
  have "queued_for g (filter (\<lambda>e. fst e \<noteq> f) xs') = queued_for g xs" if "g \<noteq> f" for g
    using that others [OF that] by (auto intro!: arg_cong [of _ _ "map snd"] filter_cong simp: others [OF that, symmetric])
  then have "slot_only i cs (cs[i := c, i := d]) xs (filter (\<lambda>e. fst e \<noteq> f) xs')"
    using r(2) i(2) unfolding slot_only_def by (intro conjI exI [of _ d]) auto
  with r(1,3) show ?thesis by blast
qed

lemma inv_handle_client:
  assumes inv: "uds_inv strerror lf m cs q xs s" and i: "i < length cs"
  shows "\<exists>cs' q' s' xs'. uds_handle_client i events reads sends cs q s = Some (cs', q', s') \<and>
     uds_inv strerror lf m cs' q' xs' s' \<and> slot_only i cs cs' xs xs'"
proof (cases "uc_fd (cs ! i) = - 1")
  case True
  have "slot_only i cs cs xs xs" unfolding slot_only_def by (intro conjI exI [of _ "cs ! i"]) auto
  with True inv show ?thesis by (auto simp: uds_handle_client_def)
next
  case False
  define f where "f = uc_fd (cs ! i)"
  have f: "uc_fd (cs ! i) = f" "f \<noteq> - 1" using False by (simp_all add: f_def)
  note unf = uds_handle_client_def [of i events reads sends cs q s, unfolded f(1) if_not_P [OF f(2)]]
  obtain st1 c1 q1 s1 xs1 where r: "(if events AND 1 \<noteq> 0 then wc_uds_read_client (cs ! i) q reads s
      else Some (wc_ok, cs ! i, q, s)) = Some (st1, c1, q1, s1)" "uc_fd c1 = f"
    "uds_inv_but {f} strerror lf m (cs[i := c1]) q1 xs1 s1"
    "st1 = wc_ok \<Longrightarrow> uds_inv strerror lf m (cs[i := c1]) q1 xs1 s1"
    "\<And>g. g \<noteq> f \<Longrightarrow> queued_for g xs1 = queued_for g xs"
  proof (cases "events AND 1 \<noteq> 0")
    case True
    show ?thesis
      by (rule inv_read [OF inv i f, of reads]) (use that True in auto)
  next
    case False
    then show ?thesis
      using inv f by (intro that [of wc_ok "cs ! i" q s xs]) (auto simp: uds_inv_but_def)
  qed
  note unf1 = unf [unfolded r(1) Option.bind.bind_lunit prod.case]
  show ?thesis
  proof (cases "st1 = wc_ok")
    case False
    from inv_remove_slot [OF r(3) i f r(2,5)] show ?thesis using False by (simp add: unf1)
  next
    case True
    note inv1 = r(4) [OF True]
    have i1: "i < length (cs[i := c1])" "uc_fd (cs[i := c1] ! i) = f" using i r(2) by simp_all
    obtain st2 c2 s2 where w: "(if events AND 4 \<noteq> 0 then wc_uds_write_client c1 sends s1
        else Some (wc_ok, c1, s1)) = Some (st2, c2, s2)" "uc_fd c2 = f"
      "uds_inv strerror lf m (cs[i := c2]) q1 xs1 s2"
    proof (cases "events AND 4 \<noteq> 0")
      case True
      show ?thesis
        by (rule inv_write [OF inv1 i1 f(2), of sends]) (use that True i in auto)
    next
      case False
      then show ?thesis using inv1 r(2) by (intro that [of wc_ok c1 s1]) auto
    qed
    note unf2 = unf1 [unfolded w(1) Option.bind.bind_lunit prod.case]
    have but: "uds_inv_but {f} strerror lf m (cs[i := c2]) q1 xs1 s2"
      using w(3) by (auto simp: uds_inv_but_def)
    note rem = inv_remove_slot [OF but i f w(2) r(5)]
    have "slot_only i cs (cs[i := c2]) xs xs1"
      using w(2) f r(5) unfolding slot_only_def by (intro conjI exI [of _ c2]) auto
    then show ?thesis
      using rem w(3) True unfolding unf2 by (cases "st2 = wc_ok"; cases "events AND (8 OR 16 OR 32) = 0") auto
  qed
qed

lemma inv_handle_clients:
  assumes "uds_inv strerror lf m cs q xs s" "\<forall>i \<in> set is. i < length cs"
  shows "\<exists>cs' q' s' xs'. uds_handle_clients is revents reads sends cs q s = Some (cs', q', s') \<and>
     uds_inv strerror lf m cs' q' xs' s'"
  using assms
proof (induction "is" arbitrary: cs q xs s)
  case Nil
  then show ?case by auto
next
  case (Cons i "is")
  then obtain cs1 q1 s1 xs1 where h: "uds_handle_client i (revents i) (reads i) (sends i) cs q s = Some (cs1, q1, s1)"
    "uds_inv strerror lf m cs1 q1 xs1 s1" "slot_only i cs cs1 xs xs1"
    using inv_handle_client [of strerror lf m cs q xs s i] by (metis list.set_intros(1))
  have "\<forall>i \<in> set is. i < length cs1" using h(3) Cons.prems(2) by (auto simp: slot_only_def)
  from Cons.IH [OF h(2) this] h(1) show ?case by auto
qed

section \<open>Processing of the queue\<close>

lemma queue_lent_effect:
  assumes "queue_lent q s xs p" "effect s s' evs" "s_nodes s' = s_nodes s"
  shows "queue_lent q s' xs p"
proof -
  have "queue_at q s ps \<Longrightarrow> queue_at q s' ps" for ps
    using assms(2,3) by (force simp: queue_at_def nodes_ok_def effect_def)
  then show ?thesis using assms(1,3) by (auto simp: queue_lent_def)
qed

text \<open>
  The head request is answered: its node is taken out, the answer becomes the client's
  output, and the node is freed.
\<close>

lemma answer_head:
  assumes core: "uds_core m cs q ((f, t, a) # xs) s" and i: "i < length cs" "uc_fd (cs ! i) = f" "f \<noteq> - 1"
    and empty: "out_bytes (cs ! i) = []"
  obtains p n q1 s1 st c s2 s3 cmds where
    "wc_request_queue_dequeue q s = Some (Inr p, q1, s1)" "s_nodes s1 p = Some n"
    "wc_uds_encode_command_response strerror (cs ! i) n s1 = Some (st, c, s2)"
    "wc_queued_request_destroy (Some p) s2 = Some s3"
    "client_wf c" "uc_fd c = f" "uc_input c = uc_input (cs ! i)" "queue_holds q1 s3 xs"
    "effect s s3 (map Ev_run cmds)" "cmds_ok t a cmds" "s_live s3 = s_live s + owned c - owned (cs ! i)"
    "st = wc_ok \<and> (\<exists>d. out_bytes c = response_frame d \<and> answered_ok strerror s (t, a, d)) \<or>
     st = Inl ENOMEM \<and> \<not> mem_ample s"
proof -
  let ?c = "cs ! i"
  note found = that and D = uds_coreD [OF core]
  have wf: "client_wf ?c" using D(6) i by simp
  then have b: "buf_wf (uc_output ?c)" "buf_bytes (uc_output ?c) = []" "buf_max_size (uc_output ?c) = 65537"
    using empty by (auto simp: client_wf_def)
  obtain p n q1 s1 where d: "wc_request_queue_dequeue q s = Some (Inr p, q1, s1)"
    "queue_lent q1 s1 xs p" "s_nodes s1 p = Some n" "entry_of n = (f, t, a)"
    "unat (qr_argument_length n) = length (qr_argument n)" "queue_frame s s1"
    by (rule dequeue_holds [OF D(3)])
  have n: "qr_type n = t" "qr_argument n = a" using d(4) by (simp_all add: entry_of_def)
  have la: "length a \<le> 65535" using D(7) [of "(f, t, a)"] by (simp add: entry_ok_def)
  have rd: "readable (Some (qr_argument n)) (qr_argument_length n)" "unat (qr_argument_length n) \<le> 65535"
      "take (unat (qr_argument_length n)) (opt_bytes (Some (qr_argument n))) = a"
    using d(5) n la by (simp_all add: readable_def opt_bytes_def)
  have s1: "s_popen s1 = s_popen s" "mem_ample s1 = mem_ample s" "s_live s1 = s_live s"
    using d(6) by (auto simp: queue_frame_def mem_ample_def)
  have fin: thesis if r: "ref_respond strerror (uc_output ?c) (qr_type n) (Some (qr_argument n)) (qr_argument_length n) s1 =
        Some (st, b', s2)" "buf_wf b'" "buf_max_size b' = 65537" "run_frame s1 s2 cmds" "cmds_ok t a cmds"
      "s_live s2 = s_live s1 + buf_owned b' - buf_owned (uc_output ?c)"
      "st = wc_ok \<and> (\<exists>d. buf_bytes b' = response_frame d \<and> answered_ok strerror s (t, a, d)) \<or>
       st = Inl ENOMEM \<and> \<not> mem_ample s" for st b' s2 cmds
  proof -
    let ?c' = "?c\<lparr>uc_output := b'\<rparr>"
    have lent: "queue_lent q1 s2 xs p"
      by (rule queue_lent_effect [OF d(2) run_frame_effect [OF r(4)]]) (use r(4) in \<open>simp add: run_frame_def\<close>)
    obtain s3 where e: "wc_queued_request_destroy (Some p) s2 = Some s3" "queue_holds q1 s3 xs" "queue_frame s2 s3"
      by (rule destroy_lent [OF lent])
    have eff: "effect s s3 (map Ev_run cmds)"
      using effect_trans [OF effect_trans [OF queue_frame_effect [OF d(6)] run_frame_effect [OF r(4)]]
          queue_frame_effect [OF e(3)]] by simp
    have enc: "wc_uds_encode_command_response strerror ?c n s1 = Some (st, ?c', s2)"
      by (simp add: uds_encode_eq r(1))
    have live: "s_live s3 = s_live s + owned ?c' - owned ?c"
      using r(6) e(3) s1(3) i by (simp add: owned_def queue_frame_def)
    show thesis
      by (rule found [OF d(1,3) enc e(1) _ _ _ e(2) eff r(5) live])
         (use wf r(2,3,7) i in \<open>auto simp: client_wf_def\<close>)
  qed
  show thesis
  proof (rule ref.respond_cases [OF b rd, of strerror "qr_type n" s1])
    fix b' s' cmds d
    assume r: "ref_respond strerror (uc_output ?c) (qr_type n) (Some (qr_argument n)) (qr_argument_length n) s1 =
        Some (wc_ok, b', s')" "buf_wf b'" "buf_max_size b' = 65537" "run_frame s1 s' cmds"
      "s_live s' = s_live s1 + buf_owned b' - buf_owned (uc_output ?c)"
      "length d \<le> 65535" "buf_bytes b' = response_frame d"
      "answers strerror (s_popen s1) (mem_ample s1) (qr_type n) a cmds d"
    have c: "cmds_ok t a cmds" using answers_cmds_ok [OF r(8)] n(1) by simp
    show thesis by (rule fin [OF r(1-4) c r(5)]) (use r(6-8) n s1 in \<open>auto simp: answered_ok_def\<close>)
  next
    fix b' s' cmds
    assume r: "ref_respond strerror (uc_output ?c) (qr_type n) (Some (qr_argument n)) (qr_argument_length n) s1 =
        Some (Inl ENOMEM, b', s')" "buf_wf b'" "buf_max_size b' = 65537" "run_frame s1 s' cmds"
      "cmds_ok (qr_type n) a cmds" "s_live s' = s_live s1 + buf_owned b' - buf_owned (uc_output ?c)"
      "\<not> mem_ample s1"
    show thesis by (rule fin [OF r(1-4) _ r(6)]) (use r(5,7) n s1 in auto)
  qed
qed

lemma session_answer:
  assumes "session_is strerror s f ((t, a) # queued) inp [] ans" "answered_ok strerror s (t, a, d)"
    and "effect s s' (map Ev_run cmds)"
  shows "session_is strerror s' f queued inp (response_frame d) (ans @ [(t, a, d)])"
proof -
  have "Ev_open f \<notin> set (map Ev_run cmds)" by auto
  then show ?thesis
    using assms(1,2)
    by (simp add: session_is_def effect_trace [OF assms(3)] session_append answered_ok_effect [OF assms(3)])
qed

lemma inv_answer:
  assumes inv: "uds_inv strerror lf m cs q ((f, t, a) # xs) s"
    and i: "i < length cs" "uc_fd (cs ! i) = f" "f \<noteq> - 1" and empty: "out_bytes (cs ! i) = []"
  obtains p n q1 s1 st c s2 s3 where
    "wc_request_queue_dequeue q s = Some (Inr p, q1, s1)" "s_nodes s1 p = Some n"
    "wc_uds_encode_command_response strerror (cs ! i) n s1 = Some (st, c, s2)"
    "wc_queued_request_destroy (Some p) s2 = Some s3" "uc_fd c = f" "mem_ample s3 = mem_ample s"
    "st = wc_ok \<and> uds_inv strerror lf m (cs[i := c]) q1 xs s3 \<or>
     st = Inl ENOMEM \<and> \<not> mem_ample s \<and> uds_inv_but {f} strerror lf m (cs[i := c]) q1 xs s3"
proof -
  have core: "uds_core m cs q ((f, t, a) # xs) s" and ses: "session_ok strerror s ((f, t, a) # xs) (cs ! i)"
    using inv i by (auto simp: uds_inv_but_def)
  note D = uds_coreD [OF core]
  obtain p n q1 s1 st c s2 s3 cmds where A: "wc_request_queue_dequeue q s = Some (Inr p, q1, s1)" "s_nodes s1 p = Some n"
    "wc_uds_encode_command_response strerror (cs ! i) n s1 = Some (st, c, s2)"
    "wc_queued_request_destroy (Some p) s2 = Some s3"
    "client_wf c" "uc_fd c = f" "uc_input c = uc_input (cs ! i)" "queue_holds q1 s3 xs"
    "effect s s3 (map Ev_run cmds)" "cmds_ok t a cmds" "s_live s3 = s_live s + owned c - owned (cs ! i)"
    "st = wc_ok \<and> (\<exists>d. out_bytes c = response_frame d \<and> answered_ok strerror s (t, a, d)) \<or>
     st = Inl ENOMEM \<and> \<not> mem_ample s"
    by (rule answer_head [OF core i empty])
  have ok: "length xs \<le> 256" "\<forall>e \<in> set xs. entry_ok cs e" using D(4,7) by auto
  have others: "queued_for g xs = queued_for g ((f, t, a) # xs)" if "g \<noteq> f" for g using that by simp
  note U = inv_update [OF inv i A(6,5,8) ok others A(9) evs_of_runs [OF A(10)] A(11)]
  have "session_ok strerror s3 xs c" if d: "out_bytes c = response_frame d" "answered_ok strerror s (t, a, d)" for d
  proof -
    from ses obtain ans where "session_is strerror s f ((t, a) # queued_for f xs) (in_bytes c) [] ans"
      using i(2) empty A(7) by (auto simp: session_ok_def)
    from session_answer [OF this d(2) A(9)] d(1) A(6) show ?thesis by (auto simp: session_ok_def)
  qed
  moreover have "sent_to f (map Ev_run cmds) = []" by simp
  then have "uds_inv_but {f} strerror lf m (cs[i := c]) q1 xs s3" by (rule U(1) [rotated])
  ultimately have "st = wc_ok \<and> uds_inv strerror lf m (cs[i := c]) q1 xs s3 \<or>
     st = Inl ENOMEM \<and> \<not> mem_ample s \<and> uds_inv_but {f} strerror lf m (cs[i := c]) q1 xs s3"
    using U(2) A(12) by blast
  then show ?thesis by (rule that [OF A(1-4,6) effect_mem_ample [OF A(9)]])
qed

text \<open>
  The loop ends with an empty queue or with a client at its head whose output is pending.
\<close>

definition blocked :: "clients \<Rightarrow> entry list \<Rightarrow> bool" where
  "blocked cs xs \<longleftrightarrow> xs \<noteq> [] \<and> (\<exists>c \<in> set cs. uc_fd c = fst (hd xs) \<and> out_bytes c \<noteq> [])"

lemma inv_process_queue:
  assumes "uds_inv strerror lf m cs q xs s"
  shows "\<exists>cs' q' s' xs'. wc_uds_process_queue strerror cs q s = Some (cs', q', s') \<and>
     uds_inv strerror lf m cs' q' xs' s' \<and> (xs' = [] \<or> blocked cs' xs') \<and>
     (mem_ample s \<longrightarrow> live_fds cs' = live_fds cs)"
  using assms
proof (induction "length xs" arbitrary: cs q xs s rule: less_induct)
  case less
  have core: "uds_core m cs q xs s" using less.prems by (simp add: uds_inv_but_def)
  note D = uds_coreD [OF core] and unf = wc_uds_process_queue.simps [of strerror cs q s]
  show ?case
  proof (cases xs)
    case Nil
    then have "wc_request_queue_peek q = None" using queue_holds_peek [OF D(3)] by simp
    with less.prems Nil show ?thesis by (simp add: unf) blast
  next
    case (Cons e ys)
    obtain f t a where e: "e = (f, t, a)" by (cases e)
    obtain p0 n0 where pk: "wc_request_queue_peek q = Some p0" "s_nodes s p0 = Some n0" "entry_of n0 = (f, t, a)"
      using queue_holds_peek [OF D(3)] Cons e by auto
    have fd: "qr_client_fd n0 = f" using pk(3) by (simp add: entry_of_def)
    have "f \<in> set (live_fds cs)" using D(7) [of e] Cons e by (simp add: entry_ok_def)
    then obtain i where i: "wc_uds_find_client cs f = Some i" "i < length cs" "uc_fd (cs ! i) = f" "f \<noteq> - 1"
      by (rule find_live)
    note unf1 = unf [unfolded pk(1,2) option.case Option.bind.bind_lunit fd i(1)]
    have wf: "client_wf (cs ! i)" using D(6) i by simp
    then have len: "buf_length (uc_output (cs ! i)) = 0 \<longleftrightarrow> out_bytes (cs ! i) = []"
      by (simp add: client_wf_def buf_length_zero_iff)
    show ?thesis
    proof (cases "out_bytes (cs ! i) = []")
      case False
      then have "blocked cs xs" using i Cons e nth_mem [OF i(2)] by (auto simp: blocked_def)
      with False less.prems show ?thesis unfolding unf1 len by auto
    next
      case True
      obtain p n q1 s1 st c s2 s3 where A: "wc_request_queue_dequeue q s = Some (Inr p, q1, s1)" "s_nodes s1 p = Some n"
        "wc_uds_encode_command_response strerror (cs ! i) n s1 = Some (st, c, s2)"
        "wc_queued_request_destroy (Some p) s2 = Some s3" "uc_fd c = f" "mem_ample s3 = mem_ample s"
        "st = wc_ok \<and> uds_inv strerror lf m (cs[i := c]) q1 ys s3 \<or>
         st = Inl ENOMEM \<and> \<not> mem_ample s \<and> uds_inv_but {f} strerror lf m (cs[i := c]) q1 ys s3"
        by (rule inv_answer [OF less.prems [unfolded Cons e] i(2-4) True])
      note unf2 = unf1 [unfolded len A(1-4) option.case Option.bind.bind_lunit prod.case sum.case]
      have live: "live_fds (cs[i := c]) = live_fds cs" using i A(5) by (simp add: live_fds_update)
      from A(7) show ?thesis
      proof
        assume ok: "st = wc_ok \<and> uds_inv strerror lf m (cs[i := c]) q1 ys s3"
        have "length ys < length xs" using Cons by simp
        from less.hyps [OF this conjunct2 [OF ok]] show ?thesis
          using True ok live A(6) unfolding unf2 by simp
      next
        assume bad: "st = Inl ENOMEM \<and> \<not> mem_ample s \<and> uds_inv_but {f} strerror lf m (cs[i := c]) q1 ys s3"
        have i': "i < length (cs[i := c])" "uc_fd (cs[i := c] ! i) = f" using i A(5) by simp_all
        obtain d q4 s4 where R: "wc_uds_remove_client (cs[i := c]) (Some i) q1 s3 = Some (cs[i := c, i := d], q4, s4)"
          "uds_inv strerror lf m (cs[i := c, i := d]) q4 (filter (\<lambda>e. fst e \<noteq> f) ys) s4"
          by (rule inv_remove [OF _ i' i(4)]) (use bad in auto)
        have "length (filter (\<lambda>e. fst e \<noteq> f) ys) < length xs"
          using Cons length_filter_le [of "\<lambda>e. fst e \<noteq> f" ys] by (simp add: less_Suc_eq_le)
        from less.hyps [OF this R(2)] show ?thesis
          using True bad R(1) unfolding unf2 by auto
      qed
    qed
  qed
qed

end
