(* ===== verification/WC_UDS_Run.thy ===== *)
theory WC_UDS_Run
  imports WC_UDS_Invariant
begin

text \<open>
  The single-threaded server as a whole: acceptance of connections, the event loop, the
  shutdown, and the properties of a run of the server.
\<close>

section \<open>Accepting connections\<close>

lemma add_client_spec:
  assumes "wc_uds_has_free_client_slot cs"
  obtains i c where "i < length cs" "uc_fd (cs ! i) = - 1" "wc_uds_add_client cs f s = (wc_ok, cs[i := c], s)"
    "uc_fd c = f" "uc_input c = snd (wc_buffer_init 65535)" "uc_output c = snd (wc_buffer_init 65537)"
  using assms
proof (induction cs arbitrary: thesis)
  case Nil
  then show ?case by simp
next
  case (Cons c0 cs)
  show ?case
  proof (cases "uc_fd c0 = - 1")
    case True
    then show ?thesis
      by (intro Cons.prems(1) [of 0 "c0\<lparr>uc_input := snd (wc_buffer_init 65535), uc_output := snd (wc_buffer_init 65537),
          uc_fd := f\<rparr>"]) (simp_all add: wc_buffer_init_def)
  next
    case False
    then have "wc_uds_has_free_client_slot cs" using Cons.prems(2) by simp
    then obtain i c where "i < length cs" "uc_fd (cs ! i) = - 1" "wc_uds_add_client cs f s = (wc_ok, cs[i := c], s)"
      "uc_fd c = f" "uc_input c = snd (wc_buffer_init 65535)" "uc_output c = snd (wc_buffer_init 65537)"
      using Cons.IH by blast
    with False show ?thesis by (intro Cons.prems(1) [of "Suc i" c]) auto
  qed
qed

lemma live_fds_fresh:
  assumes "i < length cs" "uc_fd (cs ! i) = - 1" "uc_fd c \<noteq> - 1" "uc_fd c \<notin> set (live_fds cs)" "distinct (live_fds cs)"
  shows "distinct (live_fds (cs[i := c]))" "set (live_fds (cs[i := c])) = insert (uc_fd c) (set (live_fds cs))"
proof -
  have u: "live_fds (cs[i := c]) = live_fds (take i cs) @ uc_fd c # live_fds (drop (Suc i) cs)"
    using assms(1,3) by (simp add: upd_conv_take_nth_drop live_fds_def)
  have s: "live_fds cs = live_fds (take i cs) @ live_fds (drop (Suc i) cs)"
    using live_fds_split [OF assms(1)] assms(2) by (simp add: live_fds_def)
  show "distinct (live_fds (cs[i := c]))" "set (live_fds (cs[i := c])) = insert (uc_fd c) (set (live_fds cs))"
    using assms(4,5) unfolding u s by auto
qed

lemma inv_reject:
  assumes inv: "uds_inv strerror lf m cs q xs s" and f: "f \<notin> insert lf (set (live_fds cs))"
  shows "uds_inv strerror lf m cs q xs (s_emit (Ev_close f) (s_emit (Ev_open f) s))" (is "uds_inv _ _ _ _ _ _ ?s")
proof -
  have eff: "effect s ?s [Ev_open f, Ev_close f]"
    using effect_trans [OF effect_emit effect_emit, where s = s] by simp
  have q: "queue_holds q ?s xs"
    by (rule queue_holds_effect [OF _ eff]) (use inv in \<open>auto simp: uds_inv_but_def uds_core_def\<close>)
  have core: "uds_core m cs q xs ?s" and tr: "uds_trace lf cs ?s"
    using inv q f by (auto simp: uds_inv_but_def uds_core_def uds_trace_def fd_run_append)
  have "session_ok strerror ?s xs c" if "c \<in> set cs" "uc_fd c \<noteq> - 1" for c
  proof -
    have ne: "uc_fd c \<noteq> f" using that f by (auto simp: in_live_fds)
    have "session_is strerror ?s (uc_fd c) = session_is strerror s (uc_fd c)"
      by (rule session_other [OF eff _ ne]) simp
    with inv that show ?thesis by (simp add: uds_inv_but_def session_ok_def)
  qed
  moreover have "history_ok strerror ?s g" for g
    by (rule history_keep [OF history_open effect_emit]) (use inv in \<open>simp_all add: uds_inv_but_def\<close>)
  ultimately show ?thesis using core tr by (simp add: uds_inv_but_def)
qed

lemma inv_add:
  assumes inv: "uds_inv strerror lf m cs q xs s" and f: "0 \<le> f" "f \<notin> insert lf (set (live_fds cs))"
    and free: "wc_uds_has_free_client_slot cs"
  obtains i c where "wc_uds_add_client cs f (s_emit (Ev_open f) s) = (wc_ok, cs[i := c], s_emit (Ev_open f) s)"
    "uds_inv strerror lf m (cs[i := c]) q xs (s_emit (Ev_open f) s)" "set (live_fds (cs[i := c])) = insert f (set (live_fds cs))"
proof -
  let ?s = "s_emit (Ev_open f) s"
  obtain i c where a: "i < length cs" "uc_fd (cs ! i) = - 1" "wc_uds_add_client cs f ?s = (wc_ok, cs[i := c], ?s)"
    "uc_fd c = f" "uc_input c = snd (wc_buffer_init 65535)" "uc_output c = snd (wc_buffer_init 65537)"
    by (rule add_client_spec [OF free])
  have core: "uds_core m cs q xs s" and tr: "uds_trace lf cs s" using inv by (auto simp: uds_inv_but_def)
  note D = uds_coreD [OF core]
  have wf: "client_wf c" and c: "in_bytes c = []" "out_bytes c = []" "owned c = 0"
    using a(4-6) f(1) by (simp_all add: client_wf_def owned_def)
  have L: "distinct (live_fds (cs[i := c]))" "set (live_fds (cs[i := c])) = insert f (set (live_fds cs))"
    using live_fds_fresh [OF a(1,2), of c] a(4) f D(2) by auto
  have q: "queue_holds q ?s xs" by (rule queue_holds_effect [OF D(3) effect_emit]) simp
  have wfs: "\<forall>x \<in> set (cs[i := c]). uc_fd x \<noteq> - 1 \<longrightarrow> client_wf x"
    using D(6) wf set_update_subset_insert [of cs i c] by blast
  have core': "uds_core m (cs[i := c]) q xs ?s"
    using D q L wfs c(3) sum_list_update_int [OF a(1), of c] a(2) by (auto simp: uds_core_def entry_ok_def owned_def)
  have "insert f (insert lf (set (live_fds cs))) = insert lf (insert f (set (live_fds cs)))" by blast
  then have tr': "uds_trace lf (cs[i := c]) ?s"
    using tr f L(2) by (auto simp: uds_trace_def fd_run_append)
  have "session_ok strerror ?s xs x" if x: "x \<in> set (cs[i := c])" "uc_fd x \<noteq> - 1" for x
  proof (cases "x = c")
    case True
    have "queued_for f xs = []" using D(7) f(2) by (auto simp: entry_ok_def filter_empty_conv)
    then show ?thesis using True a(4) c session_fresh by (auto simp: session_ok_def intro: exI [of _ "[]"])
  next
    case False
    then have x': "x \<in> set cs" using x(1) set_update_subset_insert [of cs i c] by auto
    then have ne: "uc_fd x \<noteq> f" using x(2) f(2) by (auto simp: in_live_fds)
    have "session_is strerror ?s (uc_fd x) = session_is strerror s (uc_fd x)"
      by (rule session_other [OF effect_emit _ ne]) simp
    with inv x(2) x' show ?thesis by (simp add: uds_inv_but_def session_ok_def)
  qed
  moreover have "history_ok strerror ?s g" for g
    by (rule history_open) (use inv in \<open>simp add: uds_inv_but_def\<close>)
  ultimately have "uds_inv strerror lf m (cs[i := c]) q xs ?s" using core' tr' by (simp add: uds_inv_but_def)
  then show ?thesis by (rule that [OF a(3) _ L(2)])
qed

lemma inv_accept:
  assumes "uds_inv strerror lf m cs q xs s" "list_all fresh_accept script"
  shows "\<exists>cs' s'. wc_uds_accept_clients lf cs script s = (cs', s') \<and> uds_inv strerror lf m cs' q xs s' \<and>
     set (live_fds cs) \<subseteq> set (live_fds cs')"
  using assms
proof (induction script arbitrary: cs s)
  case Nil
  then show ?case by simp
next
  case (Cons x script)
  have fr: "list_all fresh_accept script" using Cons.prems(2) by simp
  show ?case
  proof (cases "wc_uds_has_free_client_slot cs")
    case False
    with Cons.prems show ?thesis by simp
  next
    case free: True
    show ?thesis
    proof (cases x)
      case (Accept_error e)
      with free Cons.IH [OF Cons.prems(1) fr] Cons.prems(1) show ?thesis by (cases "e = EINTR") auto
    next
      case (Accept_fd pick flags fcntls)
      define f where "f = pick (lf # live_fds cs)"
      have "\<forall>fds. 0 \<le> pick fds \<and> pick fds \<notin> set fds"
        using Cons.prems(2) Accept_fd by (simp add: fresh_accept_def)
      from spec [OF this, of "lf # live_fds cs"]
      have f: "0 \<le> f" "f \<notin> insert lf (set (live_fds cs))" unfolding f_def by simp_all
      have nn: "\<not> \<not> wc_uds_has_free_client_slot cs" using free by simp
      note unf = wc_uds_accept_clients.simps(2) [of lf cs x script s, unfolded Accept_fd accept_outcome.case
          Let_def f_def [symmetric] if_not_P [OF nn]]
      show ?thesis
      proof (cases "fst (wc_socket_set_nonblocking flags fcntls)")
        case (Inl e)
        with Cons.IH [OF inv_reject [OF Cons.prems(1) f(2)] fr] show ?thesis unfolding Accept_fd unf by simp
      next
        case (Inr u)
        obtain i c where a: "wc_uds_add_client cs f (s_emit (Ev_open f) s) = (wc_ok, cs[i := c], s_emit (Ev_open f) s)"
          "uds_inv strerror lf m (cs[i := c]) q xs (s_emit (Ev_open f) s)" "set (live_fds (cs[i := c])) = insert f (set (live_fds cs))"
          by (rule inv_add [OF Cons.prems(1) f free])
        from Cons.IH [OF a(2) fr] Inr a(1,3) show ?thesis unfolding Accept_fd unf by auto
      qed
    qed
  qed
qed

section \<open>The event loop\<close>

lemma inv_iteration:
  assumes inv: "uds_inv strerror lf m cs q xs s" and fresh: "list_all fresh_accept (io_accepts io)"
  shows "\<exists>st cs' q' s' xs'. uds_iteration strerror lf io cs q s = Some (st, cs', q', s') \<and>
     uds_inv strerror lf m cs' q' xs' s'"
proof -
  obtain cs1 q1 s1 xs1 where p: "wc_uds_process_queue strerror cs q s = Some (cs1, q1, s1)"
    "uds_inv strerror lf m cs1 q1 xs1 s1"
    using inv_process_queue [OF inv] by blast
  define idx where "idx = filter (\<lambda>i. uc_fd (cs1 ! i) \<noteq> - 1) [0..<length cs1]"
  obtain ds where b: "wc_uds_build_poll_list lf cs1 = (ds, idx)"
    by (simp add: wc_uds_build_poll_list_def Let_def idx_def)
  note unf = uds_iteration_def [of strerror lf io cs q s, unfolded p(1) Option.bind.bind_lunit prod.case b Let_def]
  show ?thesis
  proof (cases "io_poll io ds")
    case (Inl e)
    then show ?thesis using p(2) unfolding unf by auto
  next
    case (Inr r)
    obtain lr revents where r: "r = (lr, revents)" by (cases r)
    have "\<forall>i \<in> set idx. i < length cs1" by (simp add: idx_def)
    from inv_handle_clients [OF p(2) this, of revents "io_reads io" "io_sends io"]
    obtain cs2 q2 s2 xs2 where h: "uds_handle_clients idx revents (io_reads io) (io_sends io) cs1 q1 s1 = Some (cs2, q2, s2)"
      "uds_inv strerror lf m cs2 q2 xs2 s2" by blast
    obtain cs3 s3 where a: "wc_uds_accept_clients lf cs2 (io_accepts io) s2 = (cs3, s3)"
      "uds_inv strerror lf m cs3 q2 xs2 s3"
      using inv_accept [OF h(2) fresh] by blast
    show ?thesis
      using p(2) h(2) a(2) unfolding unf Inr r sum.case prod.case h(1) Option.bind.bind_lunit a(1)
      by (cases "lr AND (8 OR 16 OR 32) = 0"; cases "lr AND 1 = 0") auto
  qed
qed

lemma inv_loop:
  assumes "uds_inv strerror lf m cs q xs s" "list_all (\<lambda>io. list_all fresh_accept (io_accepts io)) ios"
  shows "\<exists>st cs' q' s' xs'. uds_loop strerror lf ios cs q s = Some (st, cs', q', s') \<and>
     uds_inv strerror lf m cs' q' xs' s'"
  using assms
proof (induction ios arbitrary: cs q xs s)
  case Nil
  then show ?case by auto
next
  case (Cons io ios)
  obtain st cs1 q1 s1 xs1 where i: "uds_iteration strerror lf io cs q s = Some (st, cs1, q1, s1)"
    "uds_inv strerror lf m cs1 q1 xs1 s1"
    using inv_iteration [OF Cons.prems(1), of io] Cons.prems(2) by auto
  show ?case using Cons.IH [OF i(2)] Cons.prems(2) i by (cases "st = wc_ok") auto
qed

section \<open>Shutdown\<close>

lemma inv_close_loop:
  assumes "uds_inv strerror lf m cs q xs s" "\<forall>i \<in> set is. i < length cs"
  shows "\<exists>cs' q' s' xs'. close_loop is cs q s = Some (cs', q', s') \<and> uds_inv strerror lf m cs' q' xs' s' \<and>
     length cs' = length cs \<and> (\<forall>j < length cs. j \<in> set is \<or> uc_fd (cs ! j) = - 1 \<longrightarrow> uc_fd (cs' ! j) = - 1)"
  using assms
proof (induction "is" arbitrary: cs q xs s)
  case Nil
  then show ?case by auto
next
  case (Cons i "is")
  have i: "i < length cs" using Cons.prems(2) by simp
  obtain cs1 q1 s1 xs1 where r: "wc_uds_remove_client cs (Some i) q s = Some (cs1, q1, s1)"
    "uds_inv strerror lf m cs1 q1 xs1 s1" "length cs1 = length cs" "uc_fd (cs1 ! i) = - 1"
    "\<forall>j < length cs. uc_fd (cs ! j) = - 1 \<longrightarrow> uc_fd (cs1 ! j) = - 1"
  proof (cases "uc_fd (cs ! i) = - 1")
    case True
    then show ?thesis using Cons.prems(1) i by (intro that [of cs q s xs]) (auto simp: wc_uds_remove_client_def)
  next
    case False
    have but: "uds_inv_but {uc_fd (cs ! i)} strerror lf m cs q xs s"
      using Cons.prems(1) by (auto simp: uds_inv_but_def)
    obtain c q' s' where "wc_uds_remove_client cs (Some i) q s = Some (cs[i := c], q', s')" "uc_fd c = - 1"
      "uds_inv strerror lf m (cs[i := c]) q' (filter (\<lambda>e. fst e \<noteq> uc_fd (cs ! i)) xs) s'"
      by (rule inv_remove [OF but i refl False])
    then show ?thesis using i by (intro that [of "cs[i := c]"]) (auto simp: nth_list_update)
  qed
  have "\<forall>i \<in> set is. i < length cs1" using Cons.prems(2) r(3) by simp
  from Cons.IH [OF r(2) this] r show ?case by auto
qed

text \<open>After the loop over the whole table nothing is left but the listener.\<close>

lemma inv_empty:
  assumes inv: "uds_inv strerror lf m cs q xs s" and dead: "\<forall>j < length cs. uc_fd (cs ! j) = - 1"
  shows "xs = []" "s_live s = m" "s_nodes s = Map.empty" "fd_run {} (s_trace s) = Some {lf}"
    "\<And>cmd. Ev_run cmd \<in> set (s_trace s) \<Longrightarrow> safe_command cmd" "\<And>f. history_ok strerror s f"
proof -
  have d: "uc_fd c = - 1" if "c \<in> set cs" for c using dead that by (auto simp: in_set_conv_nth)
  then have l: "live_fds cs = []" by (simp add: live_fds_def filter_empty_conv)
  have core: "uds_core m cs q xs s" using inv by (simp add: uds_inv_but_def)
  note D = uds_coreD [OF core]
  show xs: "xs = []" using D(7) l by (cases xs) (auto simp: entry_ok_def)
  have "sum_list (map owned cs) = 0" using d by (induction cs) (auto simp: owned_def)
  then show "s_live s = m" using D(5) by simp
  show "s_nodes s = Map.empty" using D(3) xs by (auto simp: queue_holds_def entries_def)
  show "fd_run {} (s_trace s) = Some {lf}" "\<And>cmd. Ev_run cmd \<in> set (s_trace s) \<Longrightarrow> safe_command cmd"
    "\<And>f. history_ok strerror s f"
    using inv l by (auto simp: uds_inv_but_def uds_trace_def)
qed

section \<open>A run of the server\<close>

lemma inv_init:
  assumes "length table = 64" "s_nodes s = Map.empty" "s_trace s = [Ev_open lf, Ev_unlink p]"
  shows "uds_inv strerror lf (s_live s) (wc_uds_clients_init table) (snd wc_request_queue_init) [] s"
proof -
  have dead: "\<forall>c \<in> set (wc_uds_clients_init table). uc_fd c = - 1" by (simp add: wc_uds_clients_init_def)
  then have l: "live_fds (wc_uds_clients_init table) = []" by (simp add: live_fds_def filter_empty_conv)
  have sum: "sum_list (map owned cs) = 0" if "\<forall>c \<in> set cs. uc_fd c = - 1" for cs
    using that by (induction cs) (auto simp: owned_def)
  have len: "length (wc_uds_clients_init table) = 64" using assms(1) by (simp add: wc_uds_clients_init_def)
  have core: "uds_core (s_live s) (wc_uds_clients_init table) (snd wc_request_queue_init) [] s"
    unfolding uds_core_def sum [OF dead] using len l dead queue_holds_init [OF assms(2)] by simp
  have "session_sent f (s_trace s) = []" for f by (simp add: assms(3) session_sent_def)
  then have "history_ok strerror s f" for f unfolding history_ok_def by (intro exI [of _ "[]"]) simp
  moreover have "uds_trace lf (wc_uds_clients_init table) s"
    unfolding uds_trace_def l assms(3) by simp
  ultimately show ?thesis using core dead by (simp add: uds_inv_but_def)
qed

text \<open>
  Opening the listener: either nothing was opened, or the new descriptor is closed again
  before the error is returned, or all calls succeeded.
\<close>

lemma open_listener_cases:
  obtains (fails) e s1 evs where "wc_uds_open_listener p env s = (Inl e, s1)" "s_live s1 = s_live s"
      "s_nodes s1 = s_nodes s" "s_trace s1 = s_trace s @ evs"
      "evs = [] \<or> (\<exists>f us vs. le_socket env = Inr f \<and> evs = Ev_open f # map Ev_unlink us @ Ev_close f # map Ev_unlink vs)"
  | (opens) f pth where "p = Some pth" "le_socket env = Inr f"
      "wc_uds_open_listener p env s = (Inr f, s_emit (Ev_unlink pth) (s_emit (Ev_open f) s))"
proof (cases "\<exists>pth f. p = Some pth \<and> pth \<noteq> [] \<and> length pth < 108 \<and> le_socket env = Inr f")
  case False
  then have "\<exists>e. wc_uds_open_listener p env s = (Inl e, s)"
    by (cases p; cases "le_socket env") (auto simp: wc_uds_open_listener_def)
  then show thesis using fails [of _ s "[]"] by auto
next
  case True
  then obtain pth f where p: "p = Some pth" "\<not> (pth = [] \<or> 108 \<le> length pth)" "le_socket env = Inr f" by auto
  note unf = wc_uds_open_listener_def [of p env s, unfolded p(1,3) option.case sum.case if_not_P [OF p(2)] Let_def]
  let ?open = "s_emit (Ev_open f) s"
  have err: thesis if "wc_uds_open_listener p env s = (Inl e, s1)" "s_live s1 = s_live s" "s_nodes s1 = s_nodes s"
      "s_trace s1 = s_trace s @ Ev_open f # map Ev_unlink us @ Ev_close f # map Ev_unlink vs" for e s1 us vs
    using fails [OF that] p(3) by blast
  show thesis
  proof (cases "fst (wc_socket_set_nonblocking (le_flags env) (le_fcntl env))")
    case (Inl e)
    show thesis
      by (rule err [of e "s_emit (Ev_close f) ?open" "[]" "[]"]) (use Inl in \<open>simp_all add: unf p(1)\<close>)
  next
    case nb: (Inr u)
    show thesis
    proof (cases "le_unlink env \<noteq> wc_ok \<and> le_unlink env \<noteq> Inl ENOENT")
      case True
      show thesis
        by (rule err [of "projl (le_unlink env)" "s_emit (Ev_close f) (s_emit (Ev_unlink pth) ?open)" "[pth]" "[]"])
           (use nb True in \<open>simp_all add: unf p(1)\<close>)
    next
      case False
      note unf1 = unf [unfolded nb sum.case if_not_P [OF False]]
      show thesis
      proof (cases "if le_bind env \<noteq> wc_ok then le_bind env else le_listen env")
        case (Inl e)
        show thesis
          by (rule err [of e "s_emit (Ev_unlink pth) (s_emit (Ev_close f) (s_emit (Ev_unlink pth) ?open))" "[pth]" "[pth]"])
             (simp_all add: unf1 [unfolded Inl] p(1))
      next
        case (Inr v)
        show thesis by (rule opens [OF p(1,3)]) (simp add: unf1 [unfolded Inr] p(1))
      qed
    qed
  qed
qed

abbreviation fresh_ios :: "uds_io list \<Rightarrow> bool" where
  "fresh_ios ios \<equiv> list_all (\<lambda>io. list_all fresh_accept (io_accepts io)) ios"

text \<open>What holds when the server has returned.\<close>

definition all_released :: "(errno \<Rightarrow> byte list) \<Rightarrow> qsys \<Rightarrow> qsys \<Rightarrow> bool" where
  "all_released strerror s s' \<longleftrightarrow> s_live s' = s_live s \<and> s_nodes s' = Map.empty \<and> fd_run {} (s_trace s') = Some {} \<and>
     (\<forall>cmd. Ev_run cmd \<in> set (s_trace s') \<longrightarrow> safe_command cmd) \<and> (\<forall>f. history_ok strerror s' f)"

lemma all_released_failed:
  assumes "s_live s1 = s_live s" "s_nodes s1 = Map.empty"
    and "s_trace s1 = [] \<or> (\<exists>f us vs. s_trace s1 = Ev_open f # map Ev_unlink us @ Ev_close f # map Ev_unlink vs)"
  shows "all_released strerror s s1"
proof -
  have un: "fd_run S (map Ev_unlink us @ evs) = fd_run S evs" for S us evs by (induction us) auto
  have "fd_run {} (s_trace s1) = Some {}"
    using assms(3) un [of "{}" _ "[]"] un by auto
  moreover have "\<forall>cmd. Ev_run cmd \<notin> set (s_trace s1)" "\<forall>f. \<forall>e \<in> set (s_trace s1). ev_sent f e = []"
    using assms(3) by auto
  ultimately show ?thesis using assms(1,2) history_quiet [where s = s1] by (simp add: all_released_def)
qed

lemma run_released:
  assumes table: "length table = 64" and s: "s_nodes s = Map.empty" "s_trace s = []" and fresh: "fresh_ios ios"
  shows "\<exists>st s'. wc_server_uds_run strerror p stop table env ios close_st unlink_st s = Some (st, s') \<and>
     all_released strerror s s'"
proof (cases stop)
  case False
  have "all_released strerror s s" by (rule all_released_failed) (use s in auto)
  with False show ?thesis by (simp add: wc_server_uds_run_def)
next
  case stop: True
  have q0: "wc_request_queue_init = (wc_ok, snd wc_request_queue_init)" by (simp add: wc_request_queue_init_def)
  note unf = wc_server_uds_run_def [of strerror p stop table env ios close_st unlink_st s,
      unfolded q0 [THEN arg_cong, of "\<lambda>x. case x of (st0, queue) \<Rightarrow> F st0 queue" for F] Let_def prod.case]
  show ?thesis
  proof (rule open_listener_cases [of p env s])
    fix e s1 evs
    assume o: "wc_uds_open_listener p env s = (Inl e, s1)" "s_live s1 = s_live s" "s_nodes s1 = s_nodes s"
      "s_trace s1 = s_trace s @ evs"
      "evs = [] \<or> (\<exists>f us vs. le_socket env = Inr f \<and> evs = Ev_open f # map Ev_unlink us @ Ev_close f # map Ev_unlink vs)"
    have "all_released strerror s s1" by (rule all_released_failed) (use o s in auto)
    then show ?thesis using o(1) stop unfolding unf by simp
  next
    fix lf pth
    assume o: "p = Some pth" "wc_uds_open_listener p env s = (Inr lf, s_emit (Ev_unlink pth) (s_emit (Ev_open lf) s))"
    let ?s1 = "s_emit (Ev_unlink pth) (s_emit (Ev_open lf) s)"
    have inv0: "uds_inv strerror lf (s_live ?s1) (wc_uds_clients_init table) (snd wc_request_queue_init) [] ?s1"
      by (rule inv_init [OF table]) (use s in auto)
    from inv_loop [OF inv0 fresh] obtain st cs2 q2 s2 xs2 where
      l: "uds_loop strerror lf ios (wc_uds_clients_init table) (snd wc_request_queue_init) ?s1 = Some (st, cs2, q2, s2)"
      "uds_inv strerror lf (s_live ?s1) cs2 q2 xs2 s2" by blast
    have len: "length cs2 = 64" using l(2) by (simp add: uds_inv_but_def uds_core_def)
    have "\<forall>i \<in> set [0..<64]. i < length cs2" by (simp add: len)
    from inv_close_loop [OF l(2) this] obtain cs3 q3 s3 xs3 where
      c: "close_loop [0..<64] cs2 q2 s2 = Some (cs3, q3, s3)" "uds_inv strerror lf (s_live ?s1) cs3 q3 xs3 s3"
      "length cs3 = length cs2" "\<forall>j < length cs2. j \<in> set [0..<64] \<or> uc_fd (cs2 ! j) = - 1 \<longrightarrow> uc_fd (cs3 ! j) = - 1"
      by blast
    have "\<forall>j < length cs3. uc_fd (cs3 ! j) = - 1" using c(3,4) len by simp
    note E = inv_empty [OF c(2) this]
    have "queue_holds q3 s3 []" using c(2) E(1) by (simp add: uds_inv_but_def uds_core_def)
    then obtain q4 s4 where k: "wc_request_queue_clear q3 s3 = Some (q4, s4)" "s_nodes s4 = Map.empty" "queue_frame s3 s4"
      by (rule clear_holds)
    note eff = queue_frame_effect [OF k(3)]
    let ?s6 = "s_emit (Ev_unlink pth) (s_emit (Ev_close lf) s4)"
    have run: "\<exists>st. wc_server_uds_run strerror p stop table env ios close_st unlink_st s = Some (st, ?s6)"
      using stop o l(1) c(1) k(1) unfolding unf by (simp add: wc_uds_close_all_clients_def)
    have tr: "s_trace s4 = s_trace s3" using effect_trace [OF eff] by simp
    have "s_live ?s6 = s_live s" using E(2) k(3) by (simp add: queue_frame_def)
    moreover have "fd_run {} (s_trace ?s6) = Some {}" using E(4) by (simp add: tr fd_run_append)
    moreover have "history_ok strerror ?s6 f" for f
      by (intro history_keep [OF history_keep [OF history_keep [OF E(6) eff] effect_emit] effect_emit]) simp_all
    ultimately have "all_released strerror s ?s6" using k(2) E(5) by (simp add: all_released_def tr)
    with run show ?thesis by blast
  qed
qed

section \<open>Properties\<close>

text \<open>
  C4. The server releases what it acquires. Whatever the clients and the system calls do, a run of
  \<open>wc_server_uds_run\<close> with any finite number of iterations returns, also when opening the
  listener fails or memory is short; then no memory and no queue node is left
  allocated, and along the whole run every descriptor was opened while closed, used and closed while
  open, and is closed at the end.
\<close>

theorem uds_server_releases:
  assumes "length table = 64" "s_nodes s = Map.empty" "s_trace s = []" "fresh_ios ios"
  shows "\<exists>st s'. wc_server_uds_run strerror p stop table env ios close_st unlink_st s = Some (st, s') \<and>
     s_live s' = s_live s \<and> s_nodes s' = Map.empty \<and> fd_run {} (s_trace s') = Some {}"
  using run_released [OF assms, of strerror p stop env close_st unlink_st] by (auto simp: all_released_def)

text \<open>
  C3. The server answers what it is asked. After any run of \<open>wc_server_uds_run\<close>, for every descriptor,
  the bytes sent in its last connection are a prefix of the response frames, in order, of the replies to an initial
  part of the requests in the bytes received there, each reply being what the command of that
  request produced; and every command line run is one of a well-formed request.
\<close>

theorem uds_server_sessions:
  assumes "length table = 64" "s_nodes s = Map.empty" "s_trace s = []" "fresh_ios ios"
    and "wc_server_uds_run strerror p stop table env ios close_st unlink_st s = Some (st, s')"
  shows "(\<forall>f. \<exists>ans. prefix (session_sent f (s_trace s')) (concat (map (\<lambda>(t, a, d). response_frame d) ans)) \<and>
       prefix (map (\<lambda>(t, a, d). (t, a)) ans) (fst (drain request_spec (session_recv f (s_trace s')))) \<and>
       list_all (\<lambda>(t, a, d). length d \<le> 65535 \<and>
         (\<exists>cmds. answers strerror (s_popen s') (mem_ample s') t a cmds d)) ans) \<and>
     (\<forall>cmd. Ev_run cmd \<in> set (s_trace s') \<longrightarrow> (\<exists>t a. request_command t a = Inr cmd))"
proof -
  have r: "all_released strerror s s'"
    using run_released [OF assms(1-4), of strerror p stop env close_st unlink_st] assms(5) by auto
  then show ?thesis
    unfolding all_released_def history_ok_def answered_ok_def safe_command_def case_prod_unfold by blast
qed

text \<open>
  C10. The loop of the server keeps its invariant, for any behaviour of the clients and of
  \<open>poll\<close>, \<open>accept\<close>, \<open>read\<close> and \<open>send\<close>, and never ends up in undefined behaviour or in
  an endless inner loop: the table and the queue stay well formed, queued requests belong to connected clients, the
  memory in use is what the buffers of the connected clients own, and the session of every connected client is right.
\<close>

theorem uds_loop_invariant:
  assumes "uds_inv strerror lf m cs q xs s" "fresh_ios ios"
  shows "\<exists>st cs' q' s' xs'. uds_loop strerror lf ios cs q s = Some (st, cs', q', s') \<and>
     uds_inv strerror lf m cs' q' xs' s'"
  by (rule inv_loop [OF assms])

text \<open>
  C11. Clients are isolated. Handling the events of the client in slot \<open>i\<close>, with any input, valid or not,
  changes no other slot of the table and none of the queued requests of the other clients; the client in that slot stays
  or is removed.
\<close>

theorem uds_client_isolation:
  assumes "uds_inv strerror lf m cs q xs s" "i < 64"
  shows "\<exists>c' q' s' xs'. uds_handle_client i events reads sends cs q s = Some (cs[i := c'], q', s') \<and>
     queue_holds q' s' xs' \<and> (uc_fd c' = uc_fd (cs ! i) \<or> uc_fd c' = - 1) \<and>
     (\<forall>g. g \<noteq> uc_fd (cs ! i) \<longrightarrow> queued_for g xs' = queued_for g xs)"
proof -
  have "i < length cs" using assms by (simp add: uds_inv_but_def uds_core_def)
  from inv_handle_client [OF assms(1) this, of events reads sends]
  show ?thesis by (auto simp: slot_only_def uds_inv_but_def uds_core_def)
qed


text \<open>
  C27. Writing loses and repeats nothing. \<open>wc_uds_write_client\<close> returns for every sequence of results of
  \<open>send\<close>, and the bytes it sends followed by the output still pending are the output that was
  pending before; memory and queue are untouched.
\<close>

theorem uds_write_client_correct:
  assumes "client_wf c"
  shows "\<exists>st c' s' chunks. wc_uds_write_client c script s = Some (st, c', s') \<and>
     s_trace s' = s_trace s @ map (Ev_send (uc_fd c)) chunks \<and> out_bytes c = concat chunks @ out_bytes c' \<and>
     uc_fd c' = uc_fd c \<and> uc_input c' = uc_input c \<and> s_nodes s' = s_nodes s \<and> s_live s' = s_live s"
  using write_client_spec [OF assms, of script s] effect_trace by blast

text \<open>
  C26. No request is forgotten. \<open>wc_uds_process_queue\<close> ends for every queue, and then the queue is empty or
  the client of its first request has output pending; with enough memory no client is disconnected on the way.
\<close>

theorem uds_process_queue_progress:
  assumes "uds_inv strerror lf m cs q xs s"
  shows "\<exists>cs' q' s' xs'. wc_uds_process_queue strerror cs q s = Some (cs', q', s') \<and>
     uds_inv strerror lf m cs' q' xs' s' \<and>
     (xs' = [] \<or> (\<exists>c \<in> set cs'. uc_fd c = fst (hd xs') \<and> out_bytes c \<noteq> [])) \<and>
     (\<not> mem_ample s \<or> live_fds cs' = live_fds cs)"
  using inv_process_queue [OF assms] unfolding blocked_def by blast

lemma open_listener_succeeds_iff:
  "(\<exists>f. fst (wc_uds_open_listener p env s) = Inr f) \<longleftrightarrow>
     (\<exists>pth. p = Some pth \<and> 0 < length pth \<and> length pth < 108) \<and> (\<exists>f. le_socket env = Inr f) \<and>
     fst (wc_socket_set_nonblocking (le_flags env) (le_fcntl env)) = wc_ok \<and>
     le_unlink env \<in> {wc_ok, Inl ENOENT} \<and> le_bind env = wc_ok \<and> le_listen env = wc_ok"
  by (cases "fst (wc_socket_set_nonblocking (le_flags env) (le_fcntl env))"; cases "le_bind env"; cases "le_listen env"; cases p)
     (auto simp: wc_uds_open_listener_def Let_def split: sum.splits)

text \<open>
  C28. A listener that cannot be opened leaves nothing open. \<open>wc_uds_open_listener\<close> returns a descriptor exactly when the
  path fits and \<open>socket\<close>, making the descriptor nonblocking, the removal of a stale socket file, \<open>bind\<close> and \<open>listen\<close>
  all succeed; it is then the new descriptor, open in addition to those open before. In every other case, a failing \<open>socket\<close>
  included, it returns an error and the descriptors open afterwards are those open before.
\<close>

theorem uds_open_listener_correct:
  assumes "fd_run {} (s_trace s) = Some S" "\<forall>f. le_socket env = Inr f \<longrightarrow> f \<notin> S"
  shows "((\<exists>f. fst (wc_uds_open_listener p env s) = Inr f) \<longleftrightarrow>
            (\<exists>pth. p = Some pth \<and> 0 < length pth \<and> length pth < 108) \<and> (\<exists>f. le_socket env = Inr f) \<and>
            fst (wc_socket_set_nonblocking (le_flags env) (le_fcntl env)) = wc_ok \<and>
            le_unlink env \<in> {wc_ok, Inl ENOENT} \<and> le_bind env = wc_ok \<and> le_listen env = wc_ok) \<and>
         (case wc_uds_open_listener p env s of
            (Inr f, s1) \<Rightarrow> le_socket env = Inr f \<and> fd_run {} (s_trace s1) = Some (insert f S)
          | (Inl e, s1) \<Rightarrow> fd_run {} (s_trace s1) = Some S)"
proof (rule conjI [OF open_listener_succeeds_iff], rule open_listener_cases [of p env s])
  fix e s1 evs
  assume o: "wc_uds_open_listener p env s = (Inl e, s1)" "s_trace s1 = s_trace s @ evs"
    "evs = [] \<or> (\<exists>f us vs. le_socket env = Inr f \<and> evs = Ev_open f # map Ev_unlink us @ Ev_close f # map Ev_unlink vs)"
  have un: "fd_run T (map Ev_unlink us @ evs) = fd_run T evs" for T us evs by (induction us) auto
  have "fd_run S evs = Some S" using o(3) assms(2) un [of S _ "[]"] un by auto
  with o(1,2) assms(1) show "case wc_uds_open_listener p env s of
      (Inr f, s1) \<Rightarrow> le_socket env = Inr f \<and> fd_run {} (s_trace s1) = Some (insert f S)
    | (Inl e, s1) \<Rightarrow> fd_run {} (s_trace s1) = Some S" by (simp add: fd_run_append)
qed (use assms in \<open>simp add: fd_run_append\<close>)

section \<open>Witnesses\<close>

definition demo_client :: wc_uds_client where
  "demo_client = \<lparr>uc_fd = 5, uc_input = snd (wc_buffer_init 65535), uc_output = snd (wc_buffer_init 65537)\<rparr>"

definition demo_table :: clients where
  "demo_table = replicate 64 demo_client"

definition next_fd :: "fd list \<Rightarrow> fd" where
  "next_fd fds = foldr max fds 0 + 1"

definition demo_io :: uds_io where
  "demo_io = \<lparr>io_poll = (\<lambda>_. Inr (1, \<lambda>_. 1)), io_reads = (\<lambda>_. [Read_bytes [0, 6, 0, 2, 0, 0], Read_error EAGAIN]),
     io_sends = (\<lambda>_. []), io_accepts = [Accept_fd next_fd 2 [], Accept_error EAGAIN]\<rparr>"

definition demo_env :: listener_env where
  "demo_env = \<lparr>le_socket = Inr 3, le_flags = 2, le_fcntl = [], le_unlink = wc_ok, le_bind = wc_ok, le_listen = wc_ok\<rparr>"

definition demo_listening :: qsys where
  "demo_listening = s_emit (Ev_unlink [47, 115]) (s_emit (Ev_open 3) sys0)"

lemma next_fd_fresh: "0 \<le> next_fd fds \<and> next_fd fds \<notin> set fds"
proof -
  have "0 \<le> foldr max fds (0 :: fd) \<and> (\<forall>x \<in> set fds. x \<le> foldr max fds 0)" by (induction fds) auto
  then show ?thesis unfolding next_fd_def by force
qed

lemma demo_facts:
  "fresh_ios [demo_io, demo_io]" "length demo_table = 64" "s_nodes (sys0 :: qsys) = Map.empty"
  "s_trace (sys0 :: qsys) = []" "client_wf demo_client" "in_bytes demo_client = []" "out_bytes demo_client = []"
  "request_spec [] = More" "uc_fd demo_client = 5"
  using next_fd_fresh
  by (simp_all add: demo_io_def fresh_accept_def demo_table_def sys0_def client_wf_def demo_client_def request_spec_def)

lemma demo_inv:
  "uds_inv strerror 3 0 (wc_uds_clients_init demo_table) (snd wc_request_queue_init) [] demo_listening"
proof -
  have s: "s_nodes demo_listening = Map.empty" "s_trace demo_listening = [Ev_open 3, Ev_unlink [47, 115]]"
    "s_live demo_listening = 0"
    by (simp_all add: demo_listening_def sys0_def)
  from inv_init [OF demo_facts(2) s(1,2), of strerror] s(3) show ?thesis by simp
qed

theorem uds_server_releases_witness:
  "\<exists>st s'. wc_server_uds_run (\<lambda>_. []) (Some [47, 115]) True demo_table demo_env [demo_io, demo_io] wc_ok wc_ok (sys0 :: qsys) =
     Some (st, s') \<and> s_live s' = 0 \<and> fd_run {} (s_trace s') = Some {}"
proof -
  have "s_live (sys0 :: qsys) = 0" by (simp add: sys0_def)
  with uds_server_releases [OF demo_facts(2-4,1), of "\<lambda>_. []" "Some [47, 115]" True demo_env wc_ok wc_ok]
  show ?thesis by auto
qed

theorem uds_server_sessions_witness:
  "\<exists>st s'. wc_server_uds_run (\<lambda>_. []) (Some [47, 115]) True demo_table demo_env [demo_io, demo_io] wc_ok wc_ok (sys0 :: qsys) =
     Some (st, s') \<and> (\<forall>cmd. Ev_run cmd \<in> set (s_trace s') \<longrightarrow> (\<exists>t a. request_command t a = Inr cmd))"
proof -
  obtain st s' where r: "wc_server_uds_run (\<lambda>_. []) (Some [47, 115]) True demo_table demo_env [demo_io, demo_io] wc_ok wc_ok
      (sys0 :: qsys) = Some (st, s')"
    using run_released [OF demo_facts(2-4,1)] by blast
  from uds_server_sessions [OF demo_facts(2-4,1) r] r show ?thesis by blast
qed

theorem uds_loop_invariant_witness:
  "\<exists>st cs q s xs. uds_loop (\<lambda>_. []) 3 [demo_io, demo_io] (wc_uds_clients_init demo_table)
     (snd wc_request_queue_init) demo_listening = Some (st, cs, q, s) \<and> uds_inv (\<lambda>_. []) 3 0 cs q xs s"
  by (rule uds_loop_invariant [OF demo_inv demo_facts(1)])

theorem uds_client_isolation_witness:
  "\<exists>c q s. uds_handle_client 7 1 [] [] (wc_uds_clients_init demo_table) (snd wc_request_queue_init) demo_listening =
     Some ((wc_uds_clients_init demo_table)[7 := c], q, s)"
  using uds_client_isolation [OF demo_inv, of 7 1 "[]" "[]"] by auto


theorem uds_write_client_correct_witness:
  "\<exists>st c s. wc_uds_write_client demo_client [Send_bytes 4] (sys0 :: qsys) = Some (st, c, s) \<and> out_bytes c = []"
  using uds_write_client_correct [OF demo_facts(5), of "[Send_bytes 4]" sys0] by (auto simp: demo_facts)

theorem uds_process_queue_progress_witness:
  "\<exists>cs q s. wc_uds_process_queue (\<lambda>_. []) (wc_uds_clients_init demo_table) (snd wc_request_queue_init) demo_listening =
     Some (cs, q, s)"
  using uds_process_queue_progress [OF demo_inv, of "\<lambda>_. []"] by blast

theorem uds_open_listener_correct_witness:
  "fd_run {} (s_trace (snd (wc_uds_open_listener (Some [47, 115]) (demo_env\<lparr>le_bind := Inl EINVAL\<rparr>) (sys0 :: qsys)))) = Some {} \<and>
   (\<exists>f. fst (wc_uds_open_listener (Some [47, 115]) demo_env (sys0 :: qsys)) = Inr f)"
proof -
  have s: "fd_run {} (s_trace (sys0 :: qsys)) = Some {}" by (simp add: sys0_def)
  have nb: "fst (wc_socket_set_nonblocking (le_flags demo_env) (le_fcntl demo_env)) = wc_ok"
    by (simp add: demo_env_def wc_socket_set_nonblocking_def O_NONBLOCK_def)
  have "\<exists>f. fst (wc_uds_open_listener (Some [47, 115]) demo_env (sys0 :: qsys)) = Inr f"
    using uds_open_listener_correct [OF s, of demo_env "Some [47, 115]"] nb by (simp add: demo_env_def)
  moreover have "fd_run {} (s_trace (snd (wc_uds_open_listener (Some [47, 115]) (demo_env\<lparr>le_bind := Inl EINVAL\<rparr>) (sys0 :: qsys)))) = Some {}"
    using uds_open_listener_correct [OF s, of "demo_env\<lparr>le_bind := Inl EINVAL\<rparr>" "Some [47, 115]"]
    by (auto split: prod.splits sum.splits)
  ultimately show ?thesis by simp
qed

end
