(* ===== verification/WC_Server_Threaded.thy ===== *)
theory WC_Server_Threaded
  imports WC_Server_TCP
begin

text \<open>
  The worker threads of the threaded Unix-domain server, \<^verbatim>\<open>src/src/server_uds_threaded.c\<close>. The
  structures have the fields of those of the TCP server.
\<close>

abbreviation (input) WC_THREADED_UDS_READ_SIZE :: size_t where "WC_THREADED_UDS_READ_SIZE \<equiv> 4096"
abbreviation (input) WC_THREADED_UDS_INPUT_LIMIT :: size_t where "WC_THREADED_UDS_INPUT_LIMIT \<equiv> 65535"
abbreviation (input) WC_THREADED_UDS_OUTPUT_LIMIT :: size_t where "WC_THREADED_UDS_OUTPUT_LIMIT \<equiv> 65537"

type_synonym wc_threaded_uds_worker = wc_tcp_worker

section \<open>Operations\<close>

definition wc_threaded_uds_is_stopping :: "bool \<Rightarrow> bool \<Rightarrow> bool \<Rightarrow> bool" where
  "wc_threaded_uds_is_stopping lock unlock server_stopping =
     (if \<not> lock then True else if \<not> unlock then True else server_stopping)"

definition wc_threaded_uds_run_command :: "wc_request_type \<Rightarrow> byte list option \<Rightarrow> size_t \<Rightarrow> 'n sys \<Rightarrow>
    (status \<times> wc_command_result \<times> 'n sys) option" where
  "wc_threaded_uds_run_command t argument argument_length s =
     (if t = WC_REQUEST_LS then wc_command_ls argument argument_length UINT16_MAX s
      else if t = WC_REQUEST_PWD then
        (if argument_length \<noteq> 0 then Some (Inl EINVAL, result_zero, s) else wc_command_pwd UINT16_MAX s)
      else if t = WC_REQUEST_CAT then wc_command_cat argument argument_length UINT16_MAX s
      else Some (Inl EINVAL, result_zero, s))"

text \<open>The request's argument points into \<open>message\<close>, the bytes of the input buffer.\<close>

definition wc_threaded_uds_encode_response :: "(errno \<Rightarrow> byte list) \<Rightarrow> wc_buffer \<Rightarrow> byte list option \<Rightarrow> wc_request \<Rightarrow> 'n sys \<Rightarrow>
    (status \<times> wc_buffer \<times> 'n sys) option" where
  "wc_threaded_uds_encode_response strerror output message request s = do {
     (st, result, s1) \<leftarrow> wc_threaded_uds_run_command (req_type request)
        (map_option (drop (req_argument request)) message) (req_argument_length request) s;
     case st of
       Inr _ \<Rightarrow> do {
         (encode_result, o1, s2) \<leftarrow>
           wc_protocol_encode_response output (res_data result) (res_length result) s1;
         Some (encode_result, o1, snd (wc_command_result_destroy result s2))
       }
     | Inl command_errno \<Rightarrow>
         (let msg = c_str ''ERROR: '' @ strerror command_errno; text_length = int (length msg) in do {
            error_text \<leftarrow> c_snprintf (c_local 256 s1) 256 msg;
            if text_length < 0 then Some (Inl EIO, output, s1)
            else let n = (if nat text_length \<ge> 256 then 255 else nat text_length) in
              wc_protocol_encode_response output (Some error_text) (of_nat n) s1
          })
   }"

definition wc_threaded_uds_process_request :: "(errno \<Rightarrow> byte list) \<Rightarrow> wc_buffer \<Rightarrow> wc_buffer \<Rightarrow> 'n sys \<Rightarrow>
    (status \<times> wc_buffer \<times> wc_buffer \<times> 'n sys) option" where
  "wc_threaded_uds_process_request strerror input output s = do {
     (parse_result, r, k) \<leftarrow> wc_protocol_parse_request (buf_data input) (buf_length input);
     if parse_result = WC_PARSE_NEED_MORE then Some (wc_ok, input, output, s)
     else if parse_result = WC_PARSE_INVALID then Some (Inl EPROTO, input, output, s)
     else do {
       request \<leftarrow> r;
       consumed \<leftarrow> k;
       (st, o1, s1) \<leftarrow> wc_threaded_uds_encode_response strerror output (buf_data input) request s;
       if st \<noteq> wc_ok then Some (st, input, o1, s1)
       else do {
         (st2, i1) \<leftarrow> wc_buffer_consume input consumed;
         Some (st2, i1, o1, s1)
       }
     }
   }"

definition wc_threaded_uds_read :: "fd \<Rightarrow> wc_buffer \<Rightarrow> read_outcome \<Rightarrow> 'n sys \<Rightarrow>
    (status \<times> wc_buffer \<times> 'n sys) option" where
  "wc_threaded_uds_read client_fd input x s =
     (let available = buf_max_size input - buf_length input;
          read_size = (if available < WC_THREADED_UDS_READ_SIZE then available else WC_THREADED_UDS_READ_SIZE) in
      if read_size = 0 then Some (Inl EMSGSIZE, input, s)
      else do {
        (r, _, s1) \<leftarrow> sock_read client_fd (unat read_size) [x] s;
        case r of
          Inr bytes \<Rightarrow>
            if length bytes > 0 then wc_buffer_append input (Some bytes) (of_nat (length bytes)) s1
            else Some (Inl ECONNRESET, input, s1)
        | Inl e \<Rightarrow>
            if e = EINTR \<or> e = EAGAIN \<or> e = EWOULDBLOCK then Some (wc_ok, input, s1)
            else Some (Inl e, input, s1)
      })"

definition wc_threaded_uds_write :: "fd \<Rightarrow> wc_buffer \<Rightarrow> send_outcome \<Rightarrow> 'n sys \<Rightarrow>
    (status \<times> wc_buffer \<times> 'n sys) option" where
  "wc_threaded_uds_write client_fd output x s = do {
     bytes \<leftarrow> c_read_block (buf_data output) (unat (buf_length output));
     case sock_send client_fd bytes x s of
       (Inr bytes_written, s1) \<Rightarrow>
         if bytes_written > 0 then do {
           (st, o1) \<leftarrow> wc_buffer_consume output (of_nat bytes_written);
           Some (st, o1, s1)
         }
         else Some (Inl Errno_stale, output, s1)
     | (Inl e, s1) \<Rightarrow>
         if e = EINTR \<or> e = EAGAIN \<or> e = EWOULDBLOCK then Some (wc_ok, output, s1)
         else Some (Inl e, output, s1)
   }"

definition wc_threaded_uds_mark_finished :: "bool \<Rightarrow> wc_threaded_uds_worker \<Rightarrow> wc_threaded_uds_worker" where
  "wc_threaded_uds_mark_finished lock worker = (if lock then worker\<lparr>wk_finished := True\<rparr> else worker)"

section \<open>The loop of a worker\<close>

text \<open>The body of the loop; the flag says whether the loop goes on.\<close>

definition threaded_uds_worker_body :: "(errno \<Rightarrow> byte list) \<Rightarrow> fd \<Rightarrow> worker_env \<Rightarrow> wc_buffer \<Rightarrow> wc_buffer \<Rightarrow> 'n sys \<Rightarrow>
    (bool \<times> wc_buffer \<times> wc_buffer \<times> 'n sys) option" where
  "threaded_uds_worker_body strerror client_fd env input output s = do {
     (st0, i1, o1, s1) \<leftarrow> (if buf_length output = 0 then wc_threaded_uds_process_request strerror input output s
                            else Some (wc_ok, input, output, s));
     if st0 \<noteq> wc_ok then Some (False, i1, o1, s1)
     else case we_poll env of
         Poll_error e \<Rightarrow> Some (e = EINTR, i1, o1, s1)
       | Poll_timeout \<Rightarrow> Some (True, i1, o1, s1)
       | Poll_events w \<Rightarrow>
           (let revents = poll_revents (if buf_length o1 > 0 then 4 else 1) w in do {
              (st1, i2, s2) \<leftarrow> (if revents AND 1 \<noteq> 0 then wc_threaded_uds_read client_fd i1 (we_read env) s1
                                 else Some (wc_ok, i1, s1));
              if st1 \<noteq> wc_ok then Some (False, i2, o1, s2)
              else do {
                (st2, o2, s3) \<leftarrow> (if revents AND 4 \<noteq> 0 then wc_threaded_uds_write client_fd o1 (we_send env) s2
                                   else Some (wc_ok, o1, s2));
                if st2 \<noteq> wc_ok then Some (False, i2, o2, s3)
                else if revents AND (8 OR 32) \<noteq> 0 then Some (False, i2, o2, s3)
                else if revents AND 16 \<noteq> 0 \<and> buf_length o2 = 0 then Some (False, i2, o2, s3)
                else Some (True, i2, o2, s3)
              }
            })
   }"

text \<open>The loop; at the end of the list of iterations the server is stopping.\<close>

fun threaded_uds_worker_loop :: "(errno \<Rightarrow> byte list) \<Rightarrow> fd \<Rightarrow> worker_env list \<Rightarrow> wc_buffer \<Rightarrow> wc_buffer \<Rightarrow> 'n sys \<Rightarrow>
    (wc_buffer \<times> wc_buffer \<times> 'n sys) option" where
  "threaded_uds_worker_loop strerror client_fd [] input output s = Some (input, output, s)"
| "threaded_uds_worker_loop strerror client_fd (env # envs) input output s =
     (if wc_threaded_uds_is_stopping (we_lock env) (we_unlock env) (we_stopping env) then Some (input, output, s)
      else do {
        (go, i1, o1, s1) \<leftarrow> threaded_uds_worker_body strerror client_fd env input output s;
        if go then threaded_uds_worker_loop strerror client_fd envs i1 o1 s1 else Some (i1, o1, s1)
      })"

text \<open>What follows the loop, but for \<open>wc_threaded_uds_mark_finished\<close>.\<close>

definition threaded_uds_worker_exit :: "fd \<Rightarrow> wc_buffer \<Rightarrow> wc_buffer \<Rightarrow> 'n sys \<Rightarrow> 'n sys" where
  "threaded_uds_worker_exit client_fd input output s =
     s_emit (Ev_close client_fd) (snd (wc_buffer_destroy output (snd (wc_buffer_destroy input s))))"

definition wc_threaded_uds_worker_main :: "(errno \<Rightarrow> byte list) \<Rightarrow> wc_threaded_uds_worker \<Rightarrow> worker_env list \<Rightarrow> bool \<Rightarrow> 'n sys \<Rightarrow>
    (wc_threaded_uds_worker \<times> 'n sys) option" where
  "wc_threaded_uds_worker_main strerror worker envs finish_lock s =
     (let client_fd = wk_client_fd worker in
      case wc_buffer_init WC_THREADED_UDS_INPUT_LIMIT of
        (Inl _, input) \<Rightarrow> Some (wc_threaded_uds_mark_finished finish_lock worker, s_emit (Ev_close client_fd) s)
      | (Inr _, input) \<Rightarrow>
          (case wc_buffer_init WC_THREADED_UDS_OUTPUT_LIMIT of
             (Inl _, output) \<Rightarrow>
               Some (wc_threaded_uds_mark_finished finish_lock worker,
                     s_emit (Ev_close client_fd) (snd (wc_buffer_destroy input s)))
           | (Inr _, output) \<Rightarrow> do {
               (i1, o1, s1) \<leftarrow> threaded_uds_worker_loop strerror client_fd envs input output s;
               Some (wc_threaded_uds_mark_finished finish_lock worker, threaded_uds_worker_exit client_fd i1 o1 s1)
             }))"

end
