(* ===== verification/WC_Session.thy ===== *)
theory WC_Session
  imports WC_Server_Threaded WC_History
begin

text \<open>
  The session of a worker thread. The locale \<open>connection\<close> is the interface between the loop of a
  worker and the operations on its connection; both threaded servers provide it. From its
  laws follow, once for both, that a worker's session stays right, that a worker ends with its
  memory freed and its descriptor closed, and that a worker that sees the end of the
  stream has answered every complete request.
\<close>

unbundle bit_operations_syntax

section \<open>Definitions\<close>

definition bufs_wf :: "wc_buffer \<Rightarrow> wc_buffer \<Rightarrow> bool" where
  "bufs_wf i b \<longleftrightarrow> buf_wf i \<and> buf_max_size i = 65535 \<and> buf_wf b \<and> buf_max_size b = 65537"

text \<open>
  The bytes received are whole requests, all answered, followed by the input kept; the bytes
  sent and the output pending are the responses.
\<close>

definition worker_session :: "(errno \<Rightarrow> byte list) \<Rightarrow> 'n sys \<Rightarrow> fd \<Rightarrow> byte list \<Rightarrow> byte list \<Rightarrow> bool" where
  "worker_session strerror s f inp outp \<longleftrightarrow> (\<exists>ans consumed.
     session_recv f (s_trace s) = consumed @ inp \<and> drain request_spec consumed = (map asked ans, [], True) \<and>
     session_sent f (s_trace s) @ outp = concat (map (\<lambda>x. response_frame (snd (snd x))) ans) \<and>
     list_all (answered_ok strerror s) ans)"

text \<open>Every complete request received has been answered, and every answer sent.\<close>

definition session_complete :: "(errno \<Rightarrow> byte list) \<Rightarrow> 'n sys \<Rightarrow> fd \<Rightarrow> bool" where
  "session_complete strerror s f \<longleftrightarrow> (\<exists>ans.
     session_sent f (s_trace s) = concat (map (\<lambda>x. response_frame (snd (snd x))) ans) \<and>
     map asked ans = fst (drain request_spec (session_recv f (s_trace s))) \<and> list_all (answered_ok strerror s) ans)"

text \<open>What processing, reading and writing may do.\<close>

definition process_result :: "(errno \<Rightarrow> byte list) \<Rightarrow> wc_buffer \<Rightarrow> wc_buffer \<Rightarrow> 'n sys \<Rightarrow>
    (status \<times> wc_buffer \<times> wc_buffer \<times> 'n sys) \<Rightarrow> bool" where
  "process_result strerror i b s res \<longleftrightarrow> (case res of (st, i', b', s') \<Rightarrow>
     case request_spec (buf_bytes i) of
       More \<Rightarrow> st = wc_ok \<and> i' = i \<and> b' = b \<and> s' = s
     | Bad \<Rightarrow> st = Inl EPROTO \<and> i' = i \<and> b' = b \<and> s' = s
     | Frame m k \<Rightarrow> bufs_wf i' b' \<and> (\<exists>cmds. effect s s' (map Ev_run cmds) \<and> cmds_ok (fst m) (snd m) cmds) \<and>
         s_live s' = s_live s + buf_owned b' - buf_owned b \<and> buf_owned i' = buf_owned i \<and>
         (st = wc_ok \<and> buf_bytes i' = drop k (buf_bytes i) \<and>
            (\<exists>d. buf_bytes b' = response_frame d \<and> answered_ok strerror s (fst m, snd m, d))
          \<or> st = Inl ENOMEM \<and> \<not> mem_ample s \<and> i' = i \<and> buf_bytes b' = []))"

definition read_once :: "fd \<Rightarrow> wc_buffer \<Rightarrow> read_outcome \<Rightarrow> 'n sys \<Rightarrow> (status \<times> wc_buffer \<times> 'n sys) \<Rightarrow> bool" where
  "read_once f i x s res \<longleftrightarrow> (case res of (st, i', s') \<Rightarrow>
     buf_wf i' \<and> buf_max_size i' = 65535 \<and> s_live s' = s_live s + buf_owned i' - buf_owned i \<and>
     (if length (buf_bytes i) = 65535 then st = Inl EMSGSIZE \<and> i' = i \<and> s' = s
      else case x of
          Read_error e \<Rightarrow> st = (if e \<in> {EINTR, EAGAIN, EWOULDBLOCK} then wc_ok else Inl e) \<and> i' = i \<and> s' = s
        | Read_bytes bs \<Rightarrow>
            let got = take (min 4096 (65535 - length (buf_bytes i))) bs in
            effect s s' [Ev_recv f got] \<and>
            (if bs = [] then st = Inl ECONNRESET \<and> i' = i
             else st = wc_ok \<and> buf_bytes i' = buf_bytes i @ got \<or> st = Inl ENOMEM \<and> \<not> mem_ample s \<and> i' = i)))"

definition write_once :: "fd \<Rightarrow> wc_buffer \<Rightarrow> 'n sys \<Rightarrow> (status \<times> wc_buffer \<times> 'n sys) \<Rightarrow> bool" where
  "write_once f b s res \<longleftrightarrow> (case res of (st, b', s') \<Rightarrow>
     buf_wf b' \<and> buf_max_size b' = buf_max_size b \<and> buf_owned b' = buf_owned b \<and> s_live s' = s_live s \<and>
     (\<exists>chunks. effect s s' (map (Ev_send f) chunks) \<and> buf_bytes b = concat chunks @ buf_bytes b'))"

text \<open>The body of the loop over any such operations.\<close>

definition session_body :: "((errno \<Rightarrow> byte list) \<Rightarrow> wc_buffer \<Rightarrow> wc_buffer \<Rightarrow> 'n sys \<Rightarrow>
      (status \<times> wc_buffer \<times> wc_buffer \<times> 'n sys) option) \<Rightarrow>
    (fd \<Rightarrow> wc_buffer \<Rightarrow> read_outcome \<Rightarrow> 'n sys \<Rightarrow> (status \<times> wc_buffer \<times> 'n sys) option) \<Rightarrow>
    (fd \<Rightarrow> wc_buffer \<Rightarrow> send_outcome \<Rightarrow> 'n sys \<Rightarrow> (status \<times> wc_buffer \<times> 'n sys) option) \<Rightarrow>
    (errno \<Rightarrow> byte list) \<Rightarrow> fd \<Rightarrow> worker_env \<Rightarrow> wc_buffer \<Rightarrow> wc_buffer \<Rightarrow> 'n sys \<Rightarrow>
    (bool \<times> wc_buffer \<times> wc_buffer \<times> 'n sys) option" where
  "session_body process rd wr strerror f env i b s = do {
     (st0, i1, b1, s1) \<leftarrow> (if buf_length b = 0 then process strerror i b s else Some (wc_ok, i, b, s));
     if st0 \<noteq> wc_ok then Some (False, i1, b1, s1)
     else case we_poll env of
         Poll_error e \<Rightarrow> Some (e = EINTR, i1, b1, s1)
       | Poll_timeout \<Rightarrow> Some (True, i1, b1, s1)
       | Poll_events w \<Rightarrow>
           (let revents = poll_revents (if buf_length b1 > 0 then 4 else 1) w in do {
              (st1, i2, s2) \<leftarrow> (if revents AND 1 \<noteq> 0 then rd f i1 (we_read env) s1 else Some (wc_ok, i1, s1));
              if st1 \<noteq> wc_ok then Some (False, i2, b1, s2)
              else do {
                (st2, b2, s3) \<leftarrow> (if revents AND 4 \<noteq> 0 then wr f b1 (we_send env) s2 else Some (wc_ok, b1, s2));
                if st2 \<noteq> wc_ok then Some (False, i2, b2, s3)
                else if revents AND (8 OR 32) \<noteq> 0 then Some (False, i2, b2, s3)
                else if revents AND 16 \<noteq> 0 \<and> buf_length b2 = 0 then Some (False, i2, b2, s3)
                else Some (True, i2, b2, s3)
              }
            })
   }"

text \<open>What an iteration guarantees.\<close>

definition body_result :: "(errno \<Rightarrow> byte list) \<Rightarrow> fd \<Rightarrow> wc_buffer \<Rightarrow> wc_buffer \<Rightarrow> 'n sys \<Rightarrow>
    (bool \<times> wc_buffer \<times> wc_buffer \<times> 'n sys) \<Rightarrow> bool" where
  "body_result strerror f i b s res \<longleftrightarrow> (case res of (go, i', b', s') \<Rightarrow>
     bufs_wf i' b' \<and> s_live s' = s_live s + buf_owned i' + buf_owned b' - buf_owned i - buf_owned b \<and>
     (\<exists>evs. effect s s' evs \<and> evs_of f evs \<and> (Ev_recv f [] \<in> set evs \<longrightarrow> \<not> go \<and> session_complete strerror s' f)) \<and>
     history_ok strerror s' f \<and> (go \<longrightarrow> worker_session strerror s' f (buf_bytes i') (buf_bytes b')))"

section \<open>The operations of the servers\<close>

text \<open>The answering code of both servers is the reference one.\<close>

lemma tcp_encode_eq:
  "wc_tcp_encode_response strerror b m r s = ref_respond strerror b (req_type r)
     (map_option (drop (req_argument r)) m) (req_argument_length r) s"
  unfolding wc_tcp_encode_response_def ref_respond_def ref_error_def wc_tcp_run_command_def ref_run_command_def Let_def ..

lemma threaded_eqs:
  "wc_threaded_uds_run_command = wc_tcp_run_command" "wc_threaded_uds_encode_response = wc_tcp_encode_response"
  "wc_threaded_uds_process_request = wc_tcp_process_request" "wc_threaded_uds_read = wc_tcp_read_client"
  "wc_threaded_uds_write = wc_tcp_write_client" "wc_threaded_uds_is_stopping = wc_tcp_is_stopping"
  "wc_threaded_uds_mark_finished = wc_tcp_mark_finished" "threaded_uds_worker_body = tcp_worker_body"
  "threaded_uds_worker_exit = tcp_worker_exit"
proof -
  show run: "wc_threaded_uds_run_command = wc_tcp_run_command"
    by (intro ext) (simp only: wc_threaded_uds_run_command_def wc_tcp_run_command_def)
  show enc: "wc_threaded_uds_encode_response = wc_tcp_encode_response"
    by (intro ext) (simp only: wc_threaded_uds_encode_response_def wc_tcp_encode_response_def run)
  show proc: "wc_threaded_uds_process_request = wc_tcp_process_request"
    by (intro ext) (simp only: wc_threaded_uds_process_request_def wc_tcp_process_request_def enc)
  show rd: "wc_threaded_uds_read = wc_tcp_read_client"
    by (intro ext) (simp only: wc_threaded_uds_read_def wc_tcp_read_client_def)
  show wr: "wc_threaded_uds_write = wc_tcp_write_client"
    by (intro ext) (simp only: wc_threaded_uds_write_def wc_tcp_write_client_def)
  show "wc_threaded_uds_is_stopping = wc_tcp_is_stopping"
    by (intro ext) (simp only: wc_threaded_uds_is_stopping_def wc_tcp_is_stopping_def)
  show "wc_threaded_uds_mark_finished = wc_tcp_mark_finished"
    by (intro ext) (simp add: wc_threaded_uds_mark_finished_def wc_tcp_mark_finished_def)
  show "threaded_uds_worker_body = tcp_worker_body"
    by (intro ext) (simp only: threaded_uds_worker_body_def tcp_worker_body_def proc rd wr)
  show "threaded_uds_worker_exit = tcp_worker_exit"
    by (intro ext) (simp only: threaded_uds_worker_exit_def tcp_worker_exit_def)
qed

lemma tcp_process_law:
  assumes wf: "bufs_wf i b" and empty: "buf_bytes b = []"
  shows "\<exists>res. wc_tcp_process_request strerror i b s = Some res \<and> process_result strerror i b s res"
proof -
  have i: "buf_wf i" "buf_max_size i = 65535" and b: "buf_wf b" "buf_bytes b = []" "buf_max_size b = 65537"
    using wf empty by (auto simp: bufs_wf_def)
  note parse = req.parse_buffer [OF i(1)]
  note unf = wc_tcp_process_request_def [of strerror i b s, unfolded parse Option.bind.bind_lunit]
  show ?thesis
  proof (cases "request_spec (buf_bytes i)")
    case (Frame m k)
    obtain t a where m: "m = (t, a)" by (cases m)
    note fr = Frame [unfolded m] and D = request_spec_FrameD [OF Frame [unfolded m]]
    have u: "unat (of_nat (length a) :: size_t) \<le> 65535" "unat (of_nat k :: size_t) = k" using D(3,4) by simp_all
    obtain i' where c: "wc_buffer_consume i (of_nat k) = Some (wc_ok, i')" "buf_wf i'"
      "buf_bytes i' = drop k (buf_bytes i)" "buf_max_size i' = 65535" "buf_owned i' = buf_owned i"
      using consume_spec [OF i(1), of "of_nat k"] D(2) u(2) i(2) by auto
    let ?res = "ref_respond strerror b t (map_option (drop 6) (buf_data i)) (of_nat (length a)) s"
    have unf1: "wc_tcp_process_request strerror i b s = do {
        (st, b1, s1) \<leftarrow> ?res;
        if st \<noteq> wc_ok then Some (st, i, b1, s1) else Some (wc_ok, i', b1, s1) }"
      unfolding unf fr by (simp add: request_out_def tcp_encode_eq c(1) cong: if_cong)
    from b head_request(1) [OF i(1) fr] u(1) head_request(2) [OF i(1) fr] show ?thesis
    proof (cases rule: ref.respond_cases [where strerror = strerror and t = t and s = s])
      case (answered b' s' cmds data)
      have "effect s s' (map Ev_run cmds)" "cmds_ok t a cmds" "answered_ok strerror s (t, a, data)"
        using answered run_frame_effect answers_cmds_ok by (auto simp: answered_ok_def)
      with answered c wf m show ?thesis unfolding unf1 answered(1)
        by (auto simp: process_result_def fr bufs_wf_def)
    next
      case (refused b' s' cmds)
      have "effect s s' (map Ev_run cmds)" using refused run_frame_effect by auto
      with refused wf m show ?thesis unfolding unf1 refused(1)
        by (auto simp: process_result_def fr bufs_wf_def)
    qed
  qed (simp_all add: unf request_out_def process_result_def)
qed

lemma tcp_read_law:
  assumes i: "buf_wf i" "buf_max_size i = 65535"
  shows "\<exists>res. wc_tcp_read_client f i x s = Some res \<and> read_once f i x s res"
proof -
  define room where "room = 65535 - length (buf_bytes i)"
  define n where "n = (if buf_max_size i - buf_length i < 4096 then buf_max_size i - buf_length i else 4096 :: size_t)"
  have len: "length (buf_bytes i) = unat (buf_length i)" "unat (buf_length i) \<le> 65535"
    using buf_wf_D [OF i(1)] i(2) by simp_all
  have sub: "unat (buf_max_size i - buf_length i) = room"
    using len i(2) by (simp add: unat_sub_if' room_def)
  have un: "unat n = min 4096 room"
    unfolding n_def by (simp only: word_less_nat_alt sub if_distrib [of unat]) (simp add: min_def)
  have n0: "n = 0 \<longleftrightarrow> length (buf_bytes i) = 65535"
    unfolding unat_zero_iff_size [symmetric] un using len by (auto simp: room_def min_def)
  note unf = wc_tcp_read_client_def [of f i _ s, unfolded Let_def n_def [symmetric]]
  show ?thesis
  proof (cases "n = 0")
    case True
    then show ?thesis using i n0 by (simp add: unf read_once_def)
  next
    case False
    then have ne: "length (buf_bytes i) \<noteq> 65535" "0 < unat n" using n0 by (simp_all add: unat_gt_0)
    show ?thesis
    proof (cases x)
      case (Read_error e)
      then show ?thesis using False ne i by (auto simp: unf read_once_def)
    next
      case (Read_bytes bs)
      let ?got = "take (min 4096 room) bs" and ?s = "s_emit (Ev_recv f (take (min 4096 room) bs)) s"
      show ?thesis
      proof (cases "bs = []")
        case True
        then show ?thesis using False ne i Read_bytes by (simp add: unf read_once_def)
      next
        case bs: False
        have g: "?got \<noteq> []" "length ?got \<le> room" using bs ne(2) un by auto
        have u: "unat (of_nat (length ?got) :: size_t) = length ?got" using g(2) by (simp add: room_def)
        obtain st b s1 where a: "wc_buffer_append i (Some ?got) (of_nat (length ?got)) ?s = Some (st, b, s1)"
          "buf_wf b" "buf_max_size b = buf_max_size i" "sys_frame ?s s1"
          "s_live s1 = s_live ?s + buf_owned b - buf_owned i"
          "st = wc_ok \<and> buf_bytes b = buf_bytes i @ take (unat (of_nat (length ?got) :: size_t)) (case Some ?got of None \<Rightarrow> [] | Some d \<Rightarrow> d)
           \<or> st = Inl ENOMEM \<and> b = i \<and> \<not> mem_ample ?s"
          by (rule append_spec [OF i(1), where data = "Some ?got" and n = "of_nat (length ?got)" and s = ?s])
             (use u g(2) len i(2) in \<open>auto simp: room_def\<close>)
        have run: "wc_tcp_read_client f i x s = Some (st, b, s1)"
          using a(1) False g(1) Read_bytes un by (simp add: unf)
        have eff: "effect s s1 [Ev_recv f ?got]"
          using effect_trans [OF effect_emit sys_frame_effect [OF a(4)]] by simp
        have am: "mem_ample ?s = mem_ample s" by (rule effect_mem_ample [OF effect_emit])
        have tk: "take (unat (of_nat (length ?got) :: size_t)) ?got = ?got" unfolding u by (rule take_all) simp
        have fin: "st = wc_ok \<and> buf_bytes b = buf_bytes i @ ?got \<or> st = Inl ENOMEM \<and> \<not> mem_ample s \<and> b = i"
          using a(6) unfolding option.case tk am by blast
        have "read_once f i x s (st, b, s1)"
          using a(2,3,5) eff fin bs ne(1) i(2) Read_bytes by (simp add: read_once_def Let_def room_def)
        with run show ?thesis by blast
      qed
    qed
  qed
qed

lemma tcp_write_law:
  assumes "buf_wf b"
  shows "\<exists>res. wc_tcp_write_client f b x s = Some res \<and> write_once f b s res"
proof -
  note unf = wc_tcp_write_client_def [of f b _ s, unfolded buf_read_block [OF assms] Option.bind.bind_lunit]
  show ?thesis
  proof (cases x)
    case (Send_error e)
    show ?thesis using assms unfolding Send_error
      by (auto simp: unf sock_send_def write_once_def intro!: exI [of _ "[] :: byte list list"])
  next
    case (Send_bytes k)
    let ?k = "min k (length (buf_bytes b))" and ?s = "s_emit (Ev_send f (take k (buf_bytes b))) s"
    have eff: "effect s ?s (map (Ev_send f) [take k (buf_bytes b)])" by simp
    show ?thesis
    proof (cases "?k = 0")
      case True
      then have "take k (buf_bytes b) = []" by (auto simp: min_def split: if_splits)
      with True assms eff show ?thesis unfolding Send_bytes
        by (auto simp: unf sock_send_def write_once_def intro!: exI [of _ "[take k (buf_bytes b)]"])
    next
      case False
      obtain b' where b': "wc_buffer_consume b (of_nat ?k) = Some (wc_ok, b')" "buf_wf b'"
        "buf_bytes b = take k (buf_bytes b) @ buf_bytes b'" "buf_max_size b' = buf_max_size b" "buf_owned b' = buf_owned b"
        by (rule consume_sent [OF assms])
      have "buf_bytes b = concat [take k (buf_bytes b)] @ buf_bytes b'" using b'(3) by simp
      with b' False eff Send_bytes have "write_once f b s (wc_ok, b', ?s)"
        unfolding write_once_def by (auto intro!: exI [of _ "[take k (buf_bytes b)]"])
      moreover have "wc_tcp_write_client f b x s = Some (wc_ok, b', ?s)"
        unfolding unf using False b'(1) by (simp add: sock_send_def Send_bytes)
      ultimately show ?thesis by blast
    qed
  qed
qed

section \<open>Steps of a session\<close>

lemma drain_frame:
  assumes "request_spec xs = Frame m k"
  shows "drain request_spec (take k xs) = ([m], [], True)"
proof -
  obtain t a where m: "m = (t, a)" by (cases m)
  note D = request_spec_FrameD [OF assms [unfolded m]]
  have "request_spec (take k xs) = Frame (t, a) k"
    using request_spec_frame [OF D(5,4), of "[]"] D(1,6) by simp
  moreover have "drain request_spec [] = ([], [], True)" by (rule req.drain_More) (simp add: request_spec_def)
  ultimately show ?thesis using m by (simp add: req.drain_Frame)
qed

lemma response_frame_ne [simp]: "response_frame d \<noteq> []"
  by (simp add: response_frame_def u16_bytes_def)

lemma ws_fresh: "worker_session strerror (s_emit (Ev_open f) s) f [] []"
  using req.drain_More [of "[]"]
  by (auto simp: worker_session_def request_spec_def intro!: exI [of _ "[] :: answer list"])

lemma ws_answer:
  assumes ws: "worker_session strerror s f inp []" and fr: "request_spec inp = Frame m k"
    and d: "answered_ok strerror s (fst m, snd m, d)" and eff: "effect s s' (map Ev_run cmds)"
  shows "worker_session strerror s' f (drop k inp) (response_frame d)"
proof -
  obtain ans consumed where a: "session_recv f (s_trace s) = consumed @ inp"
    "drain request_spec consumed = (map asked ans, [], True)"
    "session_sent f (s_trace s) = concat (map (\<lambda>x. response_frame (snd (snd x))) ans)"
    "list_all (answered_ok strerror s) ans"
    using ws by (auto simp: worker_session_def)
  have no: "Ev_open f \<notin> set (map Ev_run cmds)" by auto
  have "drain request_spec (consumed @ take k inp) = (map asked (ans @ [(fst m, snd m, d)]), [], True)"
    using drain_continue(1) [OF a(2), of "take k inp"] drain_frame [OF fr] by simp
  then show ?thesis
    unfolding worker_session_def using a d
    by (intro exI [of _ "ans @ [(fst m, snd m, d)]"] exI [of _ "consumed @ take k inp"])
       (simp add: effect_trace [OF eff] session_append [OF no] answered_ok_effect [OF eff])
qed

lemma ws_recv:
  assumes "worker_session strerror s f inp outp" "effect s s' [Ev_recv f got]"
  shows "worker_session strerror s' f (inp @ got) outp"
  using assms(1) session_append [where f = f and ys = "[Ev_recv f got]"]
  by (auto simp: worker_session_def effect_trace [OF assms(2)] answered_ok_effect [OF assms(2)] received_from_def)

lemma ws_send:
  assumes "worker_session strerror s f inp outp" "effect s s' (map (Ev_send f) chunks)" "outp = concat chunks @ outp'"
  shows "worker_session strerror s' f inp outp'"
proof -
  have "Ev_open f \<notin> set (map (Ev_send f) chunks)" by auto
  from session_append [OF this] show ?thesis
    using assms(1,3) by (auto simp: worker_session_def effect_trace [OF assms(2)] answered_ok_effect [OF assms(2)])
qed

lemma ws_drain:
  assumes "worker_session strerror s f inp outp"
  obtains ans where "session_sent f (s_trace s) @ outp = concat (map (\<lambda>x. response_frame (snd (snd x))) ans)"
    "list_all (answered_ok strerror s) ans"
    "fst (drain request_spec (session_recv f (s_trace s))) = map asked ans @ fst (drain request_spec inp)"
proof -
  obtain ans consumed where a: "session_recv f (s_trace s) = consumed @ inp"
    "drain request_spec consumed = (map asked ans, [], True)"
    "session_sent f (s_trace s) @ outp = concat (map (\<lambda>x. response_frame (snd (snd x))) ans)"
    "list_all (answered_ok strerror s) ans"
    using assms by (auto simp: worker_session_def)
  obtain ms r ok where d: "drain request_spec inp = (ms, r, ok)" by (metis prod_cases3)
  show ?thesis using a(1) drain_continue(1) [OF a(2), of inp] d by (intro that [OF a(3,4)]) simp
qed

lemma ws_history:
  assumes "worker_session strerror s f inp outp"
  shows "history_ok strerror s f"
  by (rule ws_drain [OF assms]) (auto simp: history_ok_def intro!: exI prefixI [OF sym])

lemma ws_complete:
  assumes "worker_session strerror s f inp []" "request_spec inp = More"
  shows "session_complete strerror s f"
  by (rule ws_drain [OF assms(1)]) (auto simp: session_complete_def req.drain_More [OF assms(2)])

lemma poll_revents_only: "poll_revents 1 w AND 4 = 0" "poll_revents 4 w AND 1 = 0"
  by (simp_all add: poll_revents_def and.assoc)

section \<open>The interface of a connection\<close>

locale connection =
  fixes process :: "(errno \<Rightarrow> byte list) \<Rightarrow> wc_buffer \<Rightarrow> wc_buffer \<Rightarrow> 'n sys \<Rightarrow>
      (status \<times> wc_buffer \<times> wc_buffer \<times> 'n sys) option"
    and rd :: "fd \<Rightarrow> wc_buffer \<Rightarrow> read_outcome \<Rightarrow> 'n sys \<Rightarrow> (status \<times> wc_buffer \<times> 'n sys) option"
    and wr :: "fd \<Rightarrow> wc_buffer \<Rightarrow> send_outcome \<Rightarrow> 'n sys \<Rightarrow> (status \<times> wc_buffer \<times> 'n sys) option"
  assumes process_law: "bufs_wf i b \<Longrightarrow> buf_bytes b = [] \<Longrightarrow>
      \<exists>res. process strerror i b s = Some res \<and> process_result strerror i b s res"
    and read_law: "buf_wf i \<Longrightarrow> buf_max_size i = 65535 \<Longrightarrow> \<exists>res. rd f i x s = Some res \<and> read_once f i x s res"
    and write_law: "buf_wf b \<Longrightarrow> \<exists>res. wr f b y s = Some res \<and> write_once f b s res"
begin

text \<open>First phase: if no output is pending, the next request is answered.\<close>

lemma process_phase:
  assumes wf: "bufs_wf i b" and ws: "worker_session strerror s f (buf_bytes i) (buf_bytes b)"
  obtains st i1 b1 s1 cmds where
    "(if buf_length b = 0 then process strerror i b s else Some (wc_ok, i, b, s)) = Some (st, i1, b1, s1)"
    "bufs_wf i1 b1" "effect s s1 (map Ev_run cmds)" "evs_of f (map Ev_run cmds)"
    "s_live s1 = s_live s + buf_owned i1 + buf_owned b1 - buf_owned i - buf_owned b"
    "st = wc_ok \<longrightarrow> worker_session strerror s1 f (buf_bytes i1) (buf_bytes b1)" "history_ok strerror s1 f"
    "st = wc_ok \<and> buf_bytes b1 = [] \<longrightarrow> request_spec (buf_bytes i1) = More"
proof (cases "buf_bytes b = []")
  case False
  have "buf_length b \<noteq> 0" using False wf buf_length_zero_iff by (auto simp: bufs_wf_def)
  with wf ws False show ?thesis by (intro that [of wc_ok i b s "[]"]) (auto simp: ws_history)
next
  case True
  have b0: "buf_length b = 0" using True wf buf_length_zero_iff by (auto simp: bufs_wf_def)
  obtain st i1 b1 s1 where p: "process strerror i b s = Some (st, i1, b1, s1)"
    "process_result strerror i b s (st, i1, b1, s1)"
    using process_law [OF wf True, of strerror s] by (metis prod_cases4)
  show ?thesis
  proof (cases "request_spec (buf_bytes i)")
    case (Frame m k)
    then obtain cmds where P: "bufs_wf i1 b1" "effect s s1 (map Ev_run cmds)" "cmds_ok (fst m) (snd m) cmds"
      "s_live s1 = s_live s + buf_owned b1 - buf_owned b" "buf_owned i1 = buf_owned i"
      "st = wc_ok \<and> buf_bytes i1 = drop k (buf_bytes i) \<and>
         (\<exists>d. buf_bytes b1 = response_frame d \<and> answered_ok strerror s (fst m, snd m, d)) \<or> st \<noteq> wc_ok"
      using p(2) by (auto simp: process_result_def)
    have new: "worker_session strerror s1 f (buf_bytes i1) (buf_bytes b1) \<and> buf_bytes b1 \<noteq> []" if ok: "st = wc_ok"
    proof -
      obtain d where d: "buf_bytes b1 = response_frame d" "answered_ok strerror s (fst m, snd m, d)"
        "buf_bytes i1 = drop k (buf_bytes i)"
        using P(6) ok by auto
      show ?thesis using ws_answer [OF ws [unfolded True] Frame d(2) P(2)] d by simp
    qed
    have "history_ok strerror s1 f" by (rule history_keep [OF ws_history [OF ws] P(2)]) auto
    with P new b0 p(1) show ?thesis
      by (intro that [of st i1 b1 s1 cmds]) (auto simp: evs_of_runs)
  next
    case More
    then show ?thesis using p b0 wf ws by (intro that [of wc_ok i b s "[]"]) (auto simp: process_result_def ws_history)
  next
    case Bad
    then show ?thesis using p b0 wf ws
      by (intro that [of "Inl EPROTO" i b s "[]"]) (auto simp: process_result_def ws_history)
  qed
qed

text \<open>Second phase, with no output pending: at most one read.\<close>

lemma read_phase:
  assumes wf: "bufs_wf i b" and ws: "worker_session strerror s f (buf_bytes i) (buf_bytes b)"
    and empty: "buf_bytes b = []" "request_spec (buf_bytes i) = More"
  obtains st i1 s1 evs where "rd f i x s = Some (st, i1, s1)" "bufs_wf i1 b" "effect s s1 evs" "evs_of f evs"
    "s_live s1 = s_live s + buf_owned i1 - buf_owned i"
    "st = wc_ok \<longrightarrow> worker_session strerror s1 f (buf_bytes i1) (buf_bytes b)" "history_ok strerror s1 f"
    "Ev_recv f [] \<in> set evs \<longrightarrow> st \<noteq> wc_ok \<and> session_complete strerror s1 f"
proof -
  have i: "buf_wf i" "buf_max_size i = 65535" using wf by (auto simp: bufs_wf_def)
  obtain st i1 s1 where r: "rd f i x s = Some (st, i1, s1)" "read_once f i x s (st, i1, s1)"
    using read_law [OF i, of f x s] by (metis prod_cases3)
  have len: "length (buf_bytes i) \<noteq> 65535" using req.more_bound [OF empty(2)] by simp
  have wf1: "bufs_wf i1 b" and live: "s_live s1 = s_live s + buf_owned i1 - buf_owned i"
    using r(2) wf by (auto simp: read_once_def bufs_wf_def)
  show ?thesis
  proof (cases x)
    case (Read_error e)
    then have "i1 = i" "s1 = s" using r(2) len by (auto simp: read_once_def)
    with r(1) wf ws show ?thesis by (intro that [of st i s "[]"]) (auto simp: ws_history)
  next
    case (Read_bytes bs)
    define got where "got = take (min 4096 (65535 - length (buf_bytes i))) bs"
    have R: "effect s s1 [Ev_recv f got]"
      "bs = [] \<longrightarrow> st \<noteq> wc_ok" "bs \<noteq> [] \<and> st = wc_ok \<longrightarrow> buf_bytes i1 = buf_bytes i @ got"
      using r(2) len Read_bytes by (auto simp: read_once_def Let_def got_def split: if_splits)
    have "0 < min 4096 (65535 - length (buf_bytes i))" using req.more_bound [OF empty(2)] by simp
    then have g: "got = [] \<longleftrightarrow> bs = []" by (auto simp: got_def)
    have w1: "worker_session strerror s1 f (buf_bytes i @ got) (buf_bytes b)" by (rule ws_recv [OF ws R(1)])
    have c: "session_complete strerror s1 f" if "got = []"
      using ws_complete [of strerror s1 f "buf_bytes i"] w1 that empty by simp
    have e: "evs_of f [Ev_recv f got]" by (simp add: evs_of_def)
    show ?thesis
      by (rule that [OF r(1) wf1 R(1) e live _ ws_history [OF w1]]) (use R(2,3) w1 g c in auto)
  qed
qed

text \<open>The two halves of the body after \<open>poll\<close>: reading when no output is pending, writing otherwise.\<close>

lemma read_or_wait:
  assumes "bufs_wf i1 b1" "worker_session strerror s1 f (buf_bytes i1) (buf_bytes b1)" "buf_bytes b1 = []"
    "request_spec (buf_bytes i1) = More"
  obtains st2 i2 s2 evs where "(if ready then rd f i1 x s1 else Some (wc_ok, i1, s1)) = Some (st2, i2, s2)"
    "bufs_wf i2 b1" "effect s1 s2 evs" "evs_of f evs" "s_live s2 = s_live s1 + buf_owned i2 - buf_owned i1"
    "st2 = wc_ok \<longrightarrow> worker_session strerror s2 f (buf_bytes i2) (buf_bytes b1)" "history_ok strerror s2 f"
    "Ev_recv f [] \<in> set evs \<longrightarrow> st2 \<noteq> wc_ok \<and> session_complete strerror s2 f"
proof (cases ready)
  case True
  show thesis by (rule read_phase [OF assms, of x]) (use True that in auto)
next
  case False
  then show thesis using assms(1,2) ws_history [OF assms(2)] by (intro that [of wc_ok i1 s1 "[]"]) auto
qed

lemma write_or_wait:
  assumes "bufs_wf i1 b1"
  obtains st2 b2 s2 chunks where "(if ready then wr f b1 x s1 else Some (wc_ok, b1, s1)) = Some (st2, b2, s2)"
    "bufs_wf i1 b2" "effect s1 s2 (map (Ev_send f) chunks)" "buf_bytes b1 = concat chunks @ buf_bytes b2"
    "s_live s2 = s_live s1" "buf_owned b2 = buf_owned b1"
proof (cases ready)
  case True
  have "buf_wf b1" using assms by (simp add: bufs_wf_def)
  from write_law [OF this, of f x s1] True that assms show thesis by (auto simp: write_once_def bufs_wf_def)
next
  case False
  then show thesis using assms by (intro that [of wc_ok b1 s1 "[]"]) auto
qed

lemma body_keeps:
  assumes wf: "bufs_wf i b" and ws: "worker_session strerror s f (buf_bytes i) (buf_bytes b)"
  shows "\<exists>res. session_body process rd wr strerror f env i b s = Some res \<and> body_result strerror f i b s res"
proof -
  obtain st i1 b1 s1 cmds where P:
    "(if buf_length b = 0 then process strerror i b s else Some (wc_ok, i, b, s)) = Some (st, i1, b1, s1)"
    "bufs_wf i1 b1" "effect s s1 (map Ev_run cmds)" "evs_of f (map Ev_run cmds)"
    "s_live s1 = s_live s + buf_owned i1 + buf_owned b1 - buf_owned i - buf_owned b"
    "st = wc_ok \<longrightarrow> worker_session strerror s1 f (buf_bytes i1) (buf_bytes b1)" "history_ok strerror s1 f"
    "st = wc_ok \<and> buf_bytes b1 = [] \<longrightarrow> request_spec (buf_bytes i1) = More"
    by (rule process_phase [OF wf ws])
  note unf = session_body_def [of process rd wr strerror f env i b s, unfolded P(1) Option.bind.bind_lunit prod.case]
  have runs: "Ev_recv f [] \<notin> set (map Ev_run cmds)" by auto
  have idle: "body_result strerror f i b s (go, i1, b1, s1)" if "st = wc_ok \<or> \<not> go" for go
    unfolding body_result_def using P(2-7) runs that by auto
  show ?thesis
  proof (cases "st = wc_ok \<and> (\<exists>w. we_poll env = Poll_events w)")
    case False
    then show ?thesis using idle unfolding unf by (cases "st = wc_ok"; cases "we_poll env") auto
  next
    case True
    then obtain w where st: "st = wc_ok" and w: "we_poll env = Poll_events w" by blast
    note ws1 = mp [OF P(6) st] and more = mp [OF P(8)]
    have b1: "buf_wf b1" "buf_length b1 = 0 \<longleftrightarrow> buf_bytes b1 = []"
      using P(2) buf_length_zero_iff by (auto simp: bufs_wf_def)
    have after: "body_result strerror f i b s (go, i2, b2, s2)"
      if "bufs_wf i2 b2" "effect s1 s2 evs" "evs_of f evs" "s_live s2 = s_live s1 + buf_owned i2 + buf_owned b2 - buf_owned i1 - buf_owned b1"
        "go \<longrightarrow> worker_session strerror s2 f (buf_bytes i2) (buf_bytes b2)" "history_ok strerror s2 f"
        "Ev_recv f [] \<in> set evs \<longrightarrow> \<not> go \<and> session_complete strerror s2 f" for go i2 b2 s2 evs
      unfolding body_result_def using that P(5) effect_trans [OF P(3) that(2)] P(4) runs
      by (auto intro!: exI [of _ "map Ev_run cmds @ evs"])
    show ?thesis
    proof (cases "buf_bytes b1 = []")
      case True
      obtain st2 i2 s2 evs where R: "(if poll_revents 1 w AND 1 \<noteq> 0 then rd f i1 (we_read env) s1 else Some (wc_ok, i1, s1)) =
          Some (st2, i2, s2)" "bufs_wf i2 b1" "effect s1 s2 evs" "evs_of f evs"
        "s_live s2 = s_live s1 + buf_owned i2 - buf_owned i1"
        "st2 = wc_ok \<longrightarrow> worker_session strerror s2 f (buf_bytes i2) (buf_bytes b1)" "history_ok strerror s2 f"
        "Ev_recv f [] \<in> set evs \<longrightarrow> st2 \<noteq> wc_ok \<and> session_complete strerror s2 f"
        by (rule read_or_wait [OF P(2) ws1 True more [OF conjI [OF st True]]])
      note A = after [OF R(2-4) _ _ R(7)]
      have "body_result strerror f i b s (go, i2, b1, s2)" if "go \<longrightarrow> st2 = wc_ok" for go
        by (rule A) (use R(5,6,8) that in auto)
      then show ?thesis
        using st True b1(2) R(1) poll_revents_only(1) [of w] unfolding unf w by (auto simp: Let_def)
    next
      case False
      obtain st2 b2 s2 chunks where W: "(if poll_revents 4 w AND 4 \<noteq> 0 then wr f b1 (we_send env) s1 else Some (wc_ok, b1, s1)) =
          Some (st2, b2, s2)" "bufs_wf i1 b2" "effect s1 s2 (map (Ev_send f) chunks)"
        "buf_bytes b1 = concat chunks @ buf_bytes b2" "s_live s2 = s_live s1" "buf_owned b2 = buf_owned b1"
        by (rule write_or_wait [OF P(2)])
      have w2: "worker_session strerror s2 f (buf_bytes i1) (buf_bytes b2)" by (rule ws_send [OF ws1 W(3,4)])
      have "body_result strerror f i b s (go, i1, b2, s2)" for go
        by (rule after [OF W(2,3)]) (use W(5,6) w2 ws_history [OF w2] in auto)
      then show ?thesis
        using st False b1(2) W(1) poll_revents_only(2) [of w] unfolding unf w
        by (auto simp: Let_def word_neq_0_conv)
    qed
  qed
qed

end

interpretation tcp: connection wc_tcp_process_request wc_tcp_read_client wc_tcp_write_client
  by unfold_locales (rule tcp_process_law tcp_read_law tcp_write_law; assumption)+

interpretation thr: connection wc_threaded_uds_process_request wc_threaded_uds_read wc_threaded_uds_write
  unfolding threaded_eqs
  by unfold_locales (rule tcp_process_law tcp_read_law tcp_write_law; assumption)+

section \<open>A worker from start to end\<close>

lemma tcp_body_eq:
  "tcp_worker_body = session_body wc_tcp_process_request wc_tcp_read_client wc_tcp_write_client"
  by (intro ext) (simp only: tcp_worker_body_def session_body_def)

lemma tcp_loop_keeps:
  assumes "bufs_wf i b" "worker_session strerror s f (buf_bytes i) (buf_bytes b)"
  shows "\<exists>i' b' s' evs. tcp_worker_loop strerror f envs i b s = Some (i', b', s') \<and> bufs_wf i' b' \<and>
     s_live s' = s_live s + buf_owned i' + buf_owned b' - buf_owned i - buf_owned b \<and>
     effect s s' evs \<and> evs_of f evs \<and> history_ok strerror s' f \<and>
     (Ev_recv f [] \<in> set evs \<longrightarrow> session_complete strerror s' f)"
  using assms
proof (induction envs arbitrary: i b s)
  case Nil
  then show ?case by (auto simp: ws_history intro!: exI [of _ "[] :: event list"])
next
  case (Cons env envs)
  show ?case
  proof (cases "wc_tcp_is_stopping (we_lock env) (we_unlock env) (we_stopping env)")
    case True
    with Cons.prems show ?thesis by (auto simp: ws_history intro!: exI [of _ "[] :: event list"])
  next
    case False
    obtain go i1 b1 s1 where body: "tcp_worker_body strerror f env i b s = Some (go, i1, b1, s1)"
      and res: "body_result strerror f i b s (go, i1, b1, s1)"
      using tcp.body_keeps [OF Cons.prems, of env] unfolding tcp_body_eq by (metis prod_cases4)
    obtain evs where R: "bufs_wf i1 b1" "s_live s1 = s_live s + buf_owned i1 + buf_owned b1 - buf_owned i - buf_owned b"
      "effect s s1 evs" "evs_of f evs" "Ev_recv f [] \<in> set evs \<longrightarrow> \<not> go \<and> session_complete strerror s1 f"
      "history_ok strerror s1 f" "go \<longrightarrow> worker_session strerror s1 f (buf_bytes i1) (buf_bytes b1)"
      using res by (auto simp: body_result_def)
    show ?thesis
    proof (cases go)
      case False
      with \<open>\<not> wc_tcp_is_stopping _ _ _\<close> body R show ?thesis by auto
    next
      case True
      from Cons.IH [OF R(1) mp [OF R(7) True]] obtain i' b' s' evs' where I:
        "tcp_worker_loop strerror f envs i1 b1 s1 = Some (i', b', s')" "bufs_wf i' b'"
        "s_live s' = s_live s1 + buf_owned i' + buf_owned b' - buf_owned i1 - buf_owned b1"
        "effect s1 s' evs'" "evs_of f evs'" "history_ok strerror s' f"
        "Ev_recv f [] \<in> set evs' \<longrightarrow> session_complete strerror s' f" by blast
      have "effect s s' (evs @ evs')" by (rule effect_trans [OF R(3) I(4)])
      with \<open>\<not> wc_tcp_is_stopping _ _ _\<close> body True R(2,4,5) I show ?thesis
        by (auto intro!: exI [of _ "evs @ evs'"])
    qed
  qed
qed

lemma session_complete_keep:
  assumes "effect s s' [Ev_close f]"
  shows "session_complete strerror s' f = session_complete strerror s f"
  using session_append [where f = f and ys = "[Ev_close f]" and xs = "s_trace s"]
  by (simp add: session_complete_def effect_trace [OF assms] answered_ok_effect [OF assms] received_from_def)

lemma tcp_exit_spec:
  "effect s (tcp_worker_exit f i b s) [Ev_close f]"
  "s_live (tcp_worker_exit f i b s) = s_live s - buf_owned i - buf_owned b"
proof -
  obtain b1 s1 where d1: "wc_buffer_destroy i s = (b1, s1)" by fastforce
  obtain b2 s2 where d2: "wc_buffer_destroy b s1 = (b2, s2)" by fastforce
  note D1 = destroy_spec [OF d1] and D2 = destroy_spec [OF d2]
  have e: "tcp_worker_exit f i b s = s_emit (Ev_close f) s2" by (simp add: tcp_worker_exit_def d1 d2)
  show "effect s (tcp_worker_exit f i b s) [Ev_close f]"
    unfolding e using effect_trans [OF sys_frame_effect [OF sys_frame_trans [OF D1(5) D2(5)]] effect_emit] by simp
  show "s_live (tcp_worker_exit f i b s) = s_live s - buf_owned i - buf_owned b"
    unfolding e using D1(6) D2(6) by simp
qed

lemma tcp_main_keeps:
  assumes "wk_client_fd w = f"
  shows "\<exists>s' evs. wc_tcp_worker_main strerror w envs lock (s_emit (Ev_open f) s) =
       Some (wc_tcp_mark_finished lock w, s') \<and>
     effect s s' ([Ev_open f] @ evs @ [Ev_close f]) \<and> evs_of f evs \<and> s_live s' = s_live s \<and> history_ok strerror s' f \<and>
     (Ev_recv f [] \<in> set evs \<longrightarrow> session_complete strerror s' f)"
proof -
  let ?i = "snd (wc_buffer_init 65535)" and ?b = "snd (wc_buffer_init 65537)" and ?s = "s_emit (Ev_open f) s"
  have ws: "worker_session strerror ?s f (buf_bytes ?i) (buf_bytes ?b)" using ws_fresh by simp
  have wf: "bufs_wf ?i ?b" by (simp add: bufs_wf_def)
  from tcp_loop_keeps [OF wf ws, of envs] obtain i' b' s1 evs where
    L: "tcp_worker_loop strerror f envs ?i ?b ?s = Some (i', b', s1)"
    "s_live s1 = s_live ?s + buf_owned i' + buf_owned b' - buf_owned ?i - buf_owned ?b" "effect ?s s1 evs" "evs_of f evs"
    "history_ok strerror s1 f" "Ev_recv f [] \<in> set evs \<longrightarrow> session_complete strerror s1 f" by blast
  let ?s' = "tcp_worker_exit f i' b' s1"
  note X = tcp_exit_spec [where s = s1 and f = f and i = i' and b = b']
  have run: "wc_tcp_worker_main strerror w envs lock ?s = Some (wc_tcp_mark_finished lock w, ?s')"
    using L(1) assms by (simp add: wc_tcp_worker_main_def wc_buffer_init_def)
  have eff: "effect s ?s' ([Ev_open f] @ evs @ [Ev_close f])"
    using effect_trans [OF effect_emit effect_trans [OF L(3) X(1)]] by simp
  have "history_ok strerror ?s' f" by (rule history_keep [OF L(5) X(1)]) auto
  moreover have "s_live ?s' = s_live s" using X(2) L(2) by simp
  ultimately show ?thesis
    using run eff L(4,6) session_complete_keep [OF X(1)]
    by (intro exI [of _ ?s'] exI [of _ evs]) simp
qed

lemma threaded_loop_eq: "threaded_uds_worker_loop = tcp_worker_loop"
proof (intro ext)
  fix strerror f i b and s :: "'n sys" and envs
  show "threaded_uds_worker_loop strerror f envs i b s = tcp_worker_loop strerror f envs i b s"
    by (induction envs arbitrary: i b s) (simp_all add: threaded_eqs cong: if_cong Option.bind_cong)
qed

lemma threaded_main_eq: "wc_threaded_uds_worker_main = wc_tcp_worker_main"
  by (intro ext) (simp only: wc_threaded_uds_worker_main_def wc_tcp_worker_main_def threaded_eqs threaded_loop_eq)

section \<open>Properties\<close>

text \<open>
  C13. A worker serves its connection. For every behaviour of the peer and of the system calls,
  \<open>wc_tcp_worker_main\<close> returns with the slot marked as finished if the lock can be taken, its memory freed and the descriptor closed as its last event; in between there are only traffic on that
  descriptor and command lines of well-formed requests; and the bytes sent are a prefix of the response frames of
  the replies to an initial part of the requests received.
\<close>

theorem tcp_worker_serves:
  assumes "wk_client_fd w = f"
  shows "\<exists>s' evs. wc_tcp_worker_main strerror w envs lock (s_emit (Ev_open f) s) =
       Some (w\<lparr>wk_finished := wk_finished w \<or> lock\<rparr>, s') \<and> s_live s' = s_live s \<and>
     s_trace s' = s_trace s @ [Ev_open f] @ evs @ [Ev_close f] \<and>
     (\<forall>e \<in> set evs. (\<exists>bs. e = Ev_send f bs \<or> e = Ev_recv f bs) \<or>
        (\<exists>cmd t a. e = Ev_run cmd \<and> request_command t a = Inr cmd)) \<and>
     (\<exists>ans. prefix (sent_to f evs) (concat (map (\<lambda>(t, a, d). response_frame d) ans)) \<and>
        prefix (map (\<lambda>(t, a, d). (t, a)) ans) (fst (drain request_spec (received_from f evs))) \<and>
        list_all (\<lambda>(t, a, d). \<exists>cmds. answers strerror (s_popen s) (mem_ample s) t a cmds d) ans)"
proof -
  obtain s' evs where M: "wc_tcp_worker_main strerror w envs lock (s_emit (Ev_open f) s) = Some (wc_tcp_mark_finished lock w, s')"
    "effect s s' ([Ev_open f] @ evs @ [Ev_close f])" "evs_of f evs" "s_live s' = s_live s" "history_ok strerror s' f"
    using tcp_main_keeps [OF assms, of strerror envs lock s] by blast
  have tr: "s_trace s' = (s_trace s @ [Ev_open f]) @ evs @ [Ev_close f]" using effect_trace [OF M(2)] by simp
  have "Ev_open f \<notin> set (evs @ [Ev_close f])" using evs_ofD(1) [OF M(3)] by simp
  from session_append [OF this, of "s_trace s @ [Ev_open f]"]
  have io: "session_sent f (s_trace s') = sent_to f evs" "session_recv f (s_trace s') = received_from f evs"
    by (simp_all add: tr received_from_def)
  obtain ans where ans: "prefix (sent_to f evs) (concat (map (\<lambda>x. response_frame (snd (snd x))) ans))"
    "prefix (map asked ans) (fst (drain request_spec (received_from f evs)))" "list_all (answered_ok strerror s) ans"
    using M(5) unfolding history_ok_def io answered_ok_effect [OF M(2)] by blast
  have m: "wc_tcp_mark_finished lock w = w\<lparr>wk_finished := wk_finished w \<or> lock\<rparr>"
    by (cases w) (auto simp: wc_tcp_mark_finished_def)
  have e: "\<forall>e \<in> set evs. (\<exists>bs. e = Ev_send f bs \<or> e = Ev_recv f bs) \<or>
        (\<exists>cmd t a. e = Ev_run cmd \<and> request_command t a = Inr cmd)"
    using M(3) unfolding evs_of_def safe_command_def by blast
  show ?thesis
    using M(1,4) m tr e ans
    by (intro exI [of _ s'] exI [of _ evs] conjI exI [of _ ans])
       (auto simp: case_prod_unfold list_all_iff answered_ok_def)
qed

text \<open>
  C14. No request is lost when the peer ends its stream. If a worker reads the end of the stream,
  then it has sent, completely, the response frame of a reply to every complete request in the
  bytes it received, in order.
\<close>

theorem tcp_worker_eof_complete:
  assumes "wk_client_fd w = f" "wc_tcp_worker_main strerror w envs lock (s_emit (Ev_open f) s) = Some (w', s')"
    and "s_trace s' = s_trace s @ [Ev_open f] @ evs @ [Ev_close f]" "Ev_recv f [] \<in> set evs"
  shows "\<exists>ans. sent_to f evs = concat (map (\<lambda>(t, a, d). response_frame d) ans) \<and>
     map (\<lambda>(t, a, d). (t, a)) ans = fst (drain request_spec (received_from f evs)) \<and>
     list_all (\<lambda>(t, a, d). \<exists>cmds. answers strerror (s_popen s) (mem_ample s) t a cmds d) ans"
proof -
  obtain evs' where M: "effect s s' ([Ev_open f] @ evs' @ [Ev_close f])" "evs_of f evs'"
    "Ev_recv f [] \<in> set evs' \<longrightarrow> session_complete strerror s' f"
    using tcp_main_keeps [OF assms(1), of strerror envs lock s] assms(2) by auto
  have "evs' = evs" using effect_trace [OF M(1)] assms(3) by simp
  note M = M [unfolded this]
  have tr: "s_trace s' = (s_trace s @ [Ev_open f]) @ evs @ [Ev_close f]" using assms(3) by simp
  have "Ev_open f \<notin> set (evs @ [Ev_close f])" using evs_ofD(1) [OF M(2)] by simp
  from session_append [OF this, of "s_trace s @ [Ev_open f]"]
  have io: "session_sent f (s_trace s') = sent_to f evs" "session_recv f (s_trace s') = received_from f evs"
    by (simp_all add: tr received_from_def)
  obtain ans where "sent_to f evs = concat (map (\<lambda>x. response_frame (snd (snd x))) ans)"
    "map asked ans = fst (drain request_spec (received_from f evs))" "list_all (answered_ok strerror s) ans"
    using M(3) assms(4) unfolding session_complete_def io answered_ok_effect [OF M(1)] by blast
  then show ?thesis by (intro exI [of _ ans]) (auto simp: case_prod_unfold list_all_iff answered_ok_def)
qed

text \<open>
  C15. The workers of the two threaded servers behave alike: on the same slot, iterations and
  state \<open>wc_threaded_uds_worker_main\<close> gives what \<open>wc_tcp_worker_main\<close> gives.
\<close>

theorem threaded_worker_equivalent:
  "wc_threaded_uds_worker_main strerror w envs lock s = wc_tcp_worker_main strerror w envs lock s"
  by (simp only: threaded_main_eq)

section \<open>Witnesses\<close>

definition demo_worker :: wc_tcp_worker where
  "demo_worker = \<lparr>wk_thread = 0, wk_client_fd = 5, wk_in_use = True, wk_finished = False\<rparr>"

definition demo_step :: worker_env where
  "demo_step = \<lparr>we_lock = True, we_unlock = True, we_stopping = False, we_poll = Poll_events 1,
     we_read = Read_bytes [], we_send = Send_bytes 100\<rparr>"

theorem tcp_worker_serves_witness:
  "\<exists>s' evs. wc_tcp_worker_main (\<lambda>_. []) demo_worker [demo_step] True (s_emit (Ev_open 5) (sys0 :: unit sys)) =
     Some (demo_worker\<lparr>wk_finished := True\<rparr>, s') \<and> s_trace s' = [Ev_open 5] @ evs @ [Ev_close 5]"
proof -
  have "wk_client_fd demo_worker = 5" "s_trace (sys0 :: unit sys) = []" by (simp_all add: demo_worker_def sys0_def)
  with tcp_worker_serves [of demo_worker 5 "\<lambda>_. []" "[demo_step]" True "sys0 :: unit sys"] show ?thesis by auto
qed

text \<open>A peer that sends one \<open>PWD\<close> request and ends its stream.\<close>

definition demo_steps :: "worker_env list" where
  "demo_steps = [demo_step\<lparr>we_read := Read_bytes [0, 6, 0, 2, 0, 0]\<rparr>, demo_step\<lparr>we_poll := Poll_events 4\<rparr>, demo_step]"

lemma demo_trace:
  "map_option (\<lambda>(w, s). s_trace s) (wc_tcp_worker_main (\<lambda>_. []) demo_worker demo_steps True (s_emit (Ev_open 5) (sys0 :: unit sys))) =
     Some ([Ev_open 5] @ [Ev_recv 5 [0, 6, 0, 2, 0, 0], Ev_run (c_str ''pwd 2>/dev/null''), Ev_send 5 [0, 0], Ev_recv 5 []] @
       [Ev_close 5])"
  by code_simp

theorem tcp_worker_eof_complete_witness:
  "\<exists>ans. [0, 0] = concat (map (\<lambda>(t, a, d). response_frame d) (ans :: answer list)) \<and>
     map (\<lambda>(t, a, d). (t, a)) ans = [(2, [])]"
proof -
  let ?evs = "[Ev_recv 5 [0, 6, 0, 2, 0, 0], Ev_run (c_str ''pwd 2>/dev/null''), Ev_send 5 [0, 0], Ev_recv 5 []]"
  obtain w s where r: "wc_tcp_worker_main (\<lambda>_. []) demo_worker demo_steps True (s_emit (Ev_open 5) (sys0 :: unit sys)) = Some (w, s)"
    "s_trace s = s_trace (sys0 :: unit sys) @ [Ev_open 5] @ ?evs @ [Ev_close 5]"
    using demo_trace by (auto simp: sys0_def)
  have d: "drain request_spec [0, 6, 0, 2, 0, 0] = ([(2, [])], [], True)"
    by (simp add: drain.simps request_spec_def u16_at_def Let_def)
  have "wk_client_fd demo_worker = 5" by (simp add: demo_worker_def)
  from tcp_worker_eof_complete [OF this r] obtain ans where
    a: "sent_to 5 ?evs = concat (map (\<lambda>(t, a, d). response_frame d) (ans :: answer list))"
    "map (\<lambda>(t, a, d). (t, a)) ans = fst (drain request_spec (received_from 5 ?evs))" by auto
  have "sent_to 5 ?evs = [0, 0]" "received_from 5 ?evs = [0, 6, 0, 2, 0, 0]" by (simp_all add: received_from_def)
  from a [unfolded this d fst_conv] show ?thesis by (intro exI [of _ ans] conjI)
qed

end
