(* ===== verification/WC_TCP_Main.thy ===== *)
theory WC_TCP_Main
  imports WC_Server_TCP
begin

text \<open>
  The main thread of the TCP server, \<^verbatim>\<open>src/src/server_tcp.c\<close>: the listener, the table of workers, acceptance of
  clients, reaping and joining of workers, and the run of the server. The threads of the
  workers are part of the state. Wherever the main thread waits for a lock, for \<open>poll\<close>, for \<open>accept\<close> or for
  a thread, any sequence of steps of the workers may happen: the schedule given with that call.
\<close>

unbundle bit_operations_syntax

abbreviation (input) WC_TCP_MAX_CLIENTS :: nat where "WC_TCP_MAX_CLIENTS \<equiv> 64"

section \<open>State\<close>

record wc_tcp_server =
  sv_workers :: "wc_tcp_worker list"
  sv_stopping :: bool

text \<open>
  The state of a worker's thread: created, in its loop with its descriptor and buffers, after
  \<open>close\<close> but before \<open>wc_tcp_mark_finished\<close>, and returned. The number is the slot of its worker.
\<close>

datatype thread = Starting nat | Running nat fd wc_buffer wc_buffer | Closed nat | Returned

text \<open>The server together with the threads created so far, in order, and the system.\<close>

record pool = wc_tcp_server +
  pl_threads :: "thread list"
  pl_sys :: "unit sys"

text \<open>One step of a thread: its number and what happens in the step.\<close>

type_synonym sched = "(nat \<times> worker_env) list"

section \<open>Steps of the workers\<close>

definition set_thread :: "nat \<Rightarrow> thread \<Rightarrow> pool \<Rightarrow> pool" where
  "set_thread tid t p = p\<lparr>pl_threads := (pl_threads p)[tid := t]\<rparr>"

definition tcp_thread_step :: "(errno \<Rightarrow> byte list) \<Rightarrow> nat \<Rightarrow> worker_env \<Rightarrow> pool \<Rightarrow> pool option" where
  "tcp_thread_step strerror tid env p =
     (if tid \<ge> length (pl_threads p) then Some p
      else case pl_threads p ! tid of
          Starting w \<Rightarrow>
            (let client_fd = wk_client_fd (sv_workers p ! w) in
             case wc_buffer_init WC_TCP_INPUT_LIMIT of
               (Inl _, input) \<Rightarrow>
                 Some (set_thread tid (Closed w) (p\<lparr>pl_sys := s_emit (Ev_close client_fd) (pl_sys p)\<rparr>))
             | (Inr _, input) \<Rightarrow>
                 (case wc_buffer_init WC_TCP_OUTPUT_LIMIT of
                    (Inl _, output) \<Rightarrow>
                      Some (set_thread tid (Closed w)
                        (p\<lparr>pl_sys := s_emit (Ev_close client_fd) (snd (wc_buffer_destroy input (pl_sys p)))\<rparr>))
                  | (Inr _, output) \<Rightarrow> Some (set_thread tid (Running w client_fd input output) p)))
        | Running w client_fd input output \<Rightarrow>
            if wc_tcp_is_stopping (we_lock env) (we_unlock env) (sv_stopping p)
            then Some (set_thread tid (Closed w) (p\<lparr>pl_sys := tcp_worker_exit client_fd input output (pl_sys p)\<rparr>))
            else do {
              (go, i1, o1, s1) \<leftarrow> tcp_worker_body strerror client_fd env input output (pl_sys p);
              if go then Some (set_thread tid (Running w client_fd i1 o1) (p\<lparr>pl_sys := s1\<rparr>))
              else Some (set_thread tid (Closed w) (p\<lparr>pl_sys := tcp_worker_exit client_fd i1 o1 s1\<rparr>))
            }
        | Closed w \<Rightarrow>
            Some (set_thread tid Returned
              (p\<lparr>sv_workers := (sv_workers p)[w := wc_tcp_mark_finished (we_lock env) (sv_workers p ! w)]\<rparr>))
        | Returned \<Rightarrow> Some p)"

fun run_threads :: "(errno \<Rightarrow> byte list) \<Rightarrow> sched \<Rightarrow> pool \<Rightarrow> pool option" where
  "run_threads strerror [] p = Some p"
| "run_threads strerror ((tid, env) # sched) p = do {
     p1 \<leftarrow> tcp_thread_step strerror tid env p;
     run_threads strerror sched p1
   }"

section \<open>Operations of the main thread\<close>

definition wc_tcp_request_stop :: "status \<Rightarrow> status \<Rightarrow> pool \<Rightarrow> status \<times> pool" where
  "wc_tcp_request_stop lock_result unlock_result p =
     (if lock_result \<noteq> wc_ok then (lock_result, p)
      else (unlock_result, p\<lparr>sv_stopping := True\<rparr>))"

text \<open>
  Opening the listener: the results of \<open>inet_pton\<close> (1, 0, or -1 with an error), \<open>socket\<close>,
  \<open>setsockopt\<close>, the \<open>fcntl\<close> calls, \<open>bind\<close> and \<open>listen\<close>.
\<close>

record tcp_listener_env =
  tl_pton :: "errno + bool"
  tl_socket :: "errno + fd"
  tl_setsockopt :: status
  tl_flags :: "32 word"
  tl_fcntl :: "errno option list"
  tl_bind :: status
  tl_listen :: status

definition wc_tcp_open_listener :: "byte list option \<Rightarrow> uint16 \<Rightarrow> tcp_listener_env \<Rightarrow> unit sys \<Rightarrow> (errno + fd) \<times> unit sys" where
  "wc_tcp_open_listener bind_address port env s =
     (if bind_address = None \<or> bind_address = Some [] \<or> port = 0 then (Inl EINVAL, s)
      else case tl_pton env of
          Inl e \<Rightarrow> (Inl e, s)
        | Inr False \<Rightarrow> (Inl EINVAL, s)
        | Inr True \<Rightarrow>
            (case tl_socket env of
               Inl e \<Rightarrow> (Inl e, s)
             | Inr listener_fd \<Rightarrow>
                 let s1 = s_emit (Ev_open listener_fd) s;
                     st = (if tl_setsockopt env \<noteq> wc_ok then tl_setsockopt env
                           else case fst (wc_socket_set_nonblocking (tl_flags env) (tl_fcntl env)) of
                               Inl e \<Rightarrow> Inl e
                             | Inr _ \<Rightarrow> if tl_bind env \<noteq> wc_ok then tl_bind env else tl_listen env) in
                 (case st of
                    Inl saved_errno \<Rightarrow> (Inl saved_errno, s_emit (Ev_close listener_fd) s1)
                  | Inr _ \<Rightarrow> (Inr listener_fd, s1))))"

definition wc_tcp_workers_init :: "pool \<Rightarrow> pool" where
  "wc_tcp_workers_init p =
     p\<lparr>sv_workers := map (\<lambda>w. w\<lparr>wk_client_fd := - 1, wk_in_use := False, wk_finished := False\<rparr>) (sv_workers p)\<rparr>"

text \<open>
  \<open>pthread_join\<close> returns once the thread has returned; \<open>None\<close> if it has not by then, and the
  call waits forever.
\<close>

definition pthread_join :: "nat \<Rightarrow> pool \<Rightarrow> unit option" where
  "pthread_join tid p = (if tid < length (pl_threads p) \<and> pl_threads p ! tid = Returned then Some () else None)"

text \<open>
  Reaping. For each slot: the steps of the workers while the main thread waits for the lock, and
  the results of locking, unlocking and joining.
\<close>

record reap_env =
  re_sched :: sched
  re_lock :: bool
  re_unlock :: bool
  re_join :: bool

definition release_slot :: "nat \<Rightarrow> pool \<Rightarrow> pool" where
  "release_slot i p =
     p\<lparr>sv_workers := (sv_workers p)[i := (sv_workers p ! i)\<lparr>wk_client_fd := - 1, wk_in_use := False\<rparr>]\<rparr>"

fun tcp_reap_loop :: "(errno \<Rightarrow> byte list) \<Rightarrow> (nat \<Rightarrow> reap_env) \<Rightarrow> nat list \<Rightarrow> pool \<Rightarrow> pool option" where
  "tcp_reap_loop strerror env [] p = Some p"
| "tcp_reap_loop strerror env (i # is) p = do {
     p1 \<leftarrow> run_threads strerror (re_sched (env i)) p;
     if \<not> re_lock (env i) then Some p1
     else let worker = sv_workers p1 ! i; should_join = wk_in_use worker \<and> wk_finished worker in
       if \<not> re_unlock (env i) then Some p1
       else if should_join then
         (if re_join (env i) then do {
            _ \<leftarrow> pthread_join (wk_thread worker) p1;
            tcp_reap_loop strerror env is (release_slot i p1)
          }
          else tcp_reap_loop strerror env is p1)
       else tcp_reap_loop strerror env is p1
   }"

definition wc_tcp_reap_finished :: "(errno \<Rightarrow> byte list) \<Rightarrow> (nat \<Rightarrow> reap_env) \<Rightarrow> pool \<Rightarrow> pool option" where
  "wc_tcp_reap_finished strerror env p = tcp_reap_loop strerror env [0..<WC_TCP_MAX_CLIENTS] p"

text \<open>
  Starting a worker: the results of building the signal set, of blocking the signals and
  of \<open>pthread_create\<close>. The result of restoring the mask is only logged.
\<close>

record start_env =
  sg_sigset :: status
  sg_mask :: status
  sg_create :: status

fun tcp_free_slot :: "wc_tcp_worker list \<Rightarrow> nat option" where
  "tcp_free_slot [] = None"
| "tcp_free_slot (w # ws) = (if wk_in_use w then map_option Suc (tcp_free_slot ws) else Some 0)"

definition wc_tcp_start_worker :: "start_env \<Rightarrow> fd \<Rightarrow> pool \<Rightarrow> status \<times> pool" where
  "wc_tcp_start_worker env client_fd p = (case tcp_free_slot (sv_workers p) of
       None \<Rightarrow> (Inl EMFILE, p)
     | Some i \<Rightarrow>
         let worker = (sv_workers p ! i)\<lparr>wk_client_fd := client_fd, wk_finished := False, wk_in_use := True\<rparr>;
             undone = p\<lparr>sv_workers := (sv_workers p)[i := worker\<lparr>wk_client_fd := - 1, wk_in_use := False\<rparr>]\<rparr> in
         if sg_sigset env \<noteq> wc_ok then (sg_sigset env, undone)
         else if sg_mask env \<noteq> wc_ok then (sg_mask env, undone)
         else if sg_create env \<noteq> wc_ok then (sg_create env, undone)
         else (wc_ok, p\<lparr>sv_workers := (sv_workers p)[i := worker\<lparr>wk_thread := length (pl_threads p)\<rparr>],
                        pl_threads := pl_threads p @ [Starting i]\<rparr>))"

text \<open>The descriptors of the connections that are open.\<close>

fun thread_fds :: "wc_tcp_worker list \<Rightarrow> thread \<Rightarrow> fd list" where
  "thread_fds ws (Starting w) = [wk_client_fd (ws ! w)]"
| "thread_fds ws (Running w f i b) = [f]"
| "thread_fds ws _ = []"

definition open_fds :: "pool \<Rightarrow> fd list" where
  "open_fds p = concat (map (thread_fds (sv_workers p)) (pl_threads p))"

definition pool_emit :: "event \<Rightarrow> pool \<Rightarrow> pool" where
  "pool_emit e p = p\<lparr>pl_sys := s_emit e (pl_sys p)\<rparr>"

text \<open>
  Accepting: for each call of \<open>accept\<close>, the steps of the workers before it, its outcome, and
  what happens in reaping and starting.
\<close>

record accept_env =
  ae_sched :: sched
  ae_accept :: accept_outcome
  ae_reap :: "nat \<Rightarrow> reap_env"
  ae_start :: start_env

fun wc_tcp_accept_clients :: "(errno \<Rightarrow> byte list) \<Rightarrow> fd \<Rightarrow> accept_env list \<Rightarrow> pool \<Rightarrow> pool option" where
  "wc_tcp_accept_clients strerror listener_fd [] p = Some p"
| "wc_tcp_accept_clients strerror listener_fd (a # accepts) p = do {
     p0 \<leftarrow> run_threads strerror (ae_sched a) p;
     case ae_accept a of
       Accept_error e \<Rightarrow>
         if e = EINTR then wc_tcp_accept_clients strerror listener_fd accepts p0 else Some p0
     | Accept_fd pick flags fcntls \<Rightarrow>
         (let client_fd = pick (listener_fd # open_fds p0) in do {
            p1 \<leftarrow> wc_tcp_reap_finished strerror (ae_reap a) (pool_emit (Ev_open client_fd) p0);
            case fst (wc_socket_set_nonblocking flags fcntls) of
              Inl _ \<Rightarrow> wc_tcp_accept_clients strerror listener_fd accepts (pool_emit (Ev_close client_fd) p1)
            | Inr _ \<Rightarrow>
                (case wc_tcp_start_worker (ae_start a) client_fd p1 of
                   (Inl _, p2) \<Rightarrow>
                     wc_tcp_accept_clients strerror listener_fd accepts (pool_emit (Ev_close client_fd) p2)
                 | (Inr _, p2) \<Rightarrow> wc_tcp_accept_clients strerror listener_fd accepts p2)
          })
   }"

text \<open>Joining: for each slot, the steps of the workers while the main thread waits, and the result.\<close>

record join_env =
  je_sched :: sched
  je_join :: bool

fun tcp_join_loop :: "(errno \<Rightarrow> byte list) \<Rightarrow> (nat \<Rightarrow> join_env) \<Rightarrow> nat list \<Rightarrow> bool \<Rightarrow> pool \<Rightarrow> (bool \<times> pool) option" where
  "tcp_join_loop strerror env [] ok p = Some (ok, p)"
| "tcp_join_loop strerror env (i # is) ok p =
     (if wk_in_use (sv_workers p ! i) then
        (if je_join (env i) then do {
           p1 \<leftarrow> run_threads strerror (je_sched (env i)) p;
           _ \<leftarrow> pthread_join (wk_thread (sv_workers p ! i)) p1;
           tcp_join_loop strerror env is ok (release_slot i p1)
         }
         else tcp_join_loop strerror env is False p)
      else tcp_join_loop strerror env is ok p)"

definition wc_tcp_join_all :: "(errno \<Rightarrow> byte list) \<Rightarrow> (nat \<Rightarrow> join_env) \<Rightarrow> pool \<Rightarrow> (bool \<times> pool) option" where
  "wc_tcp_join_all strerror env p = tcp_join_loop strerror env [0..<WC_TCP_MAX_CLIENTS] True p"

section \<open>The run of the server\<close>

text \<open>
  One iteration of the main loop: reaping, the steps of the workers while the main thread polls, the result of
  \<open>poll\<close> (an error, or the events of the listener, none after a timeout) and the calls of \<open>accept\<close>.
\<close>

record main_env =
  me_reap :: "nat \<Rightarrow> reap_env"
  me_sched :: sched
  me_poll :: "errno + uint16"
  me_accepts :: "accept_env list"

fun tcp_main_loop :: "(errno \<Rightarrow> byte list) \<Rightarrow> fd \<Rightarrow> main_env list \<Rightarrow> pool \<Rightarrow> (status \<times> pool) option" where
  "tcp_main_loop strerror listener_fd [] p = Some (wc_ok, p)"
| "tcp_main_loop strerror listener_fd (m # ms) p = do {
     p1 \<leftarrow> wc_tcp_reap_finished strerror (me_reap m) p;
     p2 \<leftarrow> run_threads strerror (me_sched m) p1;
     case me_poll m of
       Inl e \<Rightarrow> if e = EINTR then tcp_main_loop strerror listener_fd ms p2 else Some (Inl e, p2)
     | Inr revents \<Rightarrow> do {
         p3 \<leftarrow> (if revents AND 1 \<noteq> 0 then wc_tcp_accept_clients strerror listener_fd (me_accepts m) p2 else Some p2);
         if revents AND (8 OR 16 OR 32) \<noteq> 0 then Some (Inl EIO, p3)
         else tcp_main_loop strerror listener_fd ms p3
       }
   }"

text \<open>
  The results of the remaining calls: initialising, locking, unlocking and destroying the mutex, and closing
  the listener. \<open>stop\<close> says whether the flag pointer is non-null; the loop runs until the end of the list.
\<close>

record run_env =
  rn_mutex_init :: status
  rn_lock :: status
  rn_unlock :: status
  rn_close :: status
  rn_join :: "nat \<Rightarrow> join_env"
  rn_mutex_destroy :: status

definition keep_first :: "status \<Rightarrow> status \<Rightarrow> status" where
  "keep_first result st = (if st \<noteq> wc_ok \<and> result = wc_ok then st else result)"

definition wc_server_tcp_run :: "(errno \<Rightarrow> byte list) \<Rightarrow> byte list option \<Rightarrow> uint16 \<Rightarrow> bool \<Rightarrow> tcp_listener_env \<Rightarrow>
    main_env list \<Rightarrow> run_env \<Rightarrow> unit sys \<Rightarrow> (status \<times> pool) option" where
  "wc_server_tcp_run strerror bind_address port stop lenv ms env s =
     (let zero = \<lparr>wk_thread = 0, wk_client_fd = 0, wk_in_use = False, wk_finished = False\<rparr>;
          server = \<lparr>sv_workers = replicate WC_TCP_MAX_CLIENTS zero, sv_stopping = False, pl_threads = [], pl_sys = s\<rparr> in
      if \<not> stop then Some (Inl EINVAL, server)
      else if rn_mutex_init env \<noteq> wc_ok then Some (rn_mutex_init env, server)
      else let p0 = wc_tcp_workers_init server in
        case wc_tcp_open_listener bind_address port lenv (pl_sys p0) of
          (Inl e, s1) \<Rightarrow> Some (Inl e, p0\<lparr>pl_sys := s1\<rparr>)
        | (Inr listener_fd, s1) \<Rightarrow> do {
            (result, p1) \<leftarrow> tcp_main_loop strerror listener_fd ms (p0\<lparr>pl_sys := s1\<rparr>);
            let (mutex_result, p2) = wc_tcp_request_stop (rn_lock env) (rn_unlock env) p1;
                result1 = keep_first result mutex_result;
                p3 = pool_emit (Ev_close listener_fd) p2;
                result2 = keep_first result1 (rn_close env) in do {
              (joined, p4) \<leftarrow> wc_tcp_join_all strerror (rn_join env) p3;
              if \<not> joined then Some (keep_first result2 (Inl EIO), p4)
              else Some (keep_first result2 (rn_mutex_destroy env), p4)
            }
          })"

end
