(* ===== verification/WC_Threaded_Main.thy ===== *)
theory WC_Threaded_Main
  imports WC_Server_Threaded WC_TCP_Main
begin

text \<open>
  The main thread of the threaded Unix-domain server, \<^verbatim>\<open>src/src/server_uds_threaded.c\<close>, over the
  state and the schedules of the theory on the TCP server. Unlike there, accepting does not
  reap first, and the socket file is removed at the end.
\<close>

unbundle bit_operations_syntax

abbreviation (input) WC_THREADED_UDS_MAX_CLIENTS :: nat where "WC_THREADED_UDS_MAX_CLIENTS \<equiv> 64"

type_synonym wc_threaded_uds_server = wc_tcp_server

section \<open>Steps of the workers\<close>

definition threaded_uds_thread_step :: "(errno \<Rightarrow> byte list) \<Rightarrow> nat \<Rightarrow> worker_env \<Rightarrow> pool \<Rightarrow> pool option" where
  "threaded_uds_thread_step strerror tid env p =
     (if tid \<ge> length (pl_threads p) then Some p
      else case pl_threads p ! tid of
          Starting w \<Rightarrow>
            (let client_fd = wk_client_fd (sv_workers p ! w) in
             case wc_buffer_init WC_THREADED_UDS_INPUT_LIMIT of
               (Inl _, input) \<Rightarrow>
                 Some (set_thread tid (Closed w) (p\<lparr>pl_sys := s_emit (Ev_close client_fd) (pl_sys p)\<rparr>))
             | (Inr _, input) \<Rightarrow>
                 (case wc_buffer_init WC_THREADED_UDS_OUTPUT_LIMIT of
                    (Inl _, output) \<Rightarrow>
                      Some (set_thread tid (Closed w)
                        (p\<lparr>pl_sys := s_emit (Ev_close client_fd) (snd (wc_buffer_destroy input (pl_sys p)))\<rparr>))
                  | (Inr _, output) \<Rightarrow> Some (set_thread tid (Running w client_fd input output) p)))
        | Running w client_fd input output \<Rightarrow>
            if wc_threaded_uds_is_stopping (we_lock env) (we_unlock env) (sv_stopping p)
            then Some (set_thread tid (Closed w) (p\<lparr>pl_sys := threaded_uds_worker_exit client_fd input output (pl_sys p)\<rparr>))
            else do {
              (go, i1, o1, s1) \<leftarrow> threaded_uds_worker_body strerror client_fd env input output (pl_sys p);
              if go then Some (set_thread tid (Running w client_fd i1 o1) (p\<lparr>pl_sys := s1\<rparr>))
              else Some (set_thread tid (Closed w) (p\<lparr>pl_sys := threaded_uds_worker_exit client_fd i1 o1 s1\<rparr>))
            }
        | Closed w \<Rightarrow>
            Some (set_thread tid Returned
              (p\<lparr>sv_workers := (sv_workers p)[w := wc_threaded_uds_mark_finished (we_lock env) (sv_workers p ! w)]\<rparr>))
        | Returned \<Rightarrow> Some p)"

fun threaded_uds_run_threads :: "(errno \<Rightarrow> byte list) \<Rightarrow> sched \<Rightarrow> pool \<Rightarrow> pool option" where
  "threaded_uds_run_threads strerror [] p = Some p"
| "threaded_uds_run_threads strerror ((tid, env) # sched) p = do {
     p1 \<leftarrow> threaded_uds_thread_step strerror tid env p;
     threaded_uds_run_threads strerror sched p1
   }"

section \<open>Operations of the main thread\<close>

definition wc_threaded_uds_request_stop :: "status \<Rightarrow> status \<Rightarrow> pool \<Rightarrow> status \<times> pool" where
  "wc_threaded_uds_request_stop lock_result unlock_result p =
     (if lock_result \<noteq> wc_ok then (lock_result, p)
      else (unlock_result, p\<lparr>sv_stopping := True\<rparr>))"

definition wc_threaded_uds_open_listener :: "byte list option \<Rightarrow> listener_env \<Rightarrow> unit sys \<Rightarrow> (errno + fd) \<times> unit sys" where
  "wc_threaded_uds_open_listener socket_path env s = (case socket_path of
       None \<Rightarrow> (Inl ENAMETOOLONG, s)
     | Some p \<Rightarrow>
         if p = [] \<or> length p \<ge> 108 then (Inl ENAMETOOLONG, s)
         else case le_socket env of
             Inl e \<Rightarrow> (Inl e, s)
           | Inr listener_fd \<Rightarrow>
               (case fst (wc_socket_set_nonblocking (le_flags env) (le_fcntl env)) of
                  Inl saved_errno \<Rightarrow>
                    (Inl saved_errno, s_emit (Ev_close listener_fd) (s_emit (Ev_open listener_fd) s))
                | Inr _ \<Rightarrow>
                    let s1 = s_emit (Ev_unlink p) (s_emit (Ev_open listener_fd) s) in
                    if le_unlink env \<noteq> wc_ok \<and> le_unlink env \<noteq> Inl ENOENT then
                      (Inl (projl (le_unlink env)), s_emit (Ev_close listener_fd) s1)
                    else case (if le_bind env \<noteq> wc_ok then le_bind env else le_listen env) of
                        Inl saved_errno \<Rightarrow>
                          (Inl saved_errno, s_emit (Ev_unlink p) (s_emit (Ev_close listener_fd) s1))
                      | Inr _ \<Rightarrow> (Inr listener_fd, s1)))"

definition wc_threaded_uds_workers_init :: "pool \<Rightarrow> pool" where
  "wc_threaded_uds_workers_init p =
     p\<lparr>sv_workers := map (\<lambda>w. w\<lparr>wk_client_fd := - 1, wk_in_use := False, wk_finished := False\<rparr>) (sv_workers p)\<rparr>"

fun threaded_uds_reap_loop :: "(errno \<Rightarrow> byte list) \<Rightarrow> (nat \<Rightarrow> reap_env) \<Rightarrow> nat list \<Rightarrow> pool \<Rightarrow> pool option" where
  "threaded_uds_reap_loop strerror env [] p = Some p"
| "threaded_uds_reap_loop strerror env (i # is) p = do {
     p1 \<leftarrow> threaded_uds_run_threads strerror (re_sched (env i)) p;
     if \<not> re_lock (env i) then Some p1
     else let worker = sv_workers p1 ! i; should_join = wk_in_use worker \<and> wk_finished worker in
       if \<not> re_unlock (env i) then Some p1
       else if should_join then
         (if re_join (env i) then do {
            _ \<leftarrow> pthread_join (wk_thread worker) p1;
            threaded_uds_reap_loop strerror env is (release_slot i p1)
          }
          else threaded_uds_reap_loop strerror env is p1)
       else threaded_uds_reap_loop strerror env is p1
   }"

definition wc_threaded_uds_reap_finished :: "(errno \<Rightarrow> byte list) \<Rightarrow> (nat \<Rightarrow> reap_env) \<Rightarrow> pool \<Rightarrow> pool option" where
  "wc_threaded_uds_reap_finished strerror env p = threaded_uds_reap_loop strerror env [0..<WC_THREADED_UDS_MAX_CLIENTS] p"

fun threaded_uds_free_slot :: "wc_threaded_uds_worker list \<Rightarrow> nat option" where
  "threaded_uds_free_slot [] = None"
| "threaded_uds_free_slot (w # ws) = (if wk_in_use w then map_option Suc (threaded_uds_free_slot ws) else Some 0)"

definition wc_threaded_uds_start_worker :: "start_env \<Rightarrow> fd \<Rightarrow> pool \<Rightarrow> status \<times> pool" where
  "wc_threaded_uds_start_worker env client_fd p = (case threaded_uds_free_slot (sv_workers p) of
       None \<Rightarrow> (Inl EMFILE, p)
     | Some i \<Rightarrow>
         let worker = (sv_workers p ! i)\<lparr>wk_client_fd := client_fd, wk_finished := False, wk_in_use := True\<rparr>;
             undone = p\<lparr>sv_workers := (sv_workers p)[i := worker\<lparr>wk_client_fd := - 1, wk_in_use := False\<rparr>]\<rparr> in
         if sg_sigset env \<noteq> wc_ok then (sg_sigset env, undone)
         else if sg_mask env \<noteq> wc_ok then (sg_mask env, undone)
         else if sg_create env \<noteq> wc_ok then (sg_create env, undone)
         else (wc_ok, p\<lparr>sv_workers := (sv_workers p)[i := worker\<lparr>wk_thread := length (pl_threads p)\<rparr>],
                        pl_threads := pl_threads p @ [Starting i]\<rparr>))"

fun wc_threaded_uds_accept_clients :: "(errno \<Rightarrow> byte list) \<Rightarrow> fd \<Rightarrow> accept_env list \<Rightarrow> pool \<Rightarrow> pool option" where
  "wc_threaded_uds_accept_clients strerror listener_fd [] p = Some p"
| "wc_threaded_uds_accept_clients strerror listener_fd (a # accepts) p = do {
     p0 \<leftarrow> threaded_uds_run_threads strerror (ae_sched a) p;
     case ae_accept a of
       Accept_error e \<Rightarrow>
         if e = EINTR then wc_threaded_uds_accept_clients strerror listener_fd accepts p0 else Some p0
     | Accept_fd pick flags fcntls \<Rightarrow>
         (let client_fd = pick (listener_fd # open_fds p0); p1 = pool_emit (Ev_open client_fd) p0 in
            case fst (wc_socket_set_nonblocking flags fcntls) of
              Inl _ \<Rightarrow> wc_threaded_uds_accept_clients strerror listener_fd accepts (pool_emit (Ev_close client_fd) p1)
            | Inr _ \<Rightarrow>
                (case wc_threaded_uds_start_worker (ae_start a) client_fd p1 of
                   (Inl _, p2) \<Rightarrow>
                     wc_threaded_uds_accept_clients strerror listener_fd accepts (pool_emit (Ev_close client_fd) p2)
                 | (Inr _, p2) \<Rightarrow> wc_threaded_uds_accept_clients strerror listener_fd accepts p2))
   }"

fun threaded_uds_join_loop :: "(errno \<Rightarrow> byte list) \<Rightarrow> (nat \<Rightarrow> join_env) \<Rightarrow> nat list \<Rightarrow> bool \<Rightarrow> pool \<Rightarrow> (bool \<times> pool) option" where
  "threaded_uds_join_loop strerror env [] ok p = Some (ok, p)"
| "threaded_uds_join_loop strerror env (i # is) ok p =
     (if wk_in_use (sv_workers p ! i) then
        (if je_join (env i) then do {
           p1 \<leftarrow> threaded_uds_run_threads strerror (je_sched (env i)) p;
           _ \<leftarrow> pthread_join (wk_thread (sv_workers p ! i)) p1;
           threaded_uds_join_loop strerror env is ok (release_slot i p1)
         }
         else threaded_uds_join_loop strerror env is False p)
      else threaded_uds_join_loop strerror env is ok p)"

definition wc_threaded_uds_join_all :: "(errno \<Rightarrow> byte list) \<Rightarrow> (nat \<Rightarrow> join_env) \<Rightarrow> pool \<Rightarrow> (bool \<times> pool) option" where
  "wc_threaded_uds_join_all strerror env p = threaded_uds_join_loop strerror env [0..<WC_THREADED_UDS_MAX_CLIENTS] True p"

section \<open>The run of the server\<close>

fun threaded_uds_main_loop :: "(errno \<Rightarrow> byte list) \<Rightarrow> fd \<Rightarrow> main_env list \<Rightarrow> pool \<Rightarrow> (status \<times> pool) option" where
  "threaded_uds_main_loop strerror listener_fd [] p = Some (wc_ok, p)"
| "threaded_uds_main_loop strerror listener_fd (m # ms) p = do {
     p1 \<leftarrow> wc_threaded_uds_reap_finished strerror (me_reap m) p;
     p2 \<leftarrow> threaded_uds_run_threads strerror (me_sched m) p1;
     case me_poll m of
       Inl e \<Rightarrow> if e = EINTR then threaded_uds_main_loop strerror listener_fd ms p2 else Some (Inl e, p2)
     | Inr revents \<Rightarrow> do {
         p3 \<leftarrow> (if revents AND 1 \<noteq> 0 then wc_threaded_uds_accept_clients strerror listener_fd (me_accepts m) p2 else Some p2);
         if revents AND (8 OR 16 OR 32) \<noteq> 0 then Some (Inl EIO, p3)
         else threaded_uds_main_loop strerror listener_fd ms p3
       }
   }"

definition wc_server_uds_threaded_run :: "(errno \<Rightarrow> byte list) \<Rightarrow> byte list option \<Rightarrow> bool \<Rightarrow> listener_env \<Rightarrow>
    main_env list \<Rightarrow> run_env \<Rightarrow> status \<Rightarrow> unit sys \<Rightarrow> (status \<times> pool) option" where
  "wc_server_uds_threaded_run strerror socket_path stop lenv ms env unlink_st s =
     (let zero = \<lparr>wk_thread = 0, wk_client_fd = 0, wk_in_use = False, wk_finished = False\<rparr>;
          server = \<lparr>sv_workers = replicate WC_THREADED_UDS_MAX_CLIENTS zero, sv_stopping = False, pl_threads = [], pl_sys = s\<rparr> in
      if \<not> stop then Some (Inl EINVAL, server)
      else if rn_mutex_init env \<noteq> wc_ok then Some (rn_mutex_init env, server)
      else let p0 = wc_threaded_uds_workers_init server in
        case wc_threaded_uds_open_listener socket_path lenv (pl_sys p0) of
          (Inl e, s1) \<Rightarrow> Some (Inl e, p0\<lparr>pl_sys := s1\<rparr>)
        | (Inr listener_fd, s1) \<Rightarrow> do {
            (result, p1) \<leftarrow> threaded_uds_main_loop strerror listener_fd ms (p0\<lparr>pl_sys := s1\<rparr>);
            let (mutex_result, p2) = wc_threaded_uds_request_stop (rn_lock env) (rn_unlock env) p1;
                result1 = keep_first result mutex_result;
                p3 = pool_emit (Ev_close listener_fd) p2;
                result2 = keep_first result1 (rn_close env);
                p4 = pool_emit (Ev_unlink (the socket_path)) p3;
                result3 = (if unlink_st = Inl ENOENT then result2 else keep_first result2 unlink_st) in do {
              (joined, p5) \<leftarrow> wc_threaded_uds_join_all strerror (rn_join env) p4;
              if \<not> joined then Some (keep_first result3 (Inl EIO), p5)
              else Some (keep_first result3 (rn_mutex_destroy env), p5)
            }
          })"

end
