(* ===== verification/WC_Pool.thy ===== *)
theory WC_Pool
  imports WC_Session WC_Threaded_Main
begin

text \<open>
  The invariant of the threaded servers and its preservation by the steps of the worker threads
  and by every operation of the main thread, whatever the interleaving. It relates the
  slots of the table to the threads, the open descriptors to the trace, the memory in use to the buffers of
  the running threads, and says that every session is right.
\<close>

section \<open>Definitions\<close>

fun thread_slot :: "thread \<Rightarrow> nat option" where
  "thread_slot (Starting w) = Some w"
| "thread_slot (Running w f i b) = Some w"
| "thread_slot (Closed w) = Some w"
| "thread_slot Returned = None"

fun thread_owned :: "thread \<Rightarrow> int" where
  "thread_owned (Running w f i b) = buf_owned i + buf_owned b"
| "thread_owned _ = 0"

text \<open>A thread that has not returned owns its slot, and a slot in use has a thread.\<close>

definition table_ok :: "pool \<Rightarrow> bool" where
  "table_ok p \<longleftrightarrow> length (sv_workers p) = 64 \<and>
     (\<forall>tid w. tid < length (pl_threads p) \<longrightarrow> thread_slot (pl_threads p ! tid) = Some w \<longrightarrow> w < 64 \<and>
        wk_in_use (sv_workers p ! w) \<and> wk_thread (sv_workers p ! w) = tid \<and> \<not> wk_finished (sv_workers p ! w)) \<and>
     (\<forall>w < 64. wk_in_use (sv_workers p ! w) \<longrightarrow> wk_thread (sv_workers p ! w) < length (pl_threads p) \<and>
        thread_slot (pl_threads p ! wk_thread (sv_workers p ! w)) \<in> {None, Some w})"

fun thread_ok :: "(errno \<Rightarrow> byte list) \<Rightarrow> wc_tcp_worker list \<Rightarrow> unit sys \<Rightarrow> thread \<Rightarrow> bool" where
  "thread_ok strerror ws s (Starting w) \<longleftrightarrow> worker_session strerror s (wk_client_fd (ws ! w)) [] []"
| "thread_ok strerror ws s (Running w f i b) \<longleftrightarrow> bufs_wf i b \<and> worker_session strerror s f (buf_bytes i) (buf_bytes b)"
| "thread_ok strerror ws s _ \<longleftrightarrow> True"

text \<open>
  The invariant. \<open>L\<close> are the descriptors of the main thread: the listener and connections accepted
  but not handed over; nothing was sent or received on them.
\<close>

definition pool_inv :: "(errno \<Rightarrow> byte list) \<Rightarrow> fd set \<Rightarrow> int \<Rightarrow> pool \<Rightarrow> bool" where
  "pool_inv strerror L m p \<longleftrightarrow> table_ok p \<and> distinct (open_fds p) \<and> L \<inter> set (open_fds p) = {} \<and>
     fd_run {} (s_trace (pl_sys p)) = Some (L \<union> set (open_fds p)) \<and>
     s_live (pl_sys p) = m + sum_list (map thread_owned (pl_threads p)) \<and>
     (\<forall>t \<in> set (pl_threads p). thread_ok strerror (sv_workers p) (pl_sys p) t) \<and>
     (\<forall>f \<in> L. worker_session strerror (pl_sys p) f [] []) \<and>
     (\<forall>f. history_ok strerror (pl_sys p) f) \<and>
     (\<forall>cmd. Ev_run cmd \<in> set (s_trace (pl_sys p)) \<longrightarrow> safe_command cmd)"

text \<open>What the main thread may rely on while workers run.\<close>

definition table_kept :: "pool \<Rightarrow> pool \<Rightarrow> bool" where
  "table_kept p p' \<longleftrightarrow> sv_stopping p' = sv_stopping p \<and> length (pl_threads p') = length (pl_threads p) \<and>
     map (\<lambda>w. (wk_thread w, wk_client_fd w, wk_in_use w)) (sv_workers p') =
     map (\<lambda>w. (wk_thread w, wk_client_fd w, wk_in_use w)) (sv_workers p) \<and>
     (\<forall>tid < length (pl_threads p). pl_threads p ! tid = Returned \<longrightarrow> pl_threads p' ! tid = Returned)"

lemma table_kept_refl [simp]: "table_kept p p"
  by (simp add: table_kept_def)

lemma table_kept_trans: "table_kept p q \<Longrightarrow> table_kept q r \<Longrightarrow> table_kept p r"
  by (auto simp: table_kept_def)

lemma table_kept_slot:
  assumes "table_kept p p'" "i < length (sv_workers p)"
  shows "wk_thread (sv_workers p' ! i) = wk_thread (sv_workers p ! i)"
    and "wk_client_fd (sv_workers p' ! i) = wk_client_fd (sv_workers p ! i)"
    and "wk_in_use (sv_workers p' ! i) = wk_in_use (sv_workers p ! i)"
    and "length (sv_workers p') = length (sv_workers p)"
proof -
  have l: "length (sv_workers p') = length (sv_workers p)" using assms(1) by (auto simp: table_kept_def dest: map_eq_imp_length_eq)
  have "map (\<lambda>w. (wk_thread w, wk_client_fd w, wk_in_use w)) (sv_workers p') ! i =
      map (\<lambda>w. (wk_thread w, wk_client_fd w, wk_in_use w)) (sv_workers p) ! i"
    using assms(1) by (simp add: table_kept_def)
  with assms(2) l show "wk_thread (sv_workers p' ! i) = wk_thread (sv_workers p ! i)"
    "wk_client_fd (sv_workers p' ! i) = wk_client_fd (sv_workers p ! i)"
    "wk_in_use (sv_workers p' ! i) = wk_in_use (sv_workers p ! i)" "length (sv_workers p') = length (sv_workers p)" by simp_all
qed

section \<open>Events and threads\<close>

lemma ws_keep:
  assumes "effect s s' evs" "Ev_open g \<notin> set evs" "sent_to g evs = []" "received_from g evs = []"
  shows "worker_session strerror s' g = worker_session strerror s g"
  using session_append [OF assms(2), of "s_trace s"] assms(3,4)
  by (simp add: worker_session_def fun_eq_iff effect_trace [OF assms(1)] answered_ok_effect [OF assms(1)])

lemma open_fds_split:
  assumes "tid < length ts"
  obtains A B where "concat (map g ts) = A @ g (ts ! tid) @ B" "\<And>t. concat (map g (ts[tid := t])) = A @ g t @ B"
    "\<And>j. j < length ts \<Longrightarrow> j \<noteq> tid \<Longrightarrow> set (g (ts ! j)) \<subseteq> set (A @ B)"
proof
  let ?A = "concat (map g (take tid ts))" and ?B = "concat (map g (drop (Suc tid) ts))"
  show "concat (map g ts) = ?A @ g (ts ! tid) @ ?B"
    by (subst id_take_nth_drop [OF assms]) simp
  show "concat (map g (ts[tid := t])) = ?A @ g t @ ?B" for t
    using assms by (simp add: upd_conv_take_nth_drop)
  fix j assume j: "j < length ts" "j \<noteq> tid"
  show "set (g (ts ! j)) \<subseteq> set (?A @ ?B)"
  proof (cases "j < tid")
    case True
    then have "ts ! j \<in> set (take tid ts)" using assms by (auto simp: in_set_conv_nth intro!: exI [of _ j])
    then show ?thesis by auto
  next
    case False
    then have "ts ! j \<in> set (drop (Suc tid) ts)" using j by (auto simp: in_set_conv_nth intro!: exI [of _ "j - Suc tid"])
    then show ?thesis by auto
  qed
qed

lemma sum_list_update_owned:
  "tid < length ts \<Longrightarrow> sum_list (map thread_owned (ts[tid := t])) =
     sum_list (map thread_owned ts) + thread_owned t - thread_owned (ts ! tid)"
  by (induction ts arbitrary: tid) (auto split: nat.split)

lemma thread_ok_keep:
  assumes "thread_ok strerror ws s t" "\<And>g. g \<in> set (thread_fds ws t) \<Longrightarrow> worker_session strerror s' g = worker_session strerror s g"
  shows "thread_ok strerror ws s' t"
  using assms by (cases t) auto

lemma set_thread_simps [simp]:
  "sv_workers (set_thread tid t p) = sv_workers p" "sv_stopping (set_thread tid t p) = sv_stopping p"
  "pl_sys (set_thread tid t p) = pl_sys p" "pl_threads (set_thread tid t p) = (pl_threads p)[tid := t]"
  by (simp_all add: set_thread_def)

lemma table_ok_same_slots:
  assumes "table_ok p" "sv_workers p' = sv_workers p" "map thread_slot (pl_threads p') = map thread_slot (pl_threads p)"
  shows "table_ok p'"
proof -
  have l: "length (pl_threads p') = length (pl_threads p)" using assms(3) by (rule map_eq_imp_length_eq)
  have "thread_slot (pl_threads p' ! j) = thread_slot (pl_threads p ! j)" if "j < length (pl_threads p)" for j
    using arg_cong [OF assms(3), of "\<lambda>xs. xs ! j"] that l by simp
  with assms(1,2) l show ?thesis by (auto simp: table_ok_def)
qed

lemma inv_thread_update:
  assumes inv: "pool_inv strerror L m p" and tid: "tid < length (pl_threads p)" "pl_threads p ! tid = t"
    and t: "thread_slot t = Some w" "thread_fds (sv_workers p) t = [f]"
    and t': "thread_slot t' = Some w" "thread_fds (sv_workers p) t' = (if closed then [] else [f])"
    and eff: "effect (pl_sys p) s' (evs @ (if closed then [Ev_close f] else []))" "evs_of f evs"
    and live: "s_live s' = s_live (pl_sys p) + thread_owned t' - thread_owned t"
    and ok: "thread_ok strerror (sv_workers p) s' t'" and hist: "history_ok strerror s' f"
  shows "pool_inv strerror L m (set_thread tid t' (p\<lparr>pl_sys := s'\<rparr>))" (is "pool_inv _ _ _ ?p")
proof -
  let ?ws = "sv_workers p" and ?ts = "pl_threads p" and ?s = "pl_sys p"
  let ?evs = "evs @ (if closed then [Ev_close f] else [])"
  obtain A B where AB: "concat (map (thread_fds ?ws) ?ts) = A @ thread_fds ?ws (?ts ! tid) @ B"
    "\<And>t. concat (map (thread_fds ?ws) (?ts[tid := t])) = A @ thread_fds ?ws t @ B"
    "\<And>j. j < length ?ts \<Longrightarrow> j \<noteq> tid \<Longrightarrow> set (thread_fds ?ws (?ts ! j)) \<subseteq> set (A @ B)"
    using open_fds_split [OF tid(1), of "thread_fds ?ws"] by metis
  have I: "table_ok p" "distinct (A @ [f] @ B)" "L \<inter> set (A @ [f] @ B) = {}"
    "fd_run {} (s_trace ?s) = Some (L \<union> set (A @ [f] @ B))" "s_live ?s = m + sum_list (map thread_owned ?ts)"
    "\<And>t. t \<in> set ?ts \<Longrightarrow> thread_ok strerror ?ws ?s t" "\<And>g. g \<in> L \<Longrightarrow> worker_session strerror ?s g [] []"
    "\<And>g. history_ok strerror ?s g" "\<And>cmd. Ev_run cmd \<in> set (s_trace ?s) \<Longrightarrow> safe_command cmd"
    using inv tid t AB(1) unfolding pool_inv_def open_fds_def by auto
  have op: "open_fds ?p = A @ (if closed then [] else [f]) @ B" using AB(2) t'(2) by (simp add: open_fds_def)
  have other: "Ev_open g \<notin> set ?evs \<and> sent_to g ?evs = [] \<and> received_from g ?evs = []" if "g \<noteq> f" for g
    using evs_ofD(1-3) [OF eff(2), of g] that by (auto simp: received_from_def)
  have keep: "worker_session strerror s' g = worker_session strerror ?s g" if "g \<in> L \<union> set (A @ B)" for g
  proof -
    have "g \<noteq> f" using that I(2,3) by auto
    from other [OF this] show ?thesis by (intro ws_keep [OF eff(1)]) blast+
  qed
  have "thread_ok strerror ?ws s' x" if x: "x \<in> set (?ts[tid := t'])" for x
  proof -
    from x [unfolded in_set_conv_nth] obtain j where j: "j < length ?ts" "x = ?ts[tid := t'] ! j" by auto
    show ?thesis
    proof (cases "j = tid")
      case True
      then show ?thesis using ok j tid(1) by simp
    next
      case False
      have x: "x = ?ts ! j" using False j by simp
      have "thread_ok strerror ?ws ?s x" using I(6) j(1) x by simp
      then show ?thesis by (rule thread_ok_keep) (use keep AB(3) [OF j(1) False] x in blast)
    qed
  qed
  moreover have "history_ok strerror s' g" for g
    using hist history_keep [OF I(8) eff(1), of g] other [of g] by (cases "g = f") auto
  moreover have "fd_run {} (s_trace s') = Some (L \<union> set (open_fds ?p))"
  proof -
    have "fd_run (L \<union> set (A @ [f] @ B)) evs = Some (L \<union> set (A @ [f] @ B))" by (rule evs_ofD(4) [OF eff(2)]) simp
    then show ?thesis
      unfolding op effect_trace [OF eff(1)] fd_run_append I(4) using I(2,3) by (auto simp: fd_run_append)
  qed
  moreover have "safe_command cmd" if "Ev_run cmd \<in> set (s_trace s')" for cmd
    using that I(9) evs_ofD(5) [OF eff(2)] by (auto simp: effect_trace [OF eff(1)] split: if_splits)
  moreover have "table_ok ?p"
    by (rule table_ok_same_slots [OF I(1)])
       (use tid t(1) t'(1) in \<open>simp_all add: map_update list_update_same_conv\<close>)
  moreover have "s_live s' = m + sum_list (map thread_owned (?ts[tid := t']))"
    using live I(5) sum_list_update_owned [OF tid(1), of t'] tid(2) by simp
  ultimately show ?thesis
    using I(2,3,7) keep op unfolding pool_inv_def by auto
qed

text \<open>Changes of the table that concern no thread but those that have returned.\<close>

lemma inv_table_update:
  assumes inv: "pool_inv strerror L m p" and table: "table_ok (p\<lparr>sv_workers := ws, pl_threads := ts\<rparr>)"
    and fds: "map (thread_fds ws) ts = map (thread_fds (sv_workers p)) (pl_threads p)"
    and owned: "map thread_owned ts = map thread_owned (pl_threads p)"
    and ok: "\<And>s t. t \<in> set ts \<Longrightarrow> \<forall>t \<in> set (pl_threads p). thread_ok strerror (sv_workers p) s t \<Longrightarrow> thread_ok strerror ws s t"
  shows "pool_inv strerror L m (p\<lparr>sv_workers := ws, pl_threads := ts\<rparr>)"
proof -
  have "open_fds (p\<lparr>sv_workers := ws, pl_threads := ts\<rparr>) = open_fds p" by (simp add: open_fds_def fds)
  with inv table ok [of _ "pl_sys p"] owned show ?thesis unfolding pool_inv_def by auto
qed

lemma inv_mark_finished:
  assumes inv: "pool_inv strerror L m p" and tid: "tid < length (pl_threads p)" "pl_threads p ! tid = Closed w"
  shows "pool_inv strerror L m (set_thread tid Returned
     (p\<lparr>sv_workers := (sv_workers p)[w := wc_tcp_mark_finished lock (sv_workers p ! w)]\<rparr>))"
proof -
  let ?ws = "(sv_workers p)[w := wc_tcp_mark_finished lock (sv_workers p ! w)]" and ?ts = "(pl_threads p)[tid := Returned]"
  have table: "table_ok p" using inv by (simp add: pool_inv_def)
  have W: "w < 64" "length (sv_workers p) = 64" "wk_in_use (sv_workers p ! w)" "wk_thread (sv_workers p ! w) = tid"
    using table tid unfolding table_ok_def by auto
  have mark: "wk_thread (?ws ! v) = wk_thread (sv_workers p ! v)" "wk_in_use (?ws ! v) = wk_in_use (sv_workers p ! v)"
    "wk_client_fd (?ws ! v) = wk_client_fd (sv_workers p ! v)"
    "v \<noteq> w \<longrightarrow> wk_finished (?ws ! v) = wk_finished (sv_workers p ! v)" for v
    using W by (cases "v = w"; simp add: wc_tcp_mark_finished_def)+
  have other: "v \<noteq> w" if "j < length (pl_threads p)" "j \<noteq> tid" "thread_slot (pl_threads p ! j) = Some v" for j v
    using table that W(4) unfolding table_ok_def by auto
  have "table_ok (p\<lparr>sv_workers := ?ws, pl_threads := ?ts\<rparr>)"
    unfolding table_ok_def
  proof (intro conjI allI impI)
    fix j v assume j: "j < length (pl_threads (p\<lparr>sv_workers := ?ws, pl_threads := ?ts\<rparr>))"
      "thread_slot (pl_threads (p\<lparr>sv_workers := ?ws, pl_threads := ?ts\<rparr>) ! j) = Some v"
    then have "j \<noteq> tid" using tid(1) by auto
    with j have j': "j < length (pl_threads p)" "j \<noteq> tid" "thread_slot (pl_threads p ! j) = Some v" by simp_all
    from other [OF this] mark [of v] table j'
    show "v < 64" "wk_in_use (sv_workers (p\<lparr>sv_workers := ?ws, pl_threads := ?ts\<rparr>) ! v)"
      "wk_thread (sv_workers (p\<lparr>sv_workers := ?ws, pl_threads := ?ts\<rparr>) ! v) = j"
      "\<not> wk_finished (sv_workers (p\<lparr>sv_workers := ?ws, pl_threads := ?ts\<rparr>) ! v)"
      unfolding table_ok_def by simp_all
  next
    fix v assume v: "v < 64" "wk_in_use (sv_workers (p\<lparr>sv_workers := ?ws, pl_threads := ?ts\<rparr>) ! v)"
    with mark [of v] table
    show "wk_thread (sv_workers (p\<lparr>sv_workers := ?ws, pl_threads := ?ts\<rparr>) ! v) <
        length (pl_threads (p\<lparr>sv_workers := ?ws, pl_threads := ?ts\<rparr>))"
      "thread_slot (pl_threads (p\<lparr>sv_workers := ?ws, pl_threads := ?ts\<rparr>) !
        wk_thread (sv_workers (p\<lparr>sv_workers := ?ws, pl_threads := ?ts\<rparr>) ! v)) \<in> {None, Some v}"
      using tid(1) unfolding table_ok_def by (auto simp: nth_list_update)
  qed (use W(2) in simp)
  moreover have "thread_fds ?ws x = thread_fds (sv_workers p) x" for x using mark(3) by (cases x) simp_all
  then have "thread_fds ?ws = thread_fds (sv_workers p)" by (rule ext)
  then have "map (thread_fds ?ws) ?ts = map (thread_fds (sv_workers p)) (pl_threads p)"
    using tid by (simp add: map_update list_update_same_conv)
  moreover have "map thread_owned ?ts = map thread_owned (pl_threads p)"
    using tid by (simp add: map_update list_update_same_conv)
  moreover have "thread_ok strerror ?ws s x" if "x \<in> set ?ts" "\<forall>t \<in> set (pl_threads p). thread_ok strerror (sv_workers p) s t" for s x
  proof -
    have "x = Returned \<or> x \<in> set (pl_threads p)" using that(1) set_update_subset_insert [of "pl_threads p" tid Returned] by auto
    then show ?thesis using that(2) mark(3) by (cases x) auto
  qed
  ultimately have "pool_inv strerror L m (p\<lparr>sv_workers := ?ws, pl_threads := ?ts\<rparr>)"
    by (intro inv_table_update [OF inv]) auto
  then show ?thesis by (simp add: set_thread_def)
qed

section \<open>Steps of the workers\<close>

lemma inv_running_step:
  assumes inv: "pool_inv strerror L m p" and tid: "tid < length (pl_threads p)" "pl_threads p ! tid = Running w f i b"
    and step: "bufs_wf i1 b1" "effect (pl_sys p) s1 evs" "evs_of f evs" "history_ok strerror s1 f"
      "s_live s1 = s_live (pl_sys p) + buf_owned i1 + buf_owned b1 - buf_owned i - buf_owned b"
  shows "worker_session strerror s1 f (buf_bytes i1) (buf_bytes b1) \<Longrightarrow>
      pool_inv strerror L m (set_thread tid (Running w f i1 b1) (p\<lparr>pl_sys := s1\<rparr>))"
    and "pool_inv strerror L m (set_thread tid (Closed w) (p\<lparr>pl_sys := tcp_worker_exit f i1 b1 s1\<rparr>))"
proof -
  assume ws: "worker_session strerror s1 f (buf_bytes i1) (buf_bytes b1)"
  show "pool_inv strerror L m (set_thread tid (Running w f i1 b1) (p\<lparr>pl_sys := s1\<rparr>))"
    by (rule inv_thread_update [OF inv tid, where closed = False and evs = evs and w = w and f = f])
       (use step ws in simp_all)
next
  note X = tcp_exit_spec [where s = s1 and f = f and i = i1 and b = b1]
  have eff: "effect (pl_sys p) (tcp_worker_exit f i1 b1 s1) (evs @ [Ev_close f])" by (rule effect_trans [OF step(2) X(1)])
  have "history_ok strerror (tcp_worker_exit f i1 b1 s1) f" by (rule history_keep [OF step(4) X(1)]) simp_all
  then show "pool_inv strerror L m (set_thread tid (Closed w) (p\<lparr>pl_sys := tcp_worker_exit f i1 b1 s1\<rparr>))"
    by (intro inv_thread_update [OF inv tid, where closed = True and evs = evs and w = w and f = f])
       (use step(3,5) X(2) eff in simp_all)
qed

lemma inv_thread_step:
  assumes inv: "pool_inv strerror L m p"
  shows "\<exists>p'. tcp_thread_step strerror tid env p = Some p' \<and> pool_inv strerror L m p' \<and> table_kept p p'"
proof (cases "tid < length (pl_threads p)")
  case False
  then show ?thesis using inv by (simp add: tcp_thread_step_def)
next
  case tid: True
  have ok: "thread_ok strerror (sv_workers p) (pl_sys p) (pl_threads p ! tid)"
    using inv tid unfolding pool_inv_def by simp
  have kept: "table_kept p (set_thread tid t (p\<lparr>pl_sys := s'\<rparr>))" if "pl_threads p ! tid \<noteq> Returned" for t s'
    using that tid by (auto simp: table_kept_def nth_list_update)
  show ?thesis
  proof (cases "pl_threads p ! tid")
    case (Starting w)
    let ?f = "wk_client_fd (sv_workers p ! w)"
    let ?t = "Running w ?f (snd (wc_buffer_init 65535)) (snd (wc_buffer_init 65537))"
    have ws: "worker_session strerror (pl_sys p) ?f [] []" using ok Starting by simp
    have "pool_inv strerror L m (set_thread tid ?t (p\<lparr>pl_sys := pl_sys p\<rparr>))"
      by (rule inv_thread_update [OF inv tid Starting, where closed = False and evs = "[]" and w = w and f = ?f])
         (use ws ws_history [OF ws] in \<open>simp_all add: bufs_wf_def\<close>)
    moreover have "tcp_thread_step strerror tid env p = Some (set_thread tid ?t p)"
      using tid Starting by (simp add: tcp_thread_step_def wc_buffer_init_def)
    ultimately show ?thesis using kept [of ?t "pl_sys p"] Starting by simp
  next
    case (Running w f i b)
    have wf: "bufs_wf i b" and ws: "worker_session strerror (pl_sys p) f (buf_bytes i) (buf_bytes b)"
      using ok Running by simp_all
    note unf = tcp_thread_step_def [of strerror tid env p, unfolded Running thread.case]
    show ?thesis
    proof (cases "wc_tcp_is_stopping (we_lock env) (we_unlock env) (sv_stopping p)")
      case True
      have "pool_inv strerror L m (set_thread tid (Closed w) (p\<lparr>pl_sys := tcp_worker_exit f i b (pl_sys p)\<rparr>))"
        by (rule inv_running_step(2) [OF inv tid Running wf, where evs = "[]"]) (use ws_history [OF ws] in simp_all)
      then show ?thesis using tid True kept Running by (simp add: unf)
    next
      case False
      obtain go i1 b1 s1 where body: "tcp_worker_body strerror f env i b (pl_sys p) = Some (go, i1, b1, s1)"
        and res: "body_result strerror f i b (pl_sys p) (go, i1, b1, s1)"
        using tcp.body_keeps [OF wf ws, of env] unfolding tcp_body_eq by (metis prod_cases4)
      obtain evs where R: "bufs_wf i1 b1" "effect (pl_sys p) s1 evs" "evs_of f evs" "history_ok strerror s1 f"
        "s_live s1 = s_live (pl_sys p) + buf_owned i1 + buf_owned b1 - buf_owned i - buf_owned b"
        "go \<longrightarrow> worker_session strerror s1 f (buf_bytes i1) (buf_bytes b1)"
        using res by (auto simp: body_result_def)
      note S = inv_running_step [OF inv tid Running R(1-5)]
      show ?thesis using tid False body S R(6) kept Running by (cases go) (simp_all add: unf)
    qed
  next
    case (Closed w)
    have W: "w < length (sv_workers p)" using inv tid Closed unfolding pool_inv_def table_ok_def by simp
    let ?p = "set_thread tid Returned
      (p\<lparr>sv_workers := (sv_workers p)[w := wc_tcp_mark_finished (we_lock env) (sv_workers p ! w)]\<rparr>)"
    have "table_kept p ?p"
      using W tid by (auto simp: table_kept_def nth_list_update map_update list_update_same_conv wc_tcp_mark_finished_def)
    with inv_mark_finished [OF inv tid Closed, of "we_lock env"] tid Closed show ?thesis
      by (simp add: tcp_thread_step_def)
  next
    case Returned
    then show ?thesis using inv by (simp add: tcp_thread_step_def)
  qed
qed

lemma inv_run_threads:
  assumes "pool_inv strerror L m p"
  shows "\<exists>p'. run_threads strerror sched p = Some p' \<and> pool_inv strerror L m p' \<and> table_kept p p'"
  using assms
proof (induction sched arbitrary: p)
  case Nil
  then show ?case by simp
next
  case (Cons x sched)
  obtain tid env where x: "x = (tid, env)" by (cases x)
  obtain p1 where s: "tcp_thread_step strerror tid env p = Some p1" "pool_inv strerror L m p1" "table_kept p p1"
    using inv_thread_step [OF Cons.prems] by blast
  from Cons.IH [OF s(2)] s(1,3) show ?case by (auto simp: x intro: table_kept_trans)
qed

section \<open>Operations of the main thread\<close>

lemma pool_emit_simps [simp]:
  "sv_workers (pool_emit e p) = sv_workers p" "sv_stopping (pool_emit e p) = sv_stopping p"
  "pl_threads (pool_emit e p) = pl_threads p" "pl_sys (pool_emit e p) = s_emit e (pl_sys p)"
  "open_fds (pool_emit e p) = open_fds p"
  by (simp_all add: pool_emit_def open_fds_def)

lemma inv_emit_aux:
  assumes inv: "pool_inv strerror L m p" and e: "\<And>g bs cmd. e \<noteq> Ev_send g bs \<and> e \<noteq> Ev_recv g bs \<and> e \<noteq> Ev_run cmd"
    and other: "\<And>g. g \<in> set (open_fds p) \<Longrightarrow> e \<noteq> Ev_open g"
    and run: "fd_step (L \<union> set (open_fds p)) e = Some (L' \<union> set (open_fds p))" "L' \<inter> set (open_fds p) = {}"
    and new: "\<And>g. g \<in> L' \<Longrightarrow> worker_session strerror (s_emit e (pl_sys p)) g [] []"
  shows "pool_inv strerror L' m (pool_emit e p)"
proof -
  let ?s = "s_emit e (pl_sys p)"
  have quiet: "sent_to g [e] = []" "received_from g [e] = []" for g
    using e by (cases e; auto simp: received_from_def)+
  have keep: "worker_session strerror ?s g = worker_session strerror (pl_sys p) g" if "e \<noteq> Ev_open g" for g
    by (rule ws_keep [OF effect_emit]) (use that quiet in auto)
  have "thread_ok strerror (sv_workers p) ?s t" if "t \<in> set (pl_threads p)" for t
  proof (rule thread_ok_keep [where s = "pl_sys p"])
    show "thread_ok strerror (sv_workers p) (pl_sys p) t" using inv that unfolding pool_inv_def by simp
    fix g assume "g \<in> set (thread_fds (sv_workers p) t)"
    then have "g \<in> set (open_fds p)" using that by (auto simp: open_fds_def)
    then show "worker_session strerror ?s g = worker_session strerror (pl_sys p) g" using keep other by blast
  qed
  moreover have "history_ok strerror ?s g" for g
  proof (cases "\<exists>f. e = Ev_open f")
    case True
    then show ?thesis using history_open [where s = "pl_sys p"] inv by (auto simp: pool_inv_def)
  next
    case False
    have "history_ok strerror (pl_sys p) g" using inv by (auto simp: pool_inv_def)
    then show ?thesis by (rule history_keep [OF _ effect_emit]) (use False quiet in auto)
  qed
  moreover have "safe_command cmd" if "Ev_run cmd \<in> set (s_trace ?s)" for cmd
    using that inv e by (auto simp: pool_inv_def)
  moreover have "table_ok (pool_emit e p)"
    by (rule table_ok_same_slots [of p]) (use inv in \<open>simp_all add: pool_inv_def\<close>)
  ultimately show ?thesis
    using inv run new unfolding pool_inv_def by (auto simp: fd_run_append)
qed

lemma inv_open:
  assumes "pool_inv strerror L m p" "f \<notin> L \<union> set (open_fds p)"
  shows "pool_inv strerror (insert f L) m (pool_emit (Ev_open f) p)"
proof (rule inv_emit_aux [OF assms(1)])
  fix g assume "g \<in> insert f L"
  then show "worker_session strerror (s_emit (Ev_open f) (pl_sys p)) g [] []"
  proof
    assume "g = f"
    then show ?thesis using ws_fresh by simp
  next
    assume g: "g \<in> L"
    have "worker_session strerror (s_emit (Ev_open f) (pl_sys p)) g = worker_session strerror (pl_sys p) g"
      by (rule ws_keep [OF effect_emit]) (use g assms(2) in \<open>auto simp: received_from_def\<close>)
    with g assms(1) show ?thesis by (simp add: pool_inv_def)
  qed
qed (use assms in \<open>auto simp: pool_inv_def\<close>)

lemma inv_close:
  assumes "pool_inv strerror L m p" "f \<in> L"
  shows "pool_inv strerror (L - {f}) m (pool_emit (Ev_close f) p)"
proof (rule inv_emit_aux [OF assms(1)])
  fix g assume g: "g \<in> L - {f}"
  have "worker_session strerror (s_emit (Ev_close f) (pl_sys p)) g = worker_session strerror (pl_sys p) g"
    by (rule ws_keep [OF effect_emit]) (auto simp: received_from_def)
  with g assms(1) show "worker_session strerror (s_emit (Ev_close f) (pl_sys p)) g [] []" by (simp add: pool_inv_def)
qed (use assms in \<open>auto simp: pool_inv_def\<close>)

lemma inv_unlink:
  assumes "pool_inv strerror L m p"
  shows "pool_inv strerror L m (pool_emit (Ev_unlink pth) p)"
proof (rule inv_emit_aux [OF assms])
  fix g assume g: "g \<in> L"
  have "worker_session strerror (s_emit (Ev_unlink pth) (pl_sys p)) g = worker_session strerror (pl_sys p) g"
    by (rule ws_keep [OF effect_emit]) (auto simp: received_from_def)
  with g assms show "worker_session strerror (s_emit (Ev_unlink pth) (pl_sys p)) g [] []" by (simp add: pool_inv_def)
qed (use assms in \<open>auto simp: pool_inv_def\<close>)

text \<open>A slot whose thread has returned may be released, and a free one given to a new thread.\<close>

lemma inv_slot_update:
  assumes inv: "pool_inv strerror L m p" and i: "i < 64"
    and free: "\<And>tid. tid < length (pl_threads p) \<Longrightarrow> thread_slot (pl_threads p ! tid) \<noteq> Some i"
    and w: "\<not> wk_in_use w"
  shows "pool_inv strerror L m (p\<lparr>sv_workers := (sv_workers p)[i := w]\<rparr>)"
proof -
  have len: "length (sv_workers p) = 64" using inv by (simp add: pool_inv_def table_ok_def)
  have no: "thread_slot t \<noteq> Some i" if "t \<in> set (pl_threads p)" for t using that free by (auto simp: in_set_conv_nth)
  have "table_ok (p\<lparr>sv_workers := (sv_workers p)[i := w], pl_threads := pl_threads p\<rparr>)"
    using inv free w i len unfolding pool_inv_def table_ok_def by (auto simp: nth_list_update)
  moreover have "map (thread_fds ((sv_workers p)[i := w])) (pl_threads p) = map (thread_fds (sv_workers p)) (pl_threads p)"
  proof (rule map_cong [OF refl])
    fix t assume "t \<in> set (pl_threads p)"
    from no [OF this] show "thread_fds ((sv_workers p)[i := w]) t = thread_fds (sv_workers p) t" by (cases t) auto
  qed
  moreover have "thread_ok strerror ((sv_workers p)[i := w]) s t"
    if "t \<in> set (pl_threads p)" "\<forall>t \<in> set (pl_threads p). thread_ok strerror (sv_workers p) s t" for s t
    using no [OF that(1)] that by (cases t) auto
  ultimately have "pool_inv strerror L m (p\<lparr>sv_workers := (sv_workers p)[i := w], pl_threads := pl_threads p\<rparr>)"
    by (intro inv_table_update [OF inv]) auto
  then show ?thesis by simp
qed

lemma inv_release:
  assumes inv: "pool_inv strerror L m p" and i: "i < 64" "wk_in_use (sv_workers p ! i)"
    and ret: "pl_threads p ! wk_thread (sv_workers p ! i) = Returned"
  shows "pool_inv strerror L m (release_slot i p)"
  unfolding release_slot_def
proof (rule inv_slot_update [OF inv i(1)])
  fix tid assume "tid < length (pl_threads p)"
  then show "thread_slot (pl_threads p ! tid) \<noteq> Some i"
    using inv ret unfolding pool_inv_def table_ok_def by auto
qed simp

lemma free_slot_spec:
  "tcp_free_slot ws = Some i \<Longrightarrow> i < length ws \<and> \<not> wk_in_use (ws ! i)"
  "tcp_free_slot ws = None \<longleftrightarrow> (\<forall>w \<in> set ws. wk_in_use w)"
  by (induction ws arbitrary: i) (auto split: if_splits)

lemma inv_start:
  assumes inv: "pool_inv strerror L m p" and f: "f \<in> L"
  shows "case wc_tcp_start_worker env f p of
      (Inr _, p') \<Rightarrow> pool_inv strerror (L - {f}) m p' | (Inl _, p') \<Rightarrow> pool_inv strerror L m p'"
proof (cases "tcp_free_slot (sv_workers p)")
  case None
  then show ?thesis using inv by (simp add: wc_tcp_start_worker_def)
next
  case (Some i)
  have len: "length (sv_workers p) = 64" using inv by (simp add: pool_inv_def table_ok_def)
  have i: "i < 64" "\<not> wk_in_use (sv_workers p ! i)" using free_slot_spec(1) [OF Some] len by auto
  have free: "thread_slot (pl_threads p ! tid) \<noteq> Some i" if "tid < length (pl_threads p)" for tid
    using inv that i unfolding pool_inv_def table_ok_def by auto
  let ?w = "(sv_workers p ! i)\<lparr>wk_client_fd := f, wk_finished := False, wk_in_use := True\<rparr>"
  have undone: "pool_inv strerror L m (p\<lparr>sv_workers := (sv_workers p)[i := ?w\<lparr>wk_client_fd := - 1, wk_in_use := False\<rparr>]\<rparr>)"
    by (rule inv_slot_update [OF inv i(1) free]) simp_all
  let ?ws = "(sv_workers p)[i := ?w\<lparr>wk_thread := length (pl_threads p)\<rparr>]" and ?ts = "pl_threads p @ [Starting i]"
  let ?p = "p\<lparr>sv_workers := ?ws, pl_threads := ?ts\<rparr>"
  have no: "thread_slot t \<noteq> Some i" if "t \<in> set (pl_threads p)" for t using that free by (auto simp: in_set_conv_nth)
  have fds: "map (thread_fds ?ws) (pl_threads p) = map (thread_fds (sv_workers p)) (pl_threads p)"
  proof (rule map_cong [OF refl])
    fix t assume "t \<in> set (pl_threads p)"
    from no [OF this] show "thread_fds ?ws t = thread_fds (sv_workers p) t" by (cases t) auto
  qed
  have op: "open_fds ?p = open_fds p @ [f]" using i len by (simp add: open_fds_def fds del: map_eq_conv)
  have oks: "thread_ok strerror ?ws (pl_sys p) t" if "t \<in> set ?ts" for t
  proof (cases "t = Starting i")
    case True
    then show ?thesis using inv f i len by (auto simp: pool_inv_def)
  next
    case False
    then have "t \<in> set (pl_threads p)" using that by auto
    with no [OF this] inv show ?thesis unfolding pool_inv_def by (cases t) auto
  qed
  have "table_ok ?p"
    using inv i len free unfolding pool_inv_def table_ok_def
    by (auto simp: nth_append nth_list_update less_Suc_eq split: if_splits)
  moreover have "insert f (L - {f}) = L" using f by blast
  ultimately have "pool_inv strerror (L - {f}) m ?p"
    using inv f op oks unfolding pool_inv_def by auto
  with undone Some show ?thesis by (auto simp: wc_tcp_start_worker_def Let_def split: sum.splits)
qed

text \<open>The flag is unchanged and at most \<open>n\<close> threads are new.\<close>

definition grown :: "nat \<Rightarrow> pool \<Rightarrow> pool \<Rightarrow> bool" where
  "grown n p p' \<longleftrightarrow> sv_stopping p' = sv_stopping p \<and> length (pl_threads p') \<le> length (pl_threads p) + n"

lemma grown_simps [simp]:
  "grown n p p" "grown n p (pool_emit e p') = grown n p p'" "grown n (pool_emit e p) p' = grown n p p'"
  "grown n p (release_slot i p') = grown n p p'"
  by (simp_all add: grown_def release_slot_def)

lemma grown_trans: "grown n p q \<Longrightarrow> grown k q r \<Longrightarrow> n + k \<le> l \<Longrightarrow> grown l p r"
  by (auto simp: grown_def)

lemma table_kept_grown: "table_kept p p' \<Longrightarrow> grown 0 p p'"
  by (simp add: table_kept_def grown_def)

lemma finished_returned:
  assumes "table_ok p" "i < 64" "wk_in_use (sv_workers p ! i)" "wk_finished (sv_workers p ! i)"
  shows "pthread_join (wk_thread (sv_workers p ! i)) p = Some ()"
    "pl_threads p ! wk_thread (sv_workers p ! i) = Returned"
proof -
  let ?tid = "wk_thread (sv_workers p ! i)"
  have t: "?tid < length (pl_threads p)" "thread_slot (pl_threads p ! ?tid) \<in> {None, Some i}"
    using assms unfolding table_ok_def by auto
  have "thread_slot (pl_threads p ! ?tid) \<noteq> Some i" using assms(1,4) t(1) unfolding table_ok_def by blast
  then show "pl_threads p ! ?tid = Returned" using t(2) by (cases "pl_threads p ! ?tid") auto
  then show "pthread_join ?tid p = Some ()" using t(1) by (simp add: pthread_join_def)
qed

lemma inv_reap_loop:
  assumes "pool_inv strerror L m p" "\<forall>i \<in> set is. i < 64"
  shows "\<exists>p'. tcp_reap_loop strerror env is p = Some p' \<and> pool_inv strerror L m p' \<and> grown 0 p p'"
  using assms
proof (induction "is" arbitrary: p)
  case Nil
  then show ?case by simp
next
  case (Cons i "is")
  obtain p1 where r: "run_threads strerror (re_sched (env i)) p = Some p1" "pool_inv strerror L m p1" "table_kept p p1"
    using inv_run_threads [OF Cons.prems(1)] by blast
  note g = table_kept_grown [OF r(3)]
  have "is": "\<forall>i \<in> set is. i < 64" and i: "i < 64" using Cons.prems(2) by simp_all
  note IH = Cons.IH [OF _ "is"]
  have on: "\<exists>p'. tcp_reap_loop strerror env is q = Some p' \<and> pool_inv strerror L m p' \<and> grown 0 p p'"
    if "pool_inv strerror L m q" "grown 0 p1 q" for q
    using IH [OF that(1)] grown_trans [OF grown_trans [OF g that(2)]] by fastforce
  show ?case
  proof (cases "wk_in_use (sv_workers p1 ! i) \<and> wk_finished (sv_workers p1 ! i)")
    case True
    have tab: "table_ok p1" using r(2) by (simp add: pool_inv_def)
    note F = finished_returned [OF tab i conjunct1 [OF True] conjunct2 [OF True]]
    have "pool_inv strerror L m (release_slot i p1)" by (rule inv_release [OF r(2) i _ F(2)]) (use True in simp)
    with on [of "release_slot i p1"] on [OF r(2)] r g F(1) True show ?thesis
      by (cases "re_join (env i)") (auto simp: Let_def)
  next
    case False
    with on [OF r(2)] r g show ?thesis by (auto simp: Let_def)
  qed
qed

lemma inv_reap:
  assumes "pool_inv strerror L m p"
  shows "\<exists>p'. wc_tcp_reap_finished strerror env p = Some p' \<and> pool_inv strerror L m p' \<and> grown 0 p p'"
  unfolding wc_tcp_reap_finished_def by (rule inv_reap_loop [OF assms]) simp

lemma start_grown: "grown 1 p (snd (wc_tcp_start_worker env f p))"
  by (auto simp: wc_tcp_start_worker_def grown_def Let_def split: option.split)

text \<open>Handing a new connection over, the part of accepting that both servers share.\<close>

definition hand_over :: "errno option list \<Rightarrow> 32 word \<Rightarrow> start_env \<Rightarrow> fd \<Rightarrow> pool \<Rightarrow> pool" where
  "hand_over fcntls flags env f p = (case fst (wc_socket_set_nonblocking flags fcntls) of
       Inl _ \<Rightarrow> pool_emit (Ev_close f) p
     | Inr _ \<Rightarrow> (case wc_tcp_start_worker env f p of (Inl _, p') \<Rightarrow> pool_emit (Ev_close f) p' | (Inr _, p') \<Rightarrow> p'))"

lemma inv_hand_over:
  assumes inv: "pool_inv strerror (insert f L) m p" and f: "f \<notin> L"
  shows "pool_inv strerror L m (hand_over fcntls flags env f p)" "grown 1 p (hand_over fcntls flags env f p)"
proof -
  have L: "insert f L - {f} = L" using f by blast
  obtain st p' where s: "wc_tcp_start_worker env f p = (st, p')" by fastforce
  have new: "st = wc_ok \<Longrightarrow> pool_inv strerror L m p'" "st \<noteq> wc_ok \<Longrightarrow> pool_inv strerror (insert f L) m p'"
    using inv_start [OF inv, of f env] s L by (cases st; simp)+
  have cl: "pool_inv strerror L m (pool_emit (Ev_close f) q)" if "pool_inv strerror (insert f L) m q" for q
    using inv_close [OF that, of f] L by simp
  show "pool_inv strerror L m (hand_over fcntls flags env f p)"
    unfolding hand_over_def s using new cl inv by (auto split: sum.splits)
  show "grown 1 p (hand_over fcntls flags env f p)"
    using start_grown [of p env f] s by (auto simp: hand_over_def split: sum.splits)
qed

end
