(* ===== verification/WC_Pool_Run.thy ===== *)
theory WC_Pool_Run
  imports WC_Pool WC_UDS_Run
begin

text \<open>
  The threaded servers as a whole: the main loop, the shutdown and the properties of a run. The
  locale \<open>worker_pool\<close> is the interface between the main loop and the way clients are accepted; both servers provide it.
\<close>

unbundle bit_operations_syntax

section \<open>The operations of the threaded Unix-domain server\<close>

lemma threaded_step_eq: "threaded_uds_thread_step = tcp_thread_step"
  by (intro ext) (simp only: threaded_uds_thread_step_def tcp_thread_step_def threaded_eqs)

lemma threaded_run_eq: "threaded_uds_run_threads = run_threads"
proof (intro ext)
  fix strerror sched p
  show "threaded_uds_run_threads strerror sched p = run_threads strerror sched p"
    by (induction strerror sched p rule: run_threads.induct) (simp_all add: threaded_step_eq cong: Option.bind_cong)
qed

lemma threaded_free_slot_eq: "threaded_uds_free_slot = tcp_free_slot"
proof (rule ext)
  fix ws show "threaded_uds_free_slot ws = tcp_free_slot ws" by (induction ws) simp_all
qed

lemma threaded_start_eq: "wc_threaded_uds_start_worker = wc_tcp_start_worker"
  by (intro ext) (simp only: wc_threaded_uds_start_worker_def wc_tcp_start_worker_def threaded_free_slot_eq)

lemma threaded_reap_eq: "wc_threaded_uds_reap_finished = wc_tcp_reap_finished"
proof (intro ext)
  fix strerror env p
  have "threaded_uds_reap_loop strerror env is p = tcp_reap_loop strerror env is p" for "is"
    by (induction "is" arbitrary: p) (simp_all add: threaded_run_eq Let_def cong: if_cong)
  then show "wc_threaded_uds_reap_finished strerror env p = wc_tcp_reap_finished strerror env p"
    by (simp only: wc_threaded_uds_reap_finished_def wc_tcp_reap_finished_def)
qed

lemma threaded_join_eq: "wc_threaded_uds_join_all = wc_tcp_join_all"
proof (intro ext)
  fix strerror env p
  have "threaded_uds_join_loop strerror env is ok p = tcp_join_loop strerror env is ok p" for "is" ok
    by (induction "is" arbitrary: ok p) (simp_all add: threaded_run_eq cong: if_cong)
  then show "wc_threaded_uds_join_all strerror env p = wc_tcp_join_all strerror env p"
    by (simp only: wc_threaded_uds_join_all_def wc_tcp_join_all_def)
qed

lemma threaded_stop_eq: "wc_threaded_uds_request_stop = wc_tcp_request_stop"
  by (intro ext) (simp only: wc_threaded_uds_request_stop_def wc_tcp_request_stop_def)

lemma threaded_init_eq: "wc_threaded_uds_workers_init = wc_tcp_workers_init"
  by (intro ext) (simp only: wc_threaded_uds_workers_init_def wc_tcp_workers_init_def)

lemmas threaded_main_eqs = threaded_run_eq threaded_start_eq threaded_reap_eq threaded_join_eq threaded_stop_eq
  threaded_init_eq

section \<open>Accepting clients\<close>

abbreviation fresh_accepts :: "accept_env list \<Rightarrow> bool" where
  "fresh_accepts as \<equiv> list_all (\<lambda>a. fresh_accept (ae_accept a)) as"

lemma fresh_pick:
  assumes "fresh_accept (Accept_fd pick flags fcntls)" "pool_inv strerror {lf} m p"
  shows "pick (lf # open_fds p) \<notin> {lf} \<union> set (open_fds p)"
proof -
  have "\<forall>fds. 0 \<le> pick fds \<and> pick fds \<notin> set fds" using assms(1) by (simp add: fresh_accept_def)
  from spec [OF this, of "lf # open_fds p"] show ?thesis by simp
qed

lemma tcp_accept_keeps:
  assumes "pool_inv strerror {lf} m p" "fresh_accepts as"
  shows "\<exists>p'. wc_tcp_accept_clients strerror lf as p = Some p' \<and> pool_inv strerror {lf} m p' \<and> grown (length as) p p'"
  using assms
proof (induction as arbitrary: p)
  case Nil
  then show ?case by simp
next
  case (Cons a as)
  have fr: "fresh_accepts as" "fresh_accept (ae_accept a)" using Cons.prems(2) by simp_all
  obtain p0 where r: "run_threads strerror (ae_sched a) p = Some p0" "pool_inv strerror {lf} m p0" "table_kept p p0"
    using inv_run_threads [OF Cons.prems(1)] by blast
  note g = table_kept_grown [OF r(3)]
  have on: "\<exists>p'. wc_tcp_accept_clients strerror lf as q = Some p' \<and> pool_inv strerror {lf} m p' \<and> grown (length (a # as)) p p'"
    if "pool_inv strerror {lf} m q" "grown 1 p0 q" for q
    using Cons.IH [OF that(1) fr(1)] grown_trans [OF grown_trans [OF g that(2)], of 1] by fastforce
  show ?case
  proof (cases "ae_accept a")
    case (Accept_error e)
    have "grown (Suc (length as)) p p0" using g by (simp add: grown_def)
    with Accept_error r on [OF r(2)] show ?thesis by (cases "e = EINTR") auto
  next
    case (Accept_fd pick flags fcntls)
    define f where "f = pick (lf # open_fds p0)"
    have f: "f \<notin> {lf} \<union> set (open_fds p0)" unfolding f_def by (rule fresh_pick [OF _ r(2)]) (use fr(2) Accept_fd in simp)
    have "pool_inv strerror (insert f {lf}) m (pool_emit (Ev_open f) p0)" by (rule inv_open [OF r(2) f])
    from inv_reap [OF this, of "ae_reap a"] obtain p1 where
      p1: "wc_tcp_reap_finished strerror (ae_reap a) (pool_emit (Ev_open f) p0) = Some p1"
      "pool_inv strerror (insert f {lf}) m p1" "grown 0 p0 p1" by auto
    let ?p = "hand_over fcntls flags (ae_start a) f p1"
    have h: "pool_inv strerror {lf} m ?p" "grown 1 p1 ?p" using inv_hand_over [OF p1(2)] f by auto
    have "wc_tcp_accept_clients strerror lf (a # as) p = wc_tcp_accept_clients strerror lf as ?p"
      using r(1) p1(1) Accept_fd by (simp add: f_def [symmetric] hand_over_def Let_def split: sum.splits prod.splits)
    with on [OF h(1) grown_trans [OF p1(3) h(2)]] show ?thesis by simp
  qed
qed

lemma threaded_accept_keeps:
  assumes "pool_inv strerror {lf} m p" "fresh_accepts as"
  shows "\<exists>p'. wc_threaded_uds_accept_clients strerror lf as p = Some p' \<and> pool_inv strerror {lf} m p' \<and>
     grown (length as) p p'"
  using assms
proof (induction as arbitrary: p)
  case Nil
  then show ?case by simp
next
  case (Cons a as)
  have fr: "fresh_accepts as" "fresh_accept (ae_accept a)" using Cons.prems(2) by simp_all
  obtain p0 where r: "run_threads strerror (ae_sched a) p = Some p0" "pool_inv strerror {lf} m p0" "table_kept p p0"
    using inv_run_threads [OF Cons.prems(1)] by blast
  note g = table_kept_grown [OF r(3)]
  have on: "\<exists>p'. wc_threaded_uds_accept_clients strerror lf as q = Some p' \<and> pool_inv strerror {lf} m p' \<and>
      grown (length (a # as)) p p'" if "pool_inv strerror {lf} m q" "grown 1 p0 q" for q
    using Cons.IH [OF that(1) fr(1)] grown_trans [OF grown_trans [OF g that(2)], of 1] by fastforce
  show ?case
  proof (cases "ae_accept a")
    case (Accept_error e)
    have "grown (Suc (length as)) p p0" using g by (simp add: grown_def)
    with Accept_error r on [OF r(2)] show ?thesis by (cases "e = EINTR") (auto simp: threaded_run_eq)
  next
    case (Accept_fd pick flags fcntls)
    define f where "f = pick (lf # open_fds p0)"
    have f: "f \<notin> {lf} \<union> set (open_fds p0)" unfolding f_def by (rule fresh_pick [OF _ r(2)]) (use fr(2) Accept_fd in simp)
    have p1: "pool_inv strerror (insert f {lf}) m (pool_emit (Ev_open f) p0)" by (rule inv_open [OF r(2) f])
    let ?p = "hand_over fcntls flags (ae_start a) f (pool_emit (Ev_open f) p0)"
    have h: "pool_inv strerror {lf} m ?p" "grown 1 p0 ?p" using inv_hand_over [OF p1] f by auto
    have "wc_threaded_uds_accept_clients strerror lf (a # as) p = wc_threaded_uds_accept_clients strerror lf as ?p"
      using r(1) Accept_fd
      by (simp add: threaded_run_eq threaded_start_eq f_def [symmetric] hand_over_def Let_def split: sum.splits prod.splits)
    with on [OF h] show ?thesis by simp
  qed
qed

section \<open>The main loop\<close>

abbreviation fresh_mains :: "main_env list \<Rightarrow> bool" where
  "fresh_mains ms \<equiv> list_all (\<lambda>m. fresh_accepts (me_accepts m)) ms"

text \<open>The number of calls of \<open>accept\<close>, which bounds the number of threads.\<close>

definition accept_calls :: "main_env list \<Rightarrow> nat" where
  "accept_calls ms = sum_list (map (\<lambda>m. length (me_accepts m)) ms)"

locale worker_pool =
  fixes accept :: "(errno \<Rightarrow> byte list) \<Rightarrow> fd \<Rightarrow> accept_env list \<Rightarrow> pool \<Rightarrow> pool option"
    and loop :: "(errno \<Rightarrow> byte list) \<Rightarrow> fd \<Rightarrow> main_env list \<Rightarrow> pool \<Rightarrow> (status \<times> pool) option"
  assumes accept_law: "pool_inv strerror {lf} m p \<Longrightarrow> fresh_accepts as \<Longrightarrow>
      \<exists>p'. accept strerror lf as p = Some p' \<and> pool_inv strerror {lf} m p' \<and> grown (length as) p p'"
    and loop_Nil: "loop strerror lf [] p = Some (wc_ok, p)"
    and loop_Cons: "loop strerror lf (me # ms) p = do {
        p1 \<leftarrow> wc_tcp_reap_finished strerror (me_reap me) p;
        p2 \<leftarrow> run_threads strerror (me_sched me) p1;
        case me_poll me of
          Inl e \<Rightarrow> if e = EINTR then loop strerror lf ms p2 else Some (Inl e, p2)
        | Inr revents \<Rightarrow> do {
            p3 \<leftarrow> (if revents AND 1 \<noteq> 0 then accept strerror lf (me_accepts me) p2 else Some p2);
            if revents AND (8 OR 16 OR 32) \<noteq> 0 then Some (Inl EIO, p3) else loop strerror lf ms p3
          }
      }"
begin

lemma loop_keeps:
  assumes "pool_inv strerror {lf} m p" "fresh_mains ms"
  shows "\<exists>st p'. loop strerror lf ms p = Some (st, p') \<and> pool_inv strerror {lf} m p' \<and> grown (accept_calls ms) p p'"
  using assms
proof (induction ms arbitrary: p)
  case Nil
  then show ?case by (simp add: loop_Nil)
next
  case (Cons me ms)
  have fr: "fresh_mains ms" "fresh_accepts (me_accepts me)" using Cons.prems(2) by simp_all
  obtain p1 where p1: "wc_tcp_reap_finished strerror (me_reap me) p = Some p1" "pool_inv strerror {lf} m p1" "grown 0 p p1"
    using inv_reap [OF Cons.prems(1)] by blast
  obtain p2 where p2: "run_threads strerror (me_sched me) p1 = Some p2" "pool_inv strerror {lf} m p2" "table_kept p1 p2"
    using inv_run_threads [OF p1(2)] by blast
  have g2: "grown 0 p p2" using grown_trans [OF p1(3) table_kept_grown [OF p2(3)]] by simp
  let ?n = "length (me_accepts me)"
  have n: "accept_calls (me # ms) = ?n + accept_calls ms" by (simp add: accept_calls_def)
  have on: "\<exists>st p'. loop strerror lf ms q = Some (st, p') \<and> pool_inv strerror {lf} m p' \<and> grown (accept_calls (me # ms)) p p'"
    if "pool_inv strerror {lf} m q" "grown ?n p2 q" for q
    using Cons.IH [OF that(1) fr(1)] grown_trans [OF grown_trans [OF g2 that(2)], of ?n] n by fastforce
  obtain p3 where p3: "accept strerror lf (me_accepts me) p2 = Some p3" "pool_inv strerror {lf} m p3" "grown ?n p2 p3"
    using accept_law [OF p2(2) fr(2)] by blast
  have all: "grown (accept_calls (me # ms)) p q" if "grown ?n p2 q" for q
    using grown_trans [OF g2 that] n by simp
  note unf = loop_Cons [of strerror lf me ms p, unfolded p1(1) p2(1) Option.bind.bind_lunit p3(1)]
  show ?case
  proof (cases "me_poll me")
    case (Inl e)
    then show ?thesis using on [OF p2(2)] p2(2) all [of p2] unfolding unf by (cases "e = EINTR") auto
  next
    case (Inr revents)
    show ?thesis
      unfolding unf Inr sum.case
      using on [OF p2(2)] p2(2) all [of p2] on [OF p3(2,3)] p3(2) all [OF p3(3)]
      by (cases "revents AND 1 = 0"; cases "revents AND (8 OR 16 OR 32) = 0") auto
  qed
qed

end

interpretation tcp_pool: worker_pool wc_tcp_accept_clients tcp_main_loop
  by unfold_locales (rule tcp_accept_keeps, assumption+, simp_all)

interpretation thr_pool: worker_pool wc_threaded_uds_accept_clients threaded_uds_main_loop
  by unfold_locales (rule threaded_accept_keeps, assumption+, simp_all add: threaded_main_eqs)

section \<open>Stopping\<close>

text \<open>How many steps a thread takes at most once the server is stopping.\<close>

fun steps_left :: "thread \<Rightarrow> nat" where
  "steps_left (Starting w) = 3"
| "steps_left (Running w f i b) = 2"
| "steps_left (Closed w) = 1"
| "steps_left Returned = 0"

lemma steps_left_zero [simp]: "steps_left t = 0 \<longleftrightarrow> t = Returned"
  by (cases t) simp_all

lemma stopping_step:
  assumes "sv_stopping p" "tcp_thread_step strerror tid env p = Some p'" "j < length (pl_threads p)"
  shows "steps_left (pl_threads p' ! j) \<le> steps_left (pl_threads p ! j) - (if tid = j then 1 else 0)"
proof (cases "tid < length (pl_threads p)")
  case False
  then show ?thesis using assms by (auto simp: tcp_thread_step_def)
next
  case True
  show ?thesis
    using assms True
    by (cases "pl_threads p ! tid")
       (auto simp: tcp_thread_step_def wc_tcp_is_stopping_def wc_buffer_init_def Let_def nth_list_update set_thread_def
         split: if_splits)
qed

abbreviation steps_of :: "nat \<Rightarrow> sched \<Rightarrow> nat" where
  "steps_of tid sched \<equiv> length (filter (\<lambda>x. fst x = tid) sched)"

lemma stopping_run:
  assumes "pool_inv strerror L m p" "sv_stopping p" "run_threads strerror sched p = Some p'" "j < length (pl_threads p)"
  shows "steps_left (pl_threads p' ! j) \<le> steps_left (pl_threads p ! j) - steps_of j sched"
  using assms
proof (induction sched arbitrary: p)
  case Nil
  then show ?case by simp
next
  case (Cons x sched)
  obtain tid env where x: "x = (tid, env)" by (cases x)
  obtain p1 where s: "tcp_thread_step strerror tid env p = Some p1" "pool_inv strerror L m p1" "table_kept p p1"
    using inv_thread_step [OF Cons.prems(1)] by blast
  have "steps_left (pl_threads p' ! j) \<le> steps_left (pl_threads p1 ! j) - steps_of j sched"
    by (rule Cons.IH [OF s(2)]) (use s Cons.prems x in \<open>simp_all add: table_kept_def\<close>)
  with stopping_step [OF Cons.prems(2) s(1) Cons.prems(4)] show ?case by (auto simp: x)
qed

lemma steps_left_le: "steps_left t \<le> 3"
  by (cases t) simp_all

lemma join_loop_keeps:
  assumes "pool_inv strerror L m p" "\<forall>i \<in> set is. i < 64" "tcp_join_loop strerror env is ok p = Some (ok', p')"
  shows "pool_inv strerror L m p' \<and> sv_stopping p' = sv_stopping p \<and> (ok' \<longrightarrow> ok) \<and>
     (\<forall>i < 64. wk_in_use (sv_workers p' ! i) \<longrightarrow> wk_in_use (sv_workers p ! i) \<and> (ok' \<longrightarrow> i \<notin> set is))"
  using assms
proof (induction "is" arbitrary: ok p)
  case Nil
  then show ?case by simp
next
  case (Cons i "is")
  have i: "i < 64" "\<forall>i \<in> set is. i < 64" using Cons.prems(2) by simp_all
  have len: "length (sv_workers p) = 64" using Cons.prems(1) by (simp add: pool_inv_def table_ok_def)
  show ?case
  proof (cases "wk_in_use (sv_workers p ! i) \<and> je_join (env i)")
    case False
    then show ?thesis
      using Cons.IH [OF Cons.prems(1) i(2)] Cons.prems(3) by (auto split: if_splits)
  next
    case True
    obtain p1 where r: "run_threads strerror (je_sched (env i)) p = Some p1" "pool_inv strerror L m p1" "table_kept p p1"
      using inv_run_threads [OF Cons.prems(1)] by blast
    note slot = table_kept_slot [OF r(3), unfolded len]
    have j: "pthread_join (wk_thread (sv_workers p ! i)) p1 = Some ()"
      and rest: "tcp_join_loop strerror env is ok (release_slot i p1) = Some (ok', p')"
      using Cons.prems(3) True r(1) by (auto split: Option.bind_splits)
    have "pl_threads p1 ! wk_thread (sv_workers p1 ! i) = Returned"
      using j slot(1) [OF i(1)] by (simp add: pthread_join_def split: if_splits)
    then have inv: "pool_inv strerror L m (release_slot i p1)"
      by (intro inv_release [OF r(2) i(1)]) (use True slot(3) [OF i(1)] in simp)
    from Cons.IH [OF inv i(2) rest] slot i r(3) show ?thesis
      by (auto simp: release_slot_def nth_list_update table_kept_def split: if_splits)
  qed
qed

lemma join_loop_returns:
  assumes "pool_inv strerror L m p" "\<forall>i \<in> set is. i < 64" "sv_stopping p" "length (pl_threads p) \<le> n"
    and fair: "\<forall>i < 64. \<forall>tid < n. 3 \<le> steps_of tid (je_sched (env i))"
  shows "\<exists>res. tcp_join_loop strerror env is ok p = Some res"
  using assms(1-4)
proof (induction "is" arbitrary: ok p)
  case Nil
  then show ?case by simp
next
  case (Cons i "is")
  have i: "i < 64" "\<forall>i \<in> set is. i < 64" using Cons.prems(2) by simp_all
  have len: "length (sv_workers p) = 64" using Cons.prems(1) by (simp add: pool_inv_def table_ok_def)
  show ?case
  proof (cases "wk_in_use (sv_workers p ! i) \<and> je_join (env i)")
    case False
    then show ?thesis using Cons.IH [OF Cons.prems(1) i(2) Cons.prems(3,4)] by auto
  next
    case True
    let ?tid = "wk_thread (sv_workers p ! i)"
    obtain p1 where r: "run_threads strerror (je_sched (env i)) p = Some p1" "pool_inv strerror L m p1" "table_kept p p1"
      using inv_run_threads [OF Cons.prems(1)] by blast
    note slot = table_kept_slot [OF r(3), unfolded len]
    have tid: "?tid < length (pl_threads p)"
      using Cons.prems(1) True i(1) unfolding pool_inv_def table_ok_def by blast
    have "3 \<le> steps_of ?tid (je_sched (env i))" using fair i(1) tid Cons.prems(4) by simp
    with stopping_run [OF Cons.prems(1,3) r(1) tid] steps_left_le [of "pl_threads p ! ?tid"]
    have ret: "pl_threads p1 ! ?tid = Returned" by (simp flip: steps_left_zero)
    then have join: "pthread_join ?tid p1 = Some ()" using tid r(3) by (simp add: pthread_join_def table_kept_def)
    have inv: "pool_inv strerror L m (release_slot i p1)"
      by (intro inv_release [OF r(2) i(1)]) (use True slot(1,3) [OF i(1)] ret in simp_all)
    have "\<exists>res. tcp_join_loop strerror env is ok (release_slot i p1) = Some res"
      by (rule Cons.IH [OF inv i(2)]) (use r(3) Cons.prems(3,4) in \<open>simp_all add: release_slot_def table_kept_def\<close>)
    then show ?thesis using True r(1) join by simp
  qed
qed

section \<open>A run of the servers\<close>

text \<open>The shutdown, common to both servers, from a state in which the main loop was left.\<close>

lemma shutdown_keeps:
  assumes "pool_inv strerror {} m p" "wc_tcp_join_all strerror env p = Some (ok, p')"
  shows "pool_inv strerror {} m p' \<and> (ok \<longrightarrow> (\<forall>i < 64. \<not> wk_in_use (sv_workers p' ! i)))"
  using join_loop_keeps [OF assms(1) _ assms(2) [unfolded wc_tcp_join_all_def]] by auto

lemma join_all_ok:
  assumes "\<forall>i. je_join (env i)" "tcp_join_loop strerror env is True p = Some (ok, p')"
  shows "ok"
  using assms(2) by (induction "is" arbitrary: p) (auto simp: assms(1) split: if_splits Option.bind_splits)

lemma no_slot_in_use:
  assumes inv: "pool_inv strerror {} m p" and free: "\<forall>i < 64. \<not> wk_in_use (sv_workers p ! i)"
  shows "\<forall>t \<in> set (pl_threads p). t = Returned" "s_live (pl_sys p) = m" "fd_run {} (s_trace (pl_sys p)) = Some {}"
proof -
  show ret: "\<forall>t \<in> set (pl_threads p). t = Returned"
  proof
    fix t assume "t \<in> set (pl_threads p)"
    then obtain tid where tid: "tid < length (pl_threads p)" "pl_threads p ! tid = t" by (auto simp: in_set_conv_nth)
    have "thread_slot t \<noteq> Some w" for w using inv free tid unfolding pool_inv_def table_ok_def by blast
    then show "t = Returned" by (cases t) auto
  qed
  have "sum_list (map thread_owned ts) = 0" if "\<forall>t \<in> set ts. t = Returned" for ts using that by (induction ts) auto
  with inv ret show "s_live (pl_sys p) = m" by (simp add: pool_inv_def)
  have "open_fds p = []" using ret by (auto simp: open_fds_def)
  with inv show "fd_run {} (s_trace (pl_sys p)) = Some {}" by (simp add: pool_inv_def)
qed

lemma pool_inv_start:
  assumes "s_trace s = Ev_open lf # evs" "evs = [] \<or> (\<exists>pth. evs = [Ev_unlink pth])"
    and "length ws = 64" "\<forall>w \<in> set ws. \<not> wk_in_use w"
  shows "pool_inv strerror {lf} (s_live s) \<lparr>sv_workers = ws, sv_stopping = b, pl_threads = [], pl_sys = s\<rparr>"
proof -
  have io: "session_sent f (s_trace s) = []" "session_recv f (s_trace s) = []" for f
    using assms(1,2) by (auto simp: session_sent_def session_recv_def)
  have "worker_session strerror s f [] []" for f
    using req.drain_More [of "[]"]
    by (auto simp: worker_session_def io request_spec_def intro!: exI [of _ "[] :: answer list"])
  moreover have "history_ok strerror s f" for f by (rule ws_history) (rule calculation)
  ultimately show ?thesis
    using assms by (auto simp: pool_inv_def table_ok_def open_fds_def)
qed

text \<open>States without threads: the trace of a server that could not start.\<close>

lemma pool_inv_failed:
  assumes "s_trace s = [] \<or> (\<exists>f us vs. s_trace s = Ev_open f # map Ev_unlink us @ Ev_close f # map Ev_unlink vs)"
    and "length ws = 64" "\<forall>w \<in> set ws. \<not> wk_in_use w"
  shows "pool_inv strerror {} (s_live s) \<lparr>sv_workers = ws, sv_stopping = b, pl_threads = [], pl_sys = s\<rparr>"
proof -
  have un: "fd_run S (map Ev_unlink us @ evs) = fd_run S evs" for S us evs by (induction us) auto
  have "fd_run {} (s_trace s) = Some {}" using assms(1) un [of "{}" _ "[]"] un by auto
  moreover have "\<forall>f. \<forall>e \<in> set (s_trace s). ev_sent f e = []" "\<forall>cmd. Ev_run cmd \<notin> set (s_trace s)"
    using assms(1) by auto
  ultimately show ?thesis
    using assms(2,3) history_quiet [where s = s] by (auto simp: pool_inv_def table_ok_def open_fds_def)
qed

lemma pool_inv_stopping [simp]: "pool_inv strerror L m (p\<lparr>sv_stopping := b\<rparr>) = pool_inv strerror L m p"
  by (simp add: pool_inv_def table_ok_def open_fds_def)

lemma request_stop_spec:
  assumes "pool_inv strerror {lf} m p" "wc_tcp_request_stop l u p = (st, p')"
  shows "pool_inv strerror {} m (pool_emit (Ev_close lf) p')" "l = wc_ok \<Longrightarrow> sv_stopping p'"
    "pl_threads p' = pl_threads p"
proof -
  have "pool_inv strerror {lf} m p'" using assms by (auto simp: wc_tcp_request_stop_def split: if_splits)
  from inv_close [OF this] show "pool_inv strerror {} m (pool_emit (Ev_close lf) p')" by simp
  show "l = wc_ok \<Longrightarrow> sv_stopping p'" "pl_threads p' = pl_threads p"
    using assms(2) by (auto simp: wc_tcp_request_stop_def split: if_splits)
qed

text \<open>The table before the first client.\<close>

definition start_pool :: "unit sys \<Rightarrow> pool" where
  "start_pool s = \<lparr>sv_workers = replicate 64 \<lparr>wk_thread = 0, wk_client_fd = - 1, wk_in_use = False, wk_finished = False\<rparr>,
     sv_stopping = False, pl_threads = [], pl_sys = s\<rparr>"

lemma start_pool_simps [simp]:
  "start_pool s\<lparr>pl_sys := s'\<rparr> = start_pool s'" "pl_sys (start_pool s) = s" "pl_threads (start_pool s) = []"
  by (simp_all add: start_pool_def)

lemma workers_init_start:
  "wc_tcp_workers_init \<lparr>sv_workers = replicate 64 \<lparr>wk_thread = 0, wk_client_fd = 0, wk_in_use = False, wk_finished = False\<rparr>,
     sv_stopping = False, pl_threads = [], pl_sys = s\<rparr> = start_pool s"
  by (simp add: wc_tcp_workers_init_def start_pool_def)

lemma tcp_listener_cases:
  obtains (fails) e s1 evs where "wc_tcp_open_listener a port env s = (Inl e, s1)" "s_live s1 = s_live s"
      "s_trace s1 = s_trace s @ evs" "evs = [] \<or> (\<exists>f. tl_socket env = Inr f \<and> evs = [Ev_open f, Ev_close f])"
  | (opens) f where "tl_socket env = Inr f" "wc_tcp_open_listener a port env s = (Inr f, s_emit (Ev_open f) s)"
proof (cases "a = None \<or> a = Some [] \<or> port = 0 \<or> tl_pton env \<noteq> Inr True \<or> (\<exists>e. tl_socket env = Inl e)")
  case True
  have "\<exists>e. wc_tcp_open_listener a port env s = (Inl e, s)"
  proof (cases "a = None \<or> a = Some [] \<or> port = 0")
    case False
    with True show ?thesis
      by (cases "tl_pton env"; cases "tl_socket env") (auto simp: wc_tcp_open_listener_def split: bool.split)
  qed (simp add: wc_tcp_open_listener_def)
  then show thesis using fails [of _ s "[]"] by auto
next
  case False
  then obtain f where f: "\<not> (a = None \<or> a = Some [] \<or> port = 0)" "tl_pton env = Inr True" "tl_socket env = Inr f"
    by (cases "tl_socket env") auto
  define st where "st = (if tl_setsockopt env \<noteq> wc_ok then tl_setsockopt env
      else case fst (wc_socket_set_nonblocking (tl_flags env) (tl_fcntl env)) of
          Inl e \<Rightarrow> Inl e
        | Inr _ \<Rightarrow> if tl_bind env \<noteq> wc_ok then tl_bind env else tl_listen env)"
  have unf: "wc_tcp_open_listener a port env s = (case st of
      Inl e \<Rightarrow> (Inl e, s_emit (Ev_close f) (s_emit (Ev_open f) s)) | Inr _ \<Rightarrow> (Inr f, s_emit (Ev_open f) s))"
    unfolding wc_tcp_open_listener_def if_not_P [OF f(1)] f(2,3) sum.case bool.case Let_def st_def ..
  show thesis
  proof (cases st)
    case (Inl e)
    then show thesis using f(3)
      by (intro fails [of e "s_emit (Ev_close f) (s_emit (Ev_open f) s)" "[Ev_open f, Ev_close f]"]) (auto simp: unf)
  next
    case (Inr u)
    then show thesis using f(3) by (intro opens) (auto simp: unf)
  qed
qed

lemma start_pool_inv:
  "s_trace s = Ev_open lf # evs \<Longrightarrow> evs = [] \<or> (\<exists>pth. evs = [Ev_unlink pth]) \<Longrightarrow>
   pool_inv strerror {lf} (s_live s) (start_pool s)"
  unfolding start_pool_def by (rule pool_inv_start) simp_all

lemma failed_pool_inv:
  assumes "s_trace s = [] \<or> (\<exists>f us vs. s_trace s = Ev_open f # map Ev_unlink us @ Ev_close f # map Ev_unlink vs)"
    "length ws = 64" "\<forall>w \<in> set ws. \<not> wk_in_use w"
    "p = \<lparr>sv_workers = ws, sv_stopping = b, pl_threads = [], pl_sys = s\<rparr>"
  shows "pool_inv strerror {} (s_live s) p \<and> (\<forall>i < 64. \<not> wk_in_use (sv_workers p ! i))"
  using pool_inv_failed [OF assms(1-3)] assms(2-4) by simp

text \<open>What holds whenever a server returns, and when all its threads were joined.\<close>

definition run_ok :: "(errno \<Rightarrow> byte list) \<Rightarrow> run_env \<Rightarrow> unit sys \<Rightarrow> status \<Rightarrow> pool \<Rightarrow> bool" where
  "run_ok strerror env s st p \<longleftrightarrow> pool_inv strerror {} (s_live s) p \<and>
     ((\<forall>i. je_join (rn_join env i)) \<or> st = wc_ok \<longrightarrow> (\<forall>i < 64. \<not> wk_in_use (sv_workers p ! i)))"

lemma run_ok_failed:
  assumes "s_trace s1 = [] \<or> (\<exists>f us vs. s_trace s1 = Ev_open f # map Ev_unlink us @ Ev_close f # map Ev_unlink vs)"
    "s_live s1 = s_live s"
  shows "run_ok strerror env s st (start_pool s1)"
  using failed_pool_inv [OF assms(1) _ _ start_pool_def] assms(2) by (simp add: run_ok_def)

lemma run_ok_zero:
  assumes "s_trace s = []"
  shows "run_ok strerror env s st \<lparr>sv_workers = replicate 64 \<lparr>wk_thread = 0, wk_client_fd = 0, wk_in_use = False, wk_finished = False\<rparr>,
     sv_stopping = False, pl_threads = [], pl_sys = s\<rparr>"
  using failed_pool_inv [OF _ _ _ refl, of s "replicate 64 \<lparr>wk_thread = 0, wk_client_fd = 0, wk_in_use = False, wk_finished = False\<rparr>"]
    assms by (simp add: run_ok_def)

lemma run_ok_joined:
  assumes "pool_inv strerror {} (s_live s) p" "wc_tcp_join_all strerror (rn_join env) p = Some (ok, p')" "st = wc_ok \<longrightarrow> ok"
  shows "run_ok strerror env s st p'"
proof -
  have "(\<forall>i. je_join (rn_join env i)) \<longrightarrow> ok"
    using join_all_ok assms(2) unfolding wc_tcp_join_all_def by blast
  with shutdown_keeps [OF assms(1,2)] assms(3) show ?thesis by (auto simp: run_ok_def)
qed

lemma join_all_returns:
  assumes inv: "pool_inv strerror {} m p" and stop: "sv_stopping p" and n: "length (pl_threads p) \<le> n"
    and fair: "\<forall>i < 64. \<forall>tid < n. 3 \<le> steps_of tid (je_sched (env i))"
  obtains ok p' where "wc_tcp_join_all strerror env p = Some (ok, p')"
  using join_loop_returns [OF inv _ stop n fair, of "[0..<64]" True] unfolding wc_tcp_join_all_def by auto

text \<open>The main loop from the start, and what is left to do after it.\<close>

lemma tcp_loop_start:
  assumes "s_trace s = []" "fresh_mains ms"
  obtains result p1 mr p2 where "tcp_main_loop strerror lf ms (start_pool (s_emit (Ev_open lf) s)) = Some (result, p1)"
    "wc_tcp_request_stop l u p1 = (mr, p2)" "pool_inv strerror {} (s_live s) (pool_emit (Ev_close lf) p2)"
    "l = wc_ok \<longrightarrow> sv_stopping p2" "length (pl_threads p2) \<le> accept_calls ms"
proof -
  have "pool_inv strerror {lf} (s_live (s_emit (Ev_open lf) s)) (start_pool (s_emit (Ev_open lf) s))"
    by (rule start_pool_inv) (use assms(1) in auto)
  from tcp_pool.loop_keeps [OF this assms(2)] obtain result p1 where
    l: "tcp_main_loop strerror lf ms (start_pool (s_emit (Ev_open lf) s)) = Some (result, p1)"
    "pool_inv strerror {lf} (s_live s) p1" "grown (accept_calls ms) (start_pool (s_emit (Ev_open lf) s)) p1" by auto
  obtain mr p2 where r: "wc_tcp_request_stop l u p1 = (mr, p2)" by fastforce
  note S = request_stop_spec [OF l(2) r]
  show thesis by (rule that [OF l(1) r S(1)]) (use S(2,3) l(3) in \<open>auto simp: grown_def\<close>)
qed

lemma tcp_run_ok:
  assumes s: "s_trace s = []" and fresh: "fresh_mains ms"
    and run: "wc_server_tcp_run strerror a port stop lenv ms env s = Some (st, p)"
  shows "run_ok strerror env s st p"
proof (cases "stop \<and> rn_mutex_init env = wc_ok")
  case False
  then show ?thesis using run run_ok_zero [OF s] by (auto simp: wc_server_tcp_run_def Let_def split: if_splits)
next
  case True
  note unf = run [unfolded wc_server_tcp_run_def Let_def workers_init_start start_pool_simps]
  show ?thesis
  proof (rule tcp_listener_cases [of a port lenv s])
    fix e s1 evs
    assume o: "wc_tcp_open_listener a port lenv s = (Inl e, s1)" "s_live s1 = s_live s" "s_trace s1 = s_trace s @ evs"
      "evs = [] \<or> (\<exists>f. tl_socket lenv = Inr f \<and> evs = [Ev_open f, Ev_close f])"
    have tr: "s_trace s1 = [] \<or> (\<exists>f us vs. s_trace s1 = Ev_open f # map Ev_unlink us @ Ev_close f # map Ev_unlink vs)"
    proof (cases "evs = []")
      case False
      then obtain f where "evs = [Ev_open f, Ev_close f]" using o(4) by blast
      then have "s_trace s1 = Ev_open f # map Ev_unlink [] @ Ev_close f # map Ev_unlink []" using o(3) s by simp
      then show ?thesis by blast
    qed (use o(3) s in simp)
    from True unf o(1) have "p = start_pool s1" by simp
    with run_ok_failed [OF tr o(2)] show ?thesis by simp
  next
    fix lf assume o: "wc_tcp_open_listener a port lenv s = (Inr lf, s_emit (Ev_open lf) s)"
    obtain result p1 mr p2 where l: "tcp_main_loop strerror lf ms (start_pool (s_emit (Ev_open lf) s)) = Some (result, p1)"
      "wc_tcp_request_stop (rn_lock env) (rn_unlock env) p1 = (mr, p2)"
      "pool_inv strerror {} (s_live s) (pool_emit (Ev_close lf) p2)"
      by (rule tcp_loop_start [OF s fresh])
    show ?thesis
    proof (cases "wc_tcp_join_all strerror (rn_join env) (pool_emit (Ev_close lf) p2)")
      case None
      with True unf o l(1,2) show ?thesis by simp
    next
      case (Some r)
      obtain ok p' where r: "r = (ok, p')" by (cases r)
      have "p = p'" "st = wc_ok \<longrightarrow> ok" using True unf o l(1,2) Some r by (auto simp: keep_first_def split: if_splits)
      then show ?thesis using run_ok_joined [OF l(3), of env ok p' st] Some r by simp
    qed
  qed
qed

lemma tcp_run_returns:
  assumes s: "s_trace s = []" and fresh: "fresh_mains ms" and lock: "rn_lock env = wc_ok"
    and fair: "\<forall>i < 64. \<forall>tid < accept_calls ms. 3 \<le> steps_of tid (je_sched (rn_join env i))"
  shows "\<exists>res. wc_server_tcp_run strerror a port stop lenv ms env s = Some res"
proof (cases "stop \<and> rn_mutex_init env = wc_ok")
  case False
  then show ?thesis by (auto simp: wc_server_tcp_run_def Let_def)
next
  case True
  note unf = wc_server_tcp_run_def [of strerror a port _ lenv ms env s, unfolded Let_def workers_init_start start_pool_simps]
  show ?thesis
  proof (rule tcp_listener_cases [of a port lenv s])
    fix e s1 assume "wc_tcp_open_listener a port lenv s = (Inl e, s1)"
    with True show ?thesis by (simp add: unf)
  next
    fix lf assume o: "wc_tcp_open_listener a port lenv s = (Inr lf, s_emit (Ev_open lf) s)"
    obtain result p1 mr p2 where l: "tcp_main_loop strerror lf ms (start_pool (s_emit (Ev_open lf) s)) = Some (result, p1)"
      "wc_tcp_request_stop (rn_lock env) (rn_unlock env) p1 = (mr, p2)"
      "pool_inv strerror {} (s_live s) (pool_emit (Ev_close lf) p2)"
      "rn_lock env = wc_ok \<longrightarrow> sv_stopping p2" "length (pl_threads p2) \<le> accept_calls ms"
      by (rule tcp_loop_start [OF s fresh])
    obtain ok p' where "wc_tcp_join_all strerror (rn_join env) (pool_emit (Ev_close lf) p2) = Some (ok, p')"
      by (rule join_all_returns [OF l(3) _ _ fair]) (use l(4,5) lock in simp_all)
    with True o l(1,2) show ?thesis by (simp add: unf)
  qed
qed

lemma threaded_listener_eq: "wc_threaded_uds_open_listener = wc_uds_open_listener"
  by (intro ext) (simp only: wc_threaded_uds_open_listener_def wc_uds_open_listener_def)

lemma threaded_loop_start:
  assumes "s_trace s = []" "fresh_mains ms"
  obtains result p1 mr p2 where
    "threaded_uds_main_loop strerror lf ms (start_pool (s_emit (Ev_unlink pth) (s_emit (Ev_open lf) s))) = Some (result, p1)"
    "wc_tcp_request_stop l u p1 = (mr, p2)"
    "pool_inv strerror {} (s_live s) (pool_emit (Ev_unlink pth) (pool_emit (Ev_close lf) p2))"
    "l = wc_ok \<longrightarrow> sv_stopping p2" "length (pl_threads p2) \<le> accept_calls ms"
proof -
  let ?s = "s_emit (Ev_unlink pth) (s_emit (Ev_open lf) s)"
  have "pool_inv strerror {lf} (s_live ?s) (start_pool ?s)" by (rule start_pool_inv) (use assms(1) in auto)
  from thr_pool.loop_keeps [OF this assms(2)] obtain result p1 where
    l: "threaded_uds_main_loop strerror lf ms (start_pool ?s) = Some (result, p1)"
    "pool_inv strerror {lf} (s_live s) p1" "grown (accept_calls ms) (start_pool ?s) p1" by auto
  obtain mr p2 where r: "wc_tcp_request_stop l u p1 = (mr, p2)" by fastforce
  note S = request_stop_spec [OF l(2) r]
  show thesis by (rule that [OF l(1) r inv_unlink [OF S(1)]]) (use S(2,3) l(3) in \<open>auto simp: grown_def\<close>)
qed

lemma threaded_run_ok:
  assumes s: "s_trace s = []" and fresh: "fresh_mains ms"
    and run: "wc_server_uds_threaded_run strerror pth stop lenv ms env ust s = Some (st, p)"
  shows "run_ok strerror env s st p"
proof (cases "stop \<and> rn_mutex_init env = wc_ok")
  case False
  then show ?thesis using run run_ok_zero [OF s] by (auto simp: wc_server_uds_threaded_run_def Let_def split: if_splits)
next
  case True
  note unf = run [unfolded wc_server_uds_threaded_run_def Let_def threaded_main_eqs workers_init_start start_pool_simps
      threaded_listener_eq]
  show ?thesis
  proof (rule open_listener_cases [of pth lenv s])
    fix e s1 evs
    assume o: "wc_uds_open_listener pth lenv s = (Inl e, s1)" "s_live s1 = s_live s" "s_trace s1 = s_trace s @ evs"
      "evs = [] \<or> (\<exists>f us vs. le_socket lenv = Inr f \<and> evs = Ev_open f # map Ev_unlink us @ Ev_close f # map Ev_unlink vs)"
    have tr: "s_trace s1 = [] \<or> (\<exists>f us vs. s_trace s1 = Ev_open f # map Ev_unlink us @ Ev_close f # map Ev_unlink vs)"
      using o(4) unfolding o(3) s append_Nil by blast
    from True unf o(1) have "p = start_pool s1" by simp
    with run_ok_failed [OF tr o(2)] show ?thesis by simp
  next
    fix lf x assume o: "pth = Some x" "wc_uds_open_listener pth lenv s = (Inr lf, s_emit (Ev_unlink x) (s_emit (Ev_open lf) s))"
    obtain result p1 mr p2 where
      l: "threaded_uds_main_loop strerror lf ms (start_pool (s_emit (Ev_unlink x) (s_emit (Ev_open lf) s))) = Some (result, p1)"
      "wc_tcp_request_stop (rn_lock env) (rn_unlock env) p1 = (mr, p2)"
      "pool_inv strerror {} (s_live s) (pool_emit (Ev_unlink x) (pool_emit (Ev_close lf) p2))"
      by (rule threaded_loop_start [OF s fresh])
    show ?thesis
    proof (cases "wc_tcp_join_all strerror (rn_join env) (pool_emit (Ev_unlink x) (pool_emit (Ev_close lf) p2))")
      case None
      with True unf o l(1,2) show ?thesis by simp
    next
      case (Some r)
      obtain ok p' where r: "r = (ok, p')" by (cases r)
      have "p = p'" "st = wc_ok \<longrightarrow> ok" using True unf o l(1,2) Some r by (auto simp: keep_first_def split: if_splits)
      then show ?thesis using run_ok_joined [OF l(3), of env ok p' st] Some r by simp
    qed
  qed
qed

lemma threaded_run_returns:
  assumes s: "s_trace s = []" and fresh: "fresh_mains ms" and lock: "rn_lock env = wc_ok"
    and fair: "\<forall>i < 64. \<forall>tid < accept_calls ms. 3 \<le> steps_of tid (je_sched (rn_join env i))"
  shows "\<exists>res. wc_server_uds_threaded_run strerror pth stop lenv ms env ust s = Some res"
proof (cases "stop \<and> rn_mutex_init env = wc_ok")
  case False
  then show ?thesis by (auto simp: wc_server_uds_threaded_run_def Let_def)
next
  case True
  note unf = wc_server_uds_threaded_run_def [of strerror pth _ lenv ms env ust s, unfolded Let_def threaded_main_eqs
      workers_init_start start_pool_simps threaded_listener_eq]
  show ?thesis
  proof (rule open_listener_cases [of pth lenv s])
    fix e s1 assume "wc_uds_open_listener pth lenv s = (Inl e, s1)"
    with True show ?thesis by (simp add: unf)
  next
    fix lf x assume o: "pth = Some x" "wc_uds_open_listener pth lenv s = (Inr lf, s_emit (Ev_unlink x) (s_emit (Ev_open lf) s))"
    obtain result p1 mr p2 where
      l: "threaded_uds_main_loop strerror lf ms (start_pool (s_emit (Ev_unlink x) (s_emit (Ev_open lf) s))) = Some (result, p1)"
      "wc_tcp_request_stop (rn_lock env) (rn_unlock env) p1 = (mr, p2)"
      "pool_inv strerror {} (s_live s) (pool_emit (Ev_unlink x) (pool_emit (Ev_close lf) p2))"
      "rn_lock env = wc_ok \<longrightarrow> sv_stopping p2" "length (pl_threads p2) \<le> accept_calls ms"
      by (rule threaded_loop_start [OF s fresh])
    obtain ok p' where "wc_tcp_join_all strerror (rn_join env) (pool_emit (Ev_unlink x) (pool_emit (Ev_close lf) p2)) = Some (ok, p')"
      by (rule join_all_returns [OF l(3) _ _ fair]) (use l(4,5) lock in simp_all)
    with True o l(1,2) show ?thesis by (simp add: unf [unfolded o(1)])
  qed
qed

end
