(* ===== verification/WC_Pool_Theorems.thy ===== *)
theory WC_Pool_Theorems
  imports WC_Pool_Run
begin

text \<open>
  The properties of the threaded servers as a whole, the TCP server \<open>wc_server_tcp_run\<close> and the threaded Unix-domain
  server \<open>wc_server_uds_threaded_run\<close>: what their clients were sent, that the servers stop, and that they
  leave nothing behind. They hold for every interleaving of the workers with the main thread.
\<close>

section \<open>What a run gives\<close>

lemma run_ok_sessions:
  assumes "run_ok strerror env s st p"
  shows "(\<forall>f. \<exists>ans. prefix (session_sent f (s_trace (pl_sys p))) (concat (map (\<lambda>(t, a, d). response_frame d) ans)) \<and>
       prefix (map (\<lambda>(t, a, d). (t, a)) ans) (fst (drain request_spec (session_recv f (s_trace (pl_sys p))))) \<and>
       list_all (\<lambda>(t, a, d). length d \<le> 65535 \<and>
         (\<exists>cmds. answers strerror (s_popen (pl_sys p)) (mem_ample (pl_sys p)) t a cmds d)) ans) \<and>
     (\<forall>cmd. Ev_run cmd \<in> set (s_trace (pl_sys p)) \<longrightarrow> (\<exists>t a. request_command t a = Inr cmd))"
proof -
  have "\<forall>f. history_ok strerror (pl_sys p) f"
    "\<forall>cmd. Ev_run cmd \<in> set (s_trace (pl_sys p)) \<longrightarrow> safe_command cmd"
    using assms by (simp_all add: run_ok_def pool_inv_def)
  then show ?thesis unfolding history_ok_def answered_ok_def safe_command_def case_prod_unfold by blast
qed

lemma run_ok_released:
  assumes "run_ok strerror env s st p" "(\<forall>i. je_join (rn_join env i)) \<or> st = wc_ok"
  shows "(\<forall>t \<in> set (pl_threads p). t = Returned) \<and> s_live (pl_sys p) = s_live s \<and>
     fd_run {} (s_trace (pl_sys p)) = Some {}"
  using assms no_slot_in_use unfolding run_ok_def by blast

section \<open>Properties\<close>

text \<open>
  C5. The TCP server answers what it is asked. After any run of \<open>wc_server_tcp_run\<close>, however its workers and the main
  thread interleave, for every descriptor the bytes sent in its last connection are a
  prefix of the response frames, in order, of the replies to an initial part of the requests
  in the bytes received there, each reply being what the command of that request produced; and every command line run is one of a
  well-formed request.
\<close>

theorem tcp_server_sessions:
  assumes "s_trace s = []" "fresh_mains ms"
    and "wc_server_tcp_run strerror bind_address port stop lenv ms env s = Some (st, p)"
  shows "(\<forall>f. \<exists>ans. prefix (session_sent f (s_trace (pl_sys p))) (concat (map (\<lambda>(t, a, d). response_frame d) ans)) \<and>
       prefix (map (\<lambda>(t, a, d). (t, a)) ans) (fst (drain request_spec (session_recv f (s_trace (pl_sys p))))) \<and>
       list_all (\<lambda>(t, a, d). length d \<le> 65535 \<and>
         (\<exists>cmds. answers strerror (s_popen (pl_sys p)) (mem_ample (pl_sys p)) t a cmds d)) ans) \<and>
     (\<forall>cmd. Ev_run cmd \<in> set (s_trace (pl_sys p)) \<longrightarrow> (\<exists>t a. request_command t a = Inr cmd))"
  by (rule run_ok_sessions [OF tcp_run_ok [OF assms]])

text \<open>
  C6. The TCP server leaves nothing behind. When \<open>wc_server_tcp_run\<close> returns and reports success, or no call of \<open>pthread_join\<close> failed,
  every worker thread it created has returned, no memory is left allocated, and every descriptor was opened while closed, used and
  closed while open, and is closed at the end.
\<close>

theorem tcp_server_releases:
  assumes "s_trace s = []" "fresh_mains ms" "(\<forall>i. je_join (rn_join env i)) \<or> st = wc_ok"
    and "wc_server_tcp_run strerror bind_address port stop lenv ms env s = Some (st, p)"
  shows "(\<forall>t \<in> set (pl_threads p). t = Returned) \<and> s_live (pl_sys p) = s_live s \<and>
     fd_run {} (s_trace (pl_sys p)) = Some {}"
  by (rule run_ok_released [OF tcp_run_ok [OF assms(1,2,4)] assms(3)])

text \<open>
  C7. The TCP server stops. When the stop flag can be set under the lock and every thread gets at least three
  steps while the main thread waits for a worker to return, \<open>wc_server_tcp_run\<close> returns: three
  steps are enough for a thread to see the flag, close its connection and finish.
\<close>

theorem tcp_server_stops:
  assumes "s_trace s = []" "fresh_mains ms" "rn_lock env = wc_ok"
    and "\<forall>i < 64. \<forall>tid < accept_calls ms. 3 \<le> steps_of tid (je_sched (rn_join env i))"
  shows "\<exists>st p. wc_server_tcp_run strerror bind_address port stop lenv ms env s = Some (st, p)"
  using tcp_run_returns [OF assms, of strerror bind_address port stop lenv] by auto

text \<open>
  C16. The main loop of the TCP server keeps the invariant of the server, for any interleaving of the workers and
  any results of the calls, and always returns: a slot in use has its own thread, a thread that has not returned keeps its
  slot, the open descriptors are the listener and one per running connection, the
  memory in use is what the buffers of the running threads own, and every session is right.
\<close>

theorem tcp_loop_invariant:
  assumes "pool_inv strerror {lf} m p" "fresh_mains ms"
  shows "\<exists>st p'. tcp_main_loop strerror lf ms p = Some (st, p') \<and> pool_inv strerror {lf} m p' \<and>
     length (pl_threads p') \<le> length (pl_threads p) + accept_calls ms"
  using tcp_pool.loop_keeps [OF assms] by (auto simp: grown_def)

text \<open>
  C9. The threaded Unix-domain server answers what it is asked: after any run of \<open>wc_server_uds_threaded_run\<close>, for any
  interleaving, the bytes sent in the last connection of every descriptor are a prefix (the last frame may be cut off) of the
  response frames of the replies to an initial part of the requests received there, in order, and every command line run is
  that of a request with a valid type and argument.
\<close>

theorem threaded_server_sessions:
  assumes "s_trace s = []" "fresh_mains ms"
    and "wc_server_uds_threaded_run strerror socket_path stop lenv ms env ust s = Some (st, p)"
  shows "(\<forall>f. \<exists>ans. prefix (session_sent f (s_trace (pl_sys p))) (concat (map (\<lambda>(t, a, d). response_frame d) ans)) \<and>
       prefix (map (\<lambda>(t, a, d). (t, a)) ans) (fst (drain request_spec (session_recv f (s_trace (pl_sys p))))) \<and>
       list_all (\<lambda>(t, a, d). length d \<le> 65535 \<and>
         (\<exists>cmds. answers strerror (s_popen (pl_sys p)) (mem_ample (pl_sys p)) t a cmds d)) ans) \<and>
     (\<forall>cmd. Ev_run cmd \<in> set (s_trace (pl_sys p)) \<longrightarrow> (\<exists>t a. request_command t a = Inr cmd))"
  by (rule run_ok_sessions [OF threaded_run_ok [OF assms]])

text \<open>
  C8. The threaded Unix-domain server stops and leaves nothing behind. When the stop flag can be set, every thread
  gets three steps while the main thread waits for it and no call of \<open>pthread_join\<close> fails, \<open>wc_server_uds_threaded_run\<close>
  returns with every thread returned, no memory left allocated and every descriptor closed.
\<close>

theorem threaded_server_releases:
  assumes "s_trace s = []" "fresh_mains ms" "rn_lock env = wc_ok"
    and "\<forall>i < 64. \<forall>tid < accept_calls ms. 3 \<le> steps_of tid (je_sched (rn_join env i))"
    and "\<forall>i. je_join (rn_join env i)"
  shows "\<exists>st p. wc_server_uds_threaded_run strerror socket_path stop lenv ms env ust s = Some (st, p) \<and>
     (\<forall>t \<in> set (pl_threads p). t = Returned) \<and> s_live (pl_sys p) = s_live s \<and> fd_run {} (s_trace (pl_sys p)) = Some {}"
proof -
  obtain st p where r: "wc_server_uds_threaded_run strerror socket_path stop lenv ms env ust s = Some (st, p)"
    using threaded_run_returns [OF assms(1-4), of strerror socket_path stop lenv ust] by auto
  from run_ok_released [OF threaded_run_ok [OF assms(1,2) r] disjI1 [OF assms(5)]] r show ?thesis by blast
qed

section \<open>Witnesses\<close>

text \<open>One client that asks for the date and is answered, and a server that then stops.\<close>

definition demo_worker_env :: worker_env where
  "demo_worker_env = \<lparr>we_lock = True, we_unlock = True, we_stopping = False, we_poll = Poll_events 1,
     we_read = Read_bytes [0, 6, 0, 2, 0, 0], we_send = Send_bytes 1\<rparr>"

definition demo_accept :: accept_env where
  "demo_accept = \<lparr>ae_sched = [], ae_accept = Accept_fd next_fd 2 [],
     ae_reap = (\<lambda>_. \<lparr>re_sched = [], re_lock = True, re_unlock = True, re_join = True\<rparr>),
     ae_start = \<lparr>sg_sigset = wc_ok, sg_mask = wc_ok, sg_create = wc_ok\<rparr>\<rparr>"

definition demo_main :: main_env where
  "demo_main = \<lparr>me_reap = (\<lambda>_. \<lparr>re_sched = [(0, demo_worker_env)], re_lock = True, re_unlock = True, re_join = True\<rparr>),
     me_sched = [(0, demo_worker_env)], me_poll = Inr 1, me_accepts = [demo_accept]\<rparr>"

definition demo_run :: run_env where
  "demo_run = \<lparr>rn_mutex_init = wc_ok, rn_lock = wc_ok, rn_unlock = wc_ok, rn_close = wc_ok,
     rn_join = (\<lambda>_. \<lparr>je_sched = concat (replicate 3 [(0, demo_worker_env), (1, demo_worker_env)]), je_join = True\<rparr>),
     rn_mutex_destroy = wc_ok\<rparr>"

definition demo_tcp :: tcp_listener_env where
  "demo_tcp = \<lparr>tl_pton = Inr True, tl_socket = Inr 3, tl_setsockopt = wc_ok, tl_flags = 2, tl_fcntl = [],
     tl_bind = wc_ok, tl_listen = wc_ok\<rparr>"

lemma demo_run_facts:
  "s_trace (sys0 :: unit sys) = []" "fresh_mains [demo_main, demo_main]" "rn_lock demo_run = wc_ok"
  "\<forall>i < 64. \<forall>tid < accept_calls [demo_main, demo_main]. 3 \<le> steps_of tid (je_sched (rn_join demo_run i))"
  "\<forall>i. je_join (rn_join demo_run i)" "s_live (sys0 :: unit sys) = 0"
proof -
  show "\<forall>i < 64. \<forall>tid < accept_calls [demo_main, demo_main]. 3 \<le> steps_of tid (je_sched (rn_join demo_run i))"
    by (auto simp: accept_calls_def demo_main_def demo_run_def numeral_3_eq_3 less_Suc_eq)
qed (use next_fd_fresh in \<open>simp_all add: sys0_def demo_main_def demo_accept_def demo_run_def fresh_accept_def\<close>)

theorem tcp_server_sessions_witness:
  "\<exists>st p. wc_server_tcp_run (\<lambda>_. []) (Some [48]) 80 True demo_tcp [demo_main, demo_main] demo_run sys0 = Some (st, p) \<and>
     (\<forall>cmd. Ev_run cmd \<in> set (s_trace (pl_sys p)) \<longrightarrow> (\<exists>t a. request_command t a = Inr cmd))"
proof -
  obtain st p where r: "wc_server_tcp_run (\<lambda>_. []) (Some [48]) 80 True demo_tcp [demo_main, demo_main] demo_run sys0 = Some (st, p)"
    using tcp_run_returns [OF demo_run_facts(1-4)] by fastforce
  from tcp_server_sessions [OF demo_run_facts(1,2) r] r show ?thesis by blast
qed

theorem tcp_server_releases_witness:
  "\<exists>st p. wc_server_tcp_run (\<lambda>_. []) (Some [48]) 80 True demo_tcp [demo_main, demo_main] demo_run sys0 = Some (st, p) \<and>
     s_live (pl_sys p) = 0 \<and> fd_run {} (s_trace (pl_sys p)) = Some {}"
proof -
  obtain st p where r: "wc_server_tcp_run (\<lambda>_. []) (Some [48]) 80 True demo_tcp [demo_main, demo_main] demo_run sys0 = Some (st, p)"
    using tcp_run_returns [OF demo_run_facts(1-4)] by fastforce
  from tcp_server_releases [OF demo_run_facts(1,2) disjI1 [OF demo_run_facts(5)] r] r demo_run_facts(6) show ?thesis by simp
qed

theorem tcp_server_stops_witness:
  "\<exists>st p. wc_server_tcp_run (\<lambda>_. []) (Some [48]) 80 True demo_tcp [demo_main, demo_main] demo_run sys0 = Some (st, p)"
  by (rule tcp_server_stops [OF demo_run_facts(1-4)])

theorem tcp_loop_invariant_witness:
  "\<exists>st p. tcp_main_loop (\<lambda>_. []) 3 [demo_main, demo_main] (start_pool (s_emit (Ev_open 3) sys0)) = Some (st, p) \<and>
     pool_inv (\<lambda>_. []) {3} 0 p \<and> length (pl_threads p) \<le> 2"
proof -
  have "pool_inv (\<lambda>_. []) {3} (s_live (s_emit (Ev_open 3) (sys0 :: unit sys))) (start_pool (s_emit (Ev_open 3) sys0))"
    by (rule start_pool_inv [of _ _ "[]"]) (simp_all add: sys0_def)
  moreover have "accept_calls [demo_main, demo_main] = 2" by (simp add: accept_calls_def demo_main_def)
  ultimately show ?thesis
    using tcp_loop_invariant [OF _ demo_run_facts(2), of "\<lambda>_. []" 3 0 "start_pool (s_emit (Ev_open 3) sys0)"] demo_run_facts(6)
    by (simp del: tcp_main_loop.simps add: numeral_2_eq_2)
qed

theorem threaded_server_sessions_witness:
  "\<exists>st p. wc_server_uds_threaded_run (\<lambda>_. []) (Some [47, 115]) True demo_env [demo_main, demo_main] demo_run wc_ok sys0 = Some (st, p) \<and>
     (\<forall>cmd. Ev_run cmd \<in> set (s_trace (pl_sys p)) \<longrightarrow> (\<exists>t a. request_command t a = Inr cmd))"
proof -
  obtain st p where r: "wc_server_uds_threaded_run (\<lambda>_. []) (Some [47, 115]) True demo_env [demo_main, demo_main] demo_run wc_ok sys0 =
      Some (st, p)"
    using threaded_run_returns [OF demo_run_facts(1-4)] by fastforce
  from threaded_server_sessions [OF demo_run_facts(1,2) r] r show ?thesis by blast
qed

theorem threaded_server_releases_witness:
  "\<exists>st p. wc_server_uds_threaded_run (\<lambda>_. []) (Some [47, 115]) True demo_env [demo_main, demo_main] demo_run wc_ok sys0 = Some (st, p) \<and>
     s_live (pl_sys p) = 0 \<and> fd_run {} (s_trace (pl_sys p)) = Some {}"
  using threaded_server_releases [OF demo_run_facts(1-5), of "\<lambda>_. []" "Some [47, 115]" True demo_env wc_ok] demo_run_facts(6)
  by auto

end
