(* ===== verification/WC_Lifecycle.thy ===== *)
theory WC_Lifecycle
  imports WC_Pool_Theorems
begin

text \<open>
  The life of a worker thread as a step relation: it starts in its slot, serves one connection with one descriptor,
  closes it, marks its slot as finished and returns. The steps of the threads of both threaded servers, in any order, follow
  this relation, and a slot is given to a new thread only after the thread that had it has returned.
\<close>

inductive lifecycle :: "thread \<Rightarrow> thread \<Rightarrow> bool" where
  starts: "lifecycle (Starting w) (Running w f i b)"
| gives_up: "lifecycle (Starting w) (Closed w)"
| serves: "lifecycle (Running w f i b) (Running w f i' b')"
| closes: "lifecycle (Running w f i b) (Closed w)"
| finishes: "lifecycle (Closed w) Returned"

inductive_cases lifecycle_ReturnedE: "lifecycle Returned t"
inductive_cases lifecycle_ClosedE: "lifecycle (Closed w) t"
inductive_cases lifecycle_RunningE: "lifecycle (Running w f i b) t"

inductive_simps lifecycle_simps:
  "lifecycle (Starting w) t" "lifecycle (Running w f i b) t" "lifecycle (Closed w) t" "lifecycle Returned t"

abbreviation lifecycles :: "thread \<Rightarrow> thread \<Rightarrow> bool" where
  "lifecycles \<equiv> lifecycle\<^sup>*\<^sup>*"

lemma lifecycle_slot: "lifecycle t t' \<Longrightarrow> thread_slot t' = thread_slot t \<or> thread_slot t' = None"
  by (induction rule: lifecycle.induct) auto

lemma lifecycles_slot: "lifecycles t t' \<Longrightarrow> thread_slot t' = thread_slot t \<or> thread_slot t' = None"
proof (induction rule: rtranclp_induct)
  case (step u v)
  have "thread_slot u = None \<Longrightarrow> thread_slot v = None" using step.hyps(2) by (cases u) (auto elim: lifecycle_ReturnedE)
  with step.IH lifecycle_slot [OF step.hyps(2)] show ?case by auto
qed simp

lemma lifecycles_Returned: "lifecycles Returned t \<Longrightarrow> t = Returned"
  by (induction rule: rtranclp_induct) (auto elim: lifecycle_ReturnedE)

lemma lifecycles_Closed: "lifecycles (Closed w) t \<Longrightarrow> t = Closed w \<or> t = Returned"
  by (induction rule: rtranclp_induct) (auto elim: lifecycle_ClosedE lifecycle_ReturnedE)

text \<open>A connection is served on one descriptor from the first step to the last.\<close>

lemma lifecycles_Running:
  "lifecycles (Running w f i b) t \<Longrightarrow> (\<exists>i' b'. t = Running w f i' b') \<or> t = Closed w \<or> t = Returned"
  by (induction rule: rtranclp_induct) (auto elim: lifecycle_RunningE lifecycle_ClosedE lifecycle_ReturnedE)

lemma thread_step_lifecycle:
  assumes "tcp_thread_step strerror j env p = Some p'" "tid < length (pl_threads p)"
  shows "length (pl_threads p') = length (pl_threads p)" "lifecycles (pl_threads p ! tid) (pl_threads p' ! tid)"
proof -
  have "pl_threads p' = pl_threads p \<or> (\<exists>t. lifecycle (pl_threads p ! j) t \<and> pl_threads p' = (pl_threads p)[j := t])"
    using assms(1) unfolding tcp_thread_step_def Let_def set_thread_def
    by (cases "pl_threads p ! j") (auto intro: lifecycle.intros split: if_splits prod.splits sum.splits Option.bind_splits)
  then show "length (pl_threads p') = length (pl_threads p)" "lifecycles (pl_threads p ! tid) (pl_threads p' ! tid)"
    using assms(2) by (cases "tid = j"; auto)+
qed

lemma run_threads_lifecycle:
  assumes "run_threads strerror sched p = Some p'" "tid < length (pl_threads p)"
  shows "length (pl_threads p') = length (pl_threads p) \<and> lifecycles (pl_threads p ! tid) (pl_threads p' ! tid)"
  using assms
proof (induction strerror sched p rule: run_threads.induct)
  case (2 strerror j env sched p)
  then obtain p1 where p1: "tcp_thread_step strerror j env p = Some p1" "run_threads strerror sched p1 = Some p'"
    by (auto split: Option.bind_splits)
  note S = thread_step_lifecycle [OF p1(1) "2.prems"(2)]
  have "length (pl_threads p') = length (pl_threads p1) \<and> lifecycles (pl_threads p1 ! tid) (pl_threads p' ! tid)"
    by (rule "2.IH" [OF p1]) (use S(1) "2.prems"(2) in simp)
  with S show ?case by (metis rtranclp_trans)
qed simp

section \<open>Properties\<close>

text \<open>
  C17. Worker threads follow their life cycle, and slots are reused safely. In a state of the TCP server that satisfies the
  invariant, however the workers have interleaved before, a worker started by \<open>wc_tcp_start_worker\<close> gets a slot that no
  thread still holds; from then on, along any schedule, every thread follows \<open>lifecycle\<close>, so the new thread keeps its slot
  until it returns.
\<close>

theorem tcp_slot_reuse:
  assumes "pool_inv strerror L m p" "wc_tcp_start_worker env f p = (wc_ok, p1)" "run_threads strerror sched p1 = Some p'"
  shows "\<exists>i < 64. pl_threads p1 = pl_threads p @ [Starting i] \<and> wk_client_fd (sv_workers p1 ! i) = f \<and>
     (\<forall>t \<in> set (pl_threads p). thread_slot t \<noteq> Some i) \<and>
     (\<forall>tid < length (pl_threads p1). lifecycles (pl_threads p1 ! tid) (pl_threads p' ! tid)) \<and>
     thread_slot (pl_threads p' ! length (pl_threads p)) \<in> {Some i, None}"
proof -
  have T: "table_ok p" using assms(1) by (simp add: pool_inv_def)
  obtain i where i: "tcp_free_slot (sv_workers p) = Some i" "pl_threads p1 = pl_threads p @ [Starting i]"
      "sv_workers p1 = (sv_workers p)[i := (sv_workers p ! i)\<lparr>wk_client_fd := f, wk_finished := False, wk_in_use := True,
         wk_thread := length (pl_threads p)\<rparr>]"
    using assms(2) by (auto simp: wc_tcp_start_worker_def Let_def split: option.splits if_splits)
  have free: "i < length (sv_workers p)" "\<not> wk_in_use (sv_workers p ! i)" using free_slot_spec(1) [OF i(1)] by auto
  have none: "thread_slot t \<noteq> Some i" if "t \<in> set (pl_threads p)" for t
  proof
    assume "thread_slot t = Some i"
    moreover obtain tid where "tid < length (pl_threads p)" "pl_threads p ! tid = t" using \<open>t \<in> set (pl_threads p)\<close> by (auto simp: in_set_conv_nth)
    ultimately have "wk_in_use (sv_workers p ! i)" using T unfolding table_ok_def by blast
    with free(2) show False ..
  qed
  have life: "lifecycles (pl_threads p1 ! tid) (pl_threads p' ! tid)" if "tid < length (pl_threads p1)" for tid
    using run_threads_lifecycle [OF assms(3) that] by simp
  have "thread_slot (pl_threads p' ! length (pl_threads p)) \<in> {Some i, None}"
    using lifecycles_slot [OF life, of "length (pl_threads p)"] by (simp add: i(2))
  then show ?thesis using i(2,3) none life free(1) T by (intro exI [of _ i]) (auto simp: table_ok_def)
qed

section \<open>Witnesses\<close>

theorem tcp_slot_reuse_witness:
  "\<exists>p1 p'. wc_tcp_start_worker \<lparr>sg_sigset = wc_ok, sg_mask = wc_ok, sg_create = wc_ok\<rparr> 4 (start_pool (s_emit (Ev_open 3) sys0)) = (wc_ok, p1) \<and>
     run_threads (\<lambda>_. []) [] p1 = Some p' \<and> lifecycles (pl_threads p1 ! 0) (pl_threads p' ! 0)"
proof -
  let ?p = "start_pool (s_emit (Ev_open 3) sys0)"
  have inv: "pool_inv (\<lambda>_. []) {3} (s_live (s_emit (Ev_open 3) (sys0 :: unit sys))) ?p"
    by (rule start_pool_inv [of _ _ "[]"]) (simp_all add: sys0_def)
  have "\<exists>p1. wc_tcp_start_worker \<lparr>sg_sigset = wc_ok, sg_mask = wc_ok, sg_create = wc_ok\<rparr> 4 ?p = (wc_ok, p1)"
    by (simp add: wc_tcp_start_worker_def start_pool_def Let_def numeral_eq_Suc)
  then obtain p1 where r: "wc_tcp_start_worker \<lparr>sg_sigset = wc_ok, sg_mask = wc_ok, sg_create = wc_ok\<rparr> 4 ?p = (wc_ok, p1)" ..
  have "run_threads (\<lambda>_. []) [] p1 = Some p1" by simp
  from tcp_slot_reuse [OF inv r this] r this show ?thesis by auto
qed

end
