(* ===== verification/WC_Options.thy ===== *)
theory WC_Options
  imports WC_Logging "HOL-Library.Sublist"
begin

text \<open>
  The command lines of the programs: port numbers and log levels, and the option loops of the
  client (\<^verbatim>\<open>src/src/main_client.c\<close>) and of the three servers (\<^verbatim>\<open>src/src/main_tcp.c\<close>,
  \<^verbatim>\<open>src/src/main_uds.c\<close>, \<^verbatim>\<open>src/src/main_uds_threaded.c\<close>). An argument is the list of its bytes before the
  terminator. The programs never call \<open>setlocale\<close>, so \<open>strtoul\<close> and \<open>strcasecmp\<close> are those of the C locale.

  The lemmas say which texts are ports, that every level name the logger prints is read back as that level, and that the
  options a program goes on with are well typed.
\<close>

section \<open>Functions of the C library\<close>

definition c_isspace :: "byte \<Rightarrow> bool" where
  "c_isspace b \<longleftrightarrow> b = 32 \<or> (9 \<le> b \<and> b \<le> 13)"

definition c_isdigit :: "byte \<Rightarrow> bool" where
  "c_isdigit b \<longleftrightarrow> 48 \<le> b \<and> b \<le> 57"

definition c_tolower :: "byte \<Rightarrow> byte" where
  "c_tolower b = (if 65 \<le> b \<and> b \<le> 90 then b + 32 else b)"

text \<open>Whether \<open>strcasecmp (a, b)\<close> is 0.\<close>

definition c_strcasecmp_eq :: "byte list \<Rightarrow> byte list \<Rightarrow> bool" where
  "c_strcasecmp_eq a b \<longleftrightarrow> map c_tolower a = map c_tolower b"

definition decimal :: "byte list \<Rightarrow> nat" where
  "decimal ds = foldl (\<lambda>v d. 10 * v + (unat d - 48)) 0 ds"

text \<open>
  \<open>strtoul (text, &end, 10)\<close>: white space, an optional sign and digits. The result, the text at \<open>end\<close> and whether
  \<open>errno\<close> is set. A number with a minus sign is negated in \<open>unsigned long\<close>; one that is too large gives
  \<open>ULONG_MAX\<close> and \<open>ERANGE\<close>; without digits the result is 0 and \<open>end\<close> is \<open>text\<close>.
\<close>

definition c_strtoul :: "byte list \<Rightarrow> 64 word \<times> byte list \<times> bool" where
  "c_strtoul text =
     (let t = dropWhile c_isspace text;
          negative = (t \<noteq> [] \<and> hd t = 45);
          u = (if t \<noteq> [] \<and> (hd t = 43 \<or> hd t = 45) then tl t else t);
          digits = takeWhile c_isdigit u;
          v = decimal digits in
      if digits = [] then (0, text, False)
      else if v \<ge> 18446744073709551616 then (- 1, dropWhile c_isdigit u, True)
      else (if negative then - of_nat v else of_nat v, dropWhile c_isdigit u, False))"

section \<open>Ports and log levels\<close>

definition wc_client_parse_port :: "byte list \<Rightarrow> errno + uint16" where
  "wc_client_parse_port text =
     (let (v, end, failed) = c_strtoul text in
      if failed \<or> text = [] \<or> end \<noteq> [] \<or> v = 0 \<or> v > 65535 then Inl EINVAL
      else Inr (ucast v))"

definition wc_tcp_parse_port :: "byte list \<Rightarrow> errno + uint16" where
  "wc_tcp_parse_port text =
     (let (v, end, failed) = c_strtoul text in
      if failed \<or> text = [] \<or> end \<noteq> [] \<or> v = 0 \<or> v > 65535 then Inl EINVAL
      else Inr (ucast v))"

fun log_level_loop :: "byte list \<Rightarrow> byte list list \<Rightarrow> nat \<Rightarrow> errno + wc_log_level" where
  "log_level_loop text [] index = Inl EINVAL"
| "log_level_loop text (name # names) index =
     (if c_strcasecmp_eq text name then Inr (int index) else log_level_loop text names (Suc index))"

definition wc_client_parse_log_level :: "byte list \<Rightarrow> errno + wc_log_level" where
  "wc_client_parse_log_level text =
     log_level_loop text [c_str ''error'', c_str ''warn'', c_str ''info'', c_str ''debug'', c_str ''trace''] 0"

definition wc_tcp_parse_log_level :: "byte list \<Rightarrow> errno + wc_log_level" where
  "wc_tcp_parse_log_level text =
     log_level_loop text [c_str ''error'', c_str ''warn'', c_str ''info'', c_str ''debug'', c_str ''trace''] 0"

definition wc_parse_log_level :: "byte list \<Rightarrow> errno + wc_log_level" where
  "wc_parse_log_level text =
     log_level_loop text [c_str ''error'', c_str ''warn'', c_str ''info'', c_str ''debug'', c_str ''trace''] 0"

definition wc_threaded_parse_log_level :: "byte list \<Rightarrow> errno + wc_log_level" where
  "wc_threaded_parse_log_level text =
     log_level_loop text [c_str ''error'', c_str ''warn'', c_str ''info'', c_str ''debug'', c_str ''trace''] 0"

section \<open>Options of the servers\<close>

text \<open>\<open>None\<close> is the usage message and exit status 2.\<close>

record tcp_options =
  to_bind_address :: "byte list"
  to_port :: uint16
  to_log_level :: wc_log_level

fun tcp_option_loop :: "byte list list \<Rightarrow> tcp_options \<Rightarrow> tcp_options option" where
  "tcp_option_loop [] opts = Some opts"
| "tcp_option_loop [option] opts = None"
| "tcp_option_loop (option # val # rest) opts =
     (if option = c_str ''--bind'' then tcp_option_loop rest (opts\<lparr>to_bind_address := val\<rparr>)
      else if option = c_str ''--port'' then
        (case wc_tcp_parse_port val of
           Inl _ \<Rightarrow> None
         | Inr port \<Rightarrow> tcp_option_loop rest (opts\<lparr>to_port := port\<rparr>))
      else if option = c_str ''--log-level'' then
        (case wc_tcp_parse_log_level val of
           Inl _ \<Rightarrow> None
         | Inr level \<Rightarrow> tcp_option_loop rest (opts\<lparr>to_log_level := level\<rparr>))
      else None)"

definition tcp_defaults :: tcp_options where
  "tcp_defaults = \<lparr>to_bind_address = c_str ''127.0.0.1'', to_port = 9090, to_log_level = WC_LOG_INFO\<rparr>"

record uds_options =
  uo_socket_path :: "byte list"
  uo_log_level :: wc_log_level

fun uds_option_loop :: "byte list list \<Rightarrow> uds_options \<Rightarrow> uds_options option" where
  "uds_option_loop [] opts = Some opts"
| "uds_option_loop [option] opts = None"
| "uds_option_loop (option # val # rest) opts =
     (if option = c_str ''--socket'' then uds_option_loop rest (opts\<lparr>uo_socket_path := val\<rparr>)
      else if option = c_str ''--log-level'' then
        (case wc_parse_log_level val of
           Inl _ \<Rightarrow> None
         | Inr level \<Rightarrow> uds_option_loop rest (opts\<lparr>uo_log_level := level\<rparr>))
      else None)"

definition uds_defaults :: uds_options where
  "uds_defaults = \<lparr>uo_socket_path = c_str ''/tmp/wirecommand.sock'', uo_log_level = WC_LOG_INFO\<rparr>"

fun threaded_option_loop :: "byte list list \<Rightarrow> uds_options \<Rightarrow> uds_options option" where
  "threaded_option_loop [] opts = Some opts"
| "threaded_option_loop [option] opts = None"
| "threaded_option_loop (option # val # rest) opts =
     (if option = c_str ''--socket'' then threaded_option_loop rest (opts\<lparr>uo_socket_path := val\<rparr>)
      else if option = c_str ''--log-level'' then
        (case wc_threaded_parse_log_level val of
           Inl _ \<Rightarrow> None
         | Inr level \<Rightarrow> threaded_option_loop rest (opts\<lparr>uo_log_level := level\<rparr>))
      else None)"

definition threaded_defaults :: uds_options where
  "threaded_defaults = \<lparr>uo_socket_path = c_str ''/tmp/wirecommand-threaded.sock'', uo_log_level = WC_LOG_INFO\<rparr>"

section \<open>Options of the client\<close>

record client_options =
  co_socket_path :: "byte list"
  co_tcp_host :: "byte list"
  co_tcp_port :: uint16
  co_log_level :: wc_log_level
  co_socket_option_seen :: bool
  co_use_tcp :: bool

definition client_defaults :: client_options where
  "client_defaults = \<lparr>co_socket_path = c_str ''/tmp/wirecommand.sock'', co_tcp_host = c_str ''127.0.0.1'', co_tcp_port = 9090,
     co_log_level = WC_LOG_INFO, co_socket_option_seen = False, co_use_tcp = False\<rparr>"

text \<open>The loop stops at the first argument that is not an option with a value, and returns the arguments from there.\<close>

fun client_option_loop :: "byte list list \<Rightarrow> client_options \<Rightarrow> (client_options \<times> byte list list) option" where
  "client_option_loop (option # val # rest) opts =
     (if option = c_str ''--socket'' \<and> \<not> co_use_tcp opts then
        client_option_loop rest (opts\<lparr>co_socket_path := val, co_socket_option_seen := True\<rparr>)
      else if option = c_str ''--host'' \<and> \<not> co_socket_option_seen opts then
        client_option_loop rest (opts\<lparr>co_tcp_host := val, co_use_tcp := True\<rparr>)
      else if option = c_str ''--port'' \<and> \<not> co_socket_option_seen opts then
        (case wc_client_parse_port val of
           Inl _ \<Rightarrow> None
         | Inr port \<Rightarrow> client_option_loop rest (opts\<lparr>co_tcp_port := port, co_use_tcp := True\<rparr>))
      else if option = c_str ''--log-level'' then
        (case wc_client_parse_log_level val of
           Inl _ \<Rightarrow> None
         | Inr level \<Rightarrow> client_option_loop rest (opts\<lparr>co_log_level := level\<rparr>))
      else Some (opts, option # val # rest))"
| "client_option_loop args opts = Some (opts, args)"

section \<open>Lemmas\<close>

lemmas [wc_defs] = c_isspace_def c_isdigit_def c_tolower_def

lemma parse_port_eq: "wc_tcp_parse_port = wc_client_parse_port"
  by (rule ext) (simp only: wc_tcp_parse_port_def wc_client_parse_port_def)

lemma parse_log_level_eqs:
  "wc_tcp_parse_log_level = wc_client_parse_log_level" "wc_parse_log_level = wc_client_parse_log_level"
  "wc_threaded_parse_log_level = wc_client_parse_log_level"
  by (intro ext, simp only: wc_client_parse_log_level_def wc_tcp_parse_log_level_def wc_parse_log_level_def
      wc_threaded_parse_log_level_def)+

text \<open>The parts of a number: white space, a sign and digits.\<close>

definition number_text :: "byte list \<Rightarrow> byte list \<Rightarrow> byte list \<Rightarrow> byte list \<Rightarrow> bool" where
  "number_text text blanks sign digits \<longleftrightarrow> text = blanks @ sign @ digits \<and> list_all c_isspace blanks \<and>
     sign \<in> {[], [43], [45]} \<and> digits \<noteq> [] \<and> list_all c_isdigit digits"

lemma digit_facts: "c_isdigit b \<Longrightarrow> \<not> c_isspace b \<and> b \<noteq> 43 \<and> b \<noteq> 45"
  by (auto simp: wc_defs wc_size)

lemma strtoul_number:
  assumes "number_text text blanks sign digits"
  shows "c_strtoul text = (if decimal digits \<ge> 18446744073709551616 then (- 1, [], True)
     else (if sign = [45] then - of_nat (decimal digits) else of_nat (decimal digits), [], False))"
proof -
  have parts: "list_all c_isspace blanks" "sign \<in> {[], [43], [45]}" "digits \<noteq> []" "list_all c_isdigit digits"
    using assms by (simp_all add: number_text_def)
  obtain d ds where d: "digits = d # ds" "c_isdigit d" using parts(3,4) by (cases digits) auto
  have "dropWhile c_isspace (blanks @ sign @ digits) = dropWhile c_isspace (sign @ digits)"
    using parts(1) by (simp add: dropWhile_append list_all_iff)
  also have "\<dots> = sign @ digits" using parts(2) digit_facts [OF d(2)] d(1) by (auto simp: c_isspace_def)
  finally have t: "dropWhile c_isspace text = sign @ digits" using assms by (simp add: number_text_def)
  have u: "(if sign @ digits \<noteq> [] \<and> (hd (sign @ digits) = 43 \<or> hd (sign @ digits) = 45) then tl (sign @ digits) else sign @ digits) = digits"
    "(sign @ digits \<noteq> [] \<and> hd (sign @ digits) = 45) \<longleftrightarrow> sign = [45]"
    using parts(2) digit_facts [OF d(2)] d(1) by auto
  have w: "takeWhile c_isdigit digits = digits" "dropWhile c_isdigit digits = []"
    using parts(4) by (simp_all add: list_all_iff)
  show ?thesis unfolding c_strtoul_def Let_def t u w if_not_P [OF parts(3)] ..
qed

lemma strtoul_whole:
  assumes "c_strtoul text = (v, [], failed)" "text \<noteq> []"
  obtains blanks sign digits where "number_text text blanks sign digits"
proof -
  define t where "t = dropWhile c_isspace text"
  define u where "u = (if t \<noteq> [] \<and> (hd t = 43 \<or> hd t = 45) then tl t else t)"
  define sign where "sign = (if t \<noteq> [] \<and> (hd t = 43 \<or> hd t = 45) then [hd t] else [])"
  have "takeWhile c_isdigit u \<noteq> []" "dropWhile c_isdigit u = []"
    using assms unfolding c_strtoul_def t_def [symmetric] u_def [symmetric] Let_def
    by (auto split: if_splits)
  then have "u \<noteq> []" "list_all c_isdigit u" by (auto simp: list_all_iff)
  moreover have "t = sign @ u" "sign \<in> {[], [43], [45]}" unfolding sign_def u_def by auto
  moreover have "text = takeWhile c_isspace text @ t" unfolding t_def by simp
  moreover have "list_all c_isspace (takeWhile c_isspace text)" by (auto simp: list_all_iff dest: set_takeWhileD)
  ultimately show thesis using that [of "takeWhile c_isspace text" sign u] unfolding number_text_def by simp
qed

lemma port_not_huge: "\<not> 18446744073709551616 \<le> unat (p :: uint16)" "unat p \<noteq> 18446744073709551616"
  using unat_u16_bound [of p] by linarith+

lemma port_word:
  assumes "v \<noteq> 0" "v \<le> 65535"
  shows "(ucast (v :: 64 word) :: uint16) = p \<longleftrightarrow> p \<noteq> 0 \<and> unat v = unat p"
proof -
  have v: "unat v \<le> 65535" "unat v \<noteq> 0" using assms by (simp_all add: wc_size)
  have "unat (ucast v :: uint16) = unat v" using v(1) by (simp add: unsigned_ucast_eq take_bit_eq_mod)
  then show ?thesis using v(2) by (metis unat_eq_zero word_unat_eq_iff)
qed

lemma port_value:
  assumes "n < 18446744073709551616"
  shows "((of_nat n :: 64 word) \<noteq> 0 \<and> of_nat n \<le> (65535 :: 64 word) \<and> (ucast (of_nat n :: 64 word) :: uint16) = p) \<longleftrightarrow>
      p \<noteq> 0 \<and> n = unat p" (is ?pos)
    and "((- of_nat n :: 64 word) \<noteq> 0 \<and> - of_nat n \<le> (65535 :: 64 word) \<and> (ucast (- of_nat n :: 64 word) :: uint16) = p) \<longleftrightarrow>
      p \<noteq> 0 \<and> n + unat p = 18446744073709551616" (is ?neg)
proof -
  have u: "unat (of_nat n :: 64 word) = n" using assms by simp
  have pos: "(v \<noteq> 0 \<and> v \<le> 65535 \<and> (ucast v :: uint16) = p) \<longleftrightarrow> p \<noteq> 0 \<and> unat v = unat p" for v :: "64 word"
    using port_word [of v p] unat_u16_le [of p] unat_eq_zero [of p] unat_eq_zero [of v] unfolding word_le_nat_alt by fastforce
  show ?pos unfolding pos u ..
  have m: "unat (- of_nat n :: 64 word) = (if n = 0 then 0 else 18446744073709551616 - n)"
    using u unat_sub_if' [of 0 "of_nat n :: 64 word"] by simp
  show ?neg unfolding pos m using assms port_not_huge [of p] unat_eq_zero [of p] by auto
qed

lemma parse_port_number:
  assumes "number_text text blanks sign digits"
  shows "wc_client_parse_port text = Inr p \<longleftrightarrow> p \<noteq> 0 \<and>
     (if sign = [45] then decimal digits + unat p = 18446744073709551616 else decimal digits = unat p)"
proof -
  have ne: "text \<noteq> []" using assms by (auto simp: number_text_def)
  show ?thesis
  proof (cases "decimal digits \<ge> 18446744073709551616")
    case True
    then show ?thesis using port_not_huge [of p] unat_eq_zero [of p] strtoul_number [OF assms]
      by (auto simp: wc_client_parse_port_def)
  next
    case False
    then have n: "decimal digits < 18446744073709551616" by simp
    show ?thesis
      using port_value [OF n, of p] ne False unfolding wc_client_parse_port_def strtoul_number [OF assms] Let_def
      by (auto simp: not_less split: if_splits)
  qed
qed

lemma parse_port_nonzero: "wc_client_parse_port text = Inr p \<Longrightarrow> p \<noteq> 0"
  using port_word by (fastforce simp: wc_client_parse_port_def not_less split: prod.splits if_splits)

lemma level_loop_valid:
  assumes "log_level_loop text names i = Inr level"
  shows "int i \<le> level \<and> level < int (i + length names)"
  using assms by (induction names arbitrary: i) (fastforce split: if_splits)+

lemma parse_log_level_valid: "wc_client_parse_log_level text = Inr level \<Longrightarrow> wc_log_level_valid level"
  using level_loop_valid unfolding wc_client_parse_log_level_def by (fastforce simp: wc_log_level_valid_def)

lemma client_loop_typed:
  assumes "client_option_loop args opts = Some (opts', rest)" "wc_log_level_valid (co_log_level opts)"
    "co_tcp_port opts \<noteq> 0" "\<not> (co_socket_option_seen opts \<and> co_use_tcp opts)"
  shows "wc_log_level_valid (co_log_level opts') \<and> co_tcp_port opts' \<noteq> 0 \<and>
     \<not> (co_socket_option_seen opts' \<and> co_use_tcp opts') \<and> suffix rest args"
  using assms
proof (induction args opts rule: client_option_loop.induct)
  case (1 option val more opts)
  have s: "suffix rest more \<Longrightarrow> suffix rest (option # val # more)" by (simp add: suffix_Cons)
  show ?case
  proof (cases "option = c_str ''--socket'' \<and> \<not> co_use_tcp opts")
    case True
    with 1 s show ?thesis by simp
  next
    case socket: False
    show ?thesis
    proof (cases "option = c_str ''--host'' \<and> \<not> co_socket_option_seen opts")
      case True
      with socket 1(2) "1.prems" s show ?thesis by auto
    next
      case host: False
      show ?thesis
      proof (cases "option = c_str ''--port'' \<and> \<not> co_socket_option_seen opts")
        case True
        with socket host 1(3) "1.prems" s show ?thesis
          by (cases "wc_client_parse_port val") (auto simp: parse_port_nonzero)
      next
        case port: False
        with socket host 1(4) "1.prems" s show ?thesis
          by (cases "option = c_str ''--log-level''"; cases "wc_client_parse_log_level val")
             (auto simp: parse_log_level_valid)
      qed
    qed
  qed
qed auto

section \<open>Properties\<close>

text \<open>
  C37. Which texts are ports: \<open>wc_client_parse_port\<close> returns the port \<open>p\<close>, which is never 0, exactly for white space,
  an optional sign and digits whose value is \<open>p\<close> or, after a minus sign, \<open>2 ^ 64 - p\<close>. Nothing may
  follow the digits, and leading zeros are allowed.
\<close>

theorem parse_port_accepts_iff:
  "wc_client_parse_port text = Inr p \<longleftrightarrow> p \<noteq> 0 \<and> (\<exists>blanks sign digits. number_text text blanks sign digits \<and>
     (if sign = [45] then decimal digits + unat p = 18446744073709551616 else decimal digits = unat p))"
proof
  assume r: "wc_client_parse_port text = Inr p"
  then obtain v failed where "c_strtoul text = (v, [], failed)" "text \<noteq> []"
    by (auto simp: wc_client_parse_port_def split: prod.splits if_splits)
  then obtain blanks sign digits where n: "number_text text blanks sign digits" by (rule strtoul_whole)
  with r show "p \<noteq> 0 \<and> (\<exists>blanks sign digits. number_text text blanks sign digits \<and>
     (if sign = [45] then decimal digits + unat p = 18446744073709551616 else decimal digits = unat p))"
    using parse_port_number [OF n] by blast
qed (use parse_port_number in blast)

text \<open>A negative number that the usage message (\<open>--port 1-65535\<close>) excludes and the parser accepts.\<close>

lemma parse_port_negative: "wc_client_parse_port (c_str ''-18446744073709551615'') = Inr 1"
  by (simp add: wc_client_parse_port_def c_strtoul_def c_str_def wc_defs decimal_def of_char_def)

text \<open>
  Every name under which the logger prints a level is read back as that level by \<open>--log-level\<close>, since letters are
  compared without regard to case.
\<close>

theorem log_level_roundtrip:
  assumes "wc_log_level_valid level"
  shows "wc_client_parse_log_level (wc_log_level_name level) = Inr level"
proof -
  have "level \<in> {0, 1, 2, 3, 4}" using assms by (auto simp: wc_log_level_valid_def)
  then show ?thesis
    by (auto simp: wc_log_level_name_def wc_log_level_valid_def wc_client_parse_log_level_def c_strcasecmp_eq_def
        c_str_def of_char_def wc_defs)
qed

text \<open>
  C36. The options the client goes on with are well typed: the level is one of the five, the port is not 0, the transports
  do not mix (a socket path together with a host or port), and the arguments left are a
  suffix of the command line.
\<close>

theorem client_options_typed:
  assumes "client_option_loop args client_defaults = Some (opts, rest)"
  shows "wc_log_level_valid (co_log_level opts) \<and> co_tcp_port opts \<noteq> 0 \<and>
     \<not> (co_socket_option_seen opts \<and> co_use_tcp opts) \<and> suffix rest args"
  by (rule client_loop_typed [OF assms]) (simp_all add: client_defaults_def wc_log_level_valid_def)

section \<open>Witnesses\<close>

theorem log_level_roundtrip_witness:
  "wc_log_level_name 3 = c_str ''DEBUG'' \<and> wc_client_parse_log_level (c_str ''DEBUG'') = Inr 3"
proof -
  have v: "wc_log_level_valid 3" "wc_log_level_name 3 = c_str ''DEBUG''"
    by (simp_all add: wc_log_level_valid_def wc_log_level_name_def)
  from log_level_roundtrip [OF v(1)] v(2) show ?thesis by simp
qed

theorem client_options_typed_witness:
  "\<exists>opts. client_option_loop [c_str ''--port'', c_str ''80'', c_str ''PWD''] client_defaults = Some (opts, [c_str ''PWD'']) \<and>
     co_tcp_port opts = 80 \<and> \<not> (co_socket_option_seen opts \<and> co_use_tcp opts)"
proof -
  have r: "client_option_loop [c_str ''--port'', c_str ''80'', c_str ''PWD''] client_defaults =
      Some (client_defaults\<lparr>co_tcp_port := 80, co_use_tcp := True\<rparr>, [c_str ''PWD''])"
    by (simp add: client_defaults_def wc_client_parse_port_def c_strtoul_def c_str_def wc_defs decimal_def of_char_def)
  from client_options_typed [OF r] r show ?thesis by simp
qed

end
