(* ===== verification/WC_Client.thy ===== *)
theory WC_Client
  imports WC_Options WC_Protocol WC_Socket
begin

text \<open>
  The client program \<^verbatim>\<open>src/src/main_client.c\<close>: the command line, connecting over either transport,
  sending the request, receiving the response and printing it. What the kernel answers is given
  by \<open>client_env\<close>; the socket and standard output are blocking, so the end of a script means that the call does not return.
  Calls of \<open>wc_log\<close> and \<open>perror\<close> write to standard error only and are left out.

  The lemmas show that the client prints exactly the data of the first response frame in the bytes that arrive, however they
  are cut into pieces, and that it releases its buffers and its socket on every path.
\<close>

section \<open>Commands\<close>

definition wc_client_parse_command :: "byte list \<Rightarrow> errno + wc_request_type" where
  "wc_client_parse_command name =
     (if name = c_str ''LS'' then Inr WC_REQUEST_LS
      else if name = c_str ''PWD'' then Inr WC_REQUEST_PWD
      else if name = c_str ''CAT'' then Inr WC_REQUEST_CAT
      else Inl EINVAL)"

text \<open>The arguments after the options; \<open>None\<close> is the usage message.\<close>

definition client_request :: "byte list list \<Rightarrow> (wc_request_type \<times> byte list option \<times> size_t) option" where
  "client_request args = (case args of
       [] \<Rightarrow> None
     | command_name # operands \<Rightarrow>
         (case wc_client_parse_command command_name of
            Inl _ \<Rightarrow> None
          | Inr request_type \<Rightarrow>
              if request_type = WC_REQUEST_PWD then
                (if operands \<noteq> [] then None else Some (request_type, None, 0))
              else
                (case operands of
                   [command_argument] \<Rightarrow> Some (request_type, Some command_argument, of_nat (length command_argument))
                 | _ \<Rightarrow> None)))"

section \<open>Connecting\<close>

text \<open>
  The addresses given to \<open>connect\<close>: a path, or an IPv4 address and a port (in host byte order). The
  environment has the results of ignoring \<open>SIGPIPE\<close>, of \<open>inet_pton\<close> on a text (an error, \<open>None\<close> for a text that
  is no address, or the address), of \<open>socket\<close> and of \<open>connect\<close> to an address, the scripts of the
  socket and of standard output, and the result of \<open>close\<close>.
\<close>

datatype sockaddr = Sockaddr_un "byte list" | Sockaddr_in "32 word" uint16

record client_env =
  cl_sigpipe :: status
  cl_pton :: "byte list \<Rightarrow> errno + 32 word option"
  cl_socket :: "errno + fd"
  cl_connect :: "sockaddr \<Rightarrow> status"
  cl_sends :: "send_outcome list"
  cl_reads :: "read_outcome list"
  cl_stdout :: "send_outcome list"
  cl_close :: status

definition wc_client_connect_uds :: "byte list \<Rightarrow> client_env \<Rightarrow> 'n sys \<Rightarrow> (errno + fd) \<times> 'n sys" where
  "wc_client_connect_uds socket_path env s =
     (if socket_path = [] \<or> length socket_path \<ge> 108 then (Inl ENAMETOOLONG, s)
      else case cl_socket env of
          Inl e \<Rightarrow> (Inl e, s)
        | Inr socket_fd \<Rightarrow>
            let s1 = s_emit (Ev_open socket_fd) s in
            (case cl_connect env (Sockaddr_un socket_path) of
               Inl saved_errno \<Rightarrow> (Inl saved_errno, s_emit (Ev_close socket_fd) s1)
             | Inr _ \<Rightarrow> (Inr socket_fd, s1)))"

definition wc_client_connect_tcp :: "byte list \<Rightarrow> uint16 \<Rightarrow> client_env \<Rightarrow> 'n sys \<Rightarrow> (errno + fd) \<times> 'n sys" where
  "wc_client_connect_tcp host port env s =
     (case cl_pton env host of
          Inl e \<Rightarrow> (Inl e, s)
        | Inr None \<Rightarrow> (Inl EINVAL, s)
        | Inr (Some sin_addr) \<Rightarrow>
            (case cl_socket env of
               Inl e \<Rightarrow> (Inl e, s)
             | Inr socket_fd \<Rightarrow>
                 let s1 = s_emit (Ev_open socket_fd) s in
                 (case cl_connect env (Sockaddr_in sin_addr port) of
                    Inl saved_errno \<Rightarrow> (Inl saved_errno, s_emit (Ev_close socket_fd) s1)
                  | Inr _ \<Rightarrow> (Inr socket_fd, s1))))"

section \<open>Receiving the response\<close>

abbreviation (input) STDOUT_FILENO :: fd where "STDOUT_FILENO \<equiv> 1"

function client_receive_loop :: "fd \<Rightarrow> read_outcome list \<Rightarrow> send_outcome list \<Rightarrow> wc_buffer \<Rightarrow> 'n sys \<Rightarrow>
    (status \<times> wc_buffer \<times> 'n sys) option" where
  "client_receive_loop socket_fd reads out input s = do {
     (parse_result, response, consumed) \<leftarrow> wc_protocol_parse_response (buf_data input) (buf_length input);
     if parse_result = WC_PARSE_COMPLETE then do {
       r \<leftarrow> response;
       (result, s1) \<leftarrow> wc_socket_write_all STDOUT_FILENO (map_option (drop (rsp_data r)) (buf_data input)) (rsp_data_length r) out s;
       Some (result, input, s1)
     }
     else if parse_result = WC_PARSE_INVALID \<or> buf_length input = buf_max_size input then Some (Inl EPROTO, input, s)
     else let available = buf_max_size input - buf_length input;
              read_size = (if available < 4096 then available else 4096) in
       case sock_read socket_fd (unat read_size) reads s of
         None \<Rightarrow> None
       | Some (Inr bytes, rest, s1) \<Rightarrow>
           if length bytes > 0 then do {
             (st, b, s2) \<leftarrow> wc_buffer_append input (Some bytes) (of_nat (length bytes)) s1;
             if st \<noteq> wc_ok then Some (st, b, s2) else client_receive_loop socket_fd rest out b s2
           }
           else Some (Inl EPIPE, input, s1)
       | Some (Inl e, rest, s1) \<Rightarrow>
           if e = EINTR then client_receive_loop socket_fd rest out input s1 else Some (Inl e, input, s1)
   }"
  by pat_completeness auto
termination
  by (relation "measure (\<lambda>(f, reads, out, b, s). script_size reads)")
     (auto dest!: sock_read_size simp: unat_gt_0)

declare client_receive_loop.simps [simp del, code]

definition wc_client_receive_response :: "fd \<Rightarrow> read_outcome list \<Rightarrow> send_outcome list \<Rightarrow> 'n sys \<Rightarrow> (status \<times> 'n sys) option" where
  "wc_client_receive_response socket_fd reads out s =
     (case wc_buffer_init (UINT16_MAX + WC_PROTOCOL_RESPONSE_HEADER_SIZE) of
        (Inl e, _) \<Rightarrow> Some (Inl e, s)
      | (Inr _, input) \<Rightarrow> do {
          (result, b, s1) \<leftarrow> client_receive_loop socket_fd reads out input s;
          Some (result, snd (wc_buffer_destroy b s1))
        })"

section \<open>The program\<close>

text \<open>\<open>client_exchange\<close> is \<open>main\<close> from the call of \<open>connect\<close> on; the result is the exit status.\<close>

definition client_exchange :: "client_options \<Rightarrow> client_env \<Rightarrow> wc_buffer \<Rightarrow> 'n sys \<Rightarrow> (int \<times> 'n sys) option" where
  "client_exchange opts env request s =
     (case (if co_use_tcp opts then wc_client_connect_tcp (co_tcp_host opts) (co_tcp_port opts) env s
            else wc_client_connect_uds (co_socket_path opts) env s) of
        (Inl _, s1) \<Rightarrow> Some (1, snd (wc_buffer_destroy request s1))
      | (Inr socket_fd, s1) \<Rightarrow> do {
          (st, s2) \<leftarrow> wc_socket_write_all socket_fd (buf_data request) (buf_length request) (cl_sends env) s1;
          (result, s3) \<leftarrow> (if st \<noteq> wc_ok then Some (1, s2)
             else do {
               (st2, s3) \<leftarrow> wc_client_receive_response socket_fd (cl_reads env) (cl_stdout env) s2;
               Some (if st2 \<noteq> wc_ok then 1 else 0, s3)
             });
          let s4 = s_emit (Ev_close socket_fd) s3;
              result1 = (if cl_close env \<noteq> wc_ok \<and> result = 0 then 1 else result) in
          Some (result1, snd (wc_buffer_destroy request s4))
        })"

definition client_main :: "client_env \<Rightarrow> byte list list \<Rightarrow> log_state \<Rightarrow> 'n sys \<Rightarrow> (int \<times> log_state \<times> 'n sys) option" where
  "client_main env arguments lg s =
     (case client_option_loop (drop 1 arguments) client_defaults of
        None \<Rightarrow> Some (2, lg, s)
      | Some (opts, args) \<Rightarrow>
          let lg1 = wc_log_set_level (co_log_level opts) lg in
          (case client_request args of
             None \<Rightarrow> Some (2, lg1, s)
           | Some (request_type, command_argument, argument_length) \<Rightarrow>
               (case wc_buffer_init UINT16_MAX of
                  (Inl _, _) \<Rightarrow> Some (1, lg1, s)
                | (Inr _, b) \<Rightarrow> do {
                    (st, request, s1) \<leftarrow> wc_protocol_encode_request b request_type command_argument argument_length s;
                    if st \<noteq> wc_ok then Some (1, lg1, snd (wc_buffer_destroy request s1))
                    else if cl_sigpipe env \<noteq> wc_ok then Some (1, lg1, snd (wc_buffer_destroy request s1))
                    else do {
                      (result, s2) \<leftarrow> client_exchange opts env request s1;
                      Some (result, lg1, s2)
                    }
                  })))"

section \<open>Writing all bytes\<close>

text \<open>\<open>wc_socket_write_all\<close> on the first bytes of a larger object, as both callers use it.\<close>

lemma write_loop_take:
  assumes "unat sz \<le> length d"
  shows "write_loop f (Some d) t sz script s = write_loop f (Some (take (unat sz) d)) t sz script s"
proof (induction script arbitrary: t s)
  case (Cons x script)
  have "c_read_block (Some (drop (unat t) d)) (unat (sz - t)) =
      c_read_block (Some (drop (unat t) (take (unat sz) d))) (unat (sz - t))" if "t < sz"
  proof -
    have "t \<le> sz" using that by simp
    then have "unat (sz - t) = unat sz - unat t" by (rule unat_sub)
    then show ?thesis using assms by (simp add: c_read_block_def drop_take)
  qed
  then show ?case using Cons.IH by (simp cong: if_cong sum.case_cong prod.case_cong)
qed simp

lemma write_loop_effect:
  assumes "write_loop f data t sz script s = Some (st, s')"
  shows "\<exists>bss. effect s s' (map (Ev_send f) bss) \<and> s_live s' = s_live s"
  using assms
proof (induction f data t sz script s rule: write_loop.induct)
  case (1 f data t sz s)
  then show ?case by (auto intro!: exI [of _ "[]"] split: if_splits)
next
  case (2 f data t sz x script s)
  show ?case
  proof (cases "t < sz")
    case False
    with "2.prems" show ?thesis by (auto intro!: exI [of _ "[]"])
  next
    case True
    then obtain bs where b: "c_read_block (map_option (drop (unat t)) data) (unat (sz - t)) = Some bs"
      using "2.prems" by (auto split: Option.bind_splits)
    show ?thesis
    proof (cases x)
      case (Send_error e)
      then have send: "sock_send f bs x s = (Inl e, s)" by (simp add: sock_send_def)
      show ?thesis
      proof (cases "e = EINTR")
        case intr: True
        from 2(1) [OF True b send [symmetric] refl intr] "2.prems" True b send intr show ?thesis by simp
      next
        case False
        with "2.prems" True b send show ?thesis by (intro exI [of _ "[]"]) simp
      qed
    next
      case (Send_bytes k)
      let ?s = "s_emit (Ev_send f (take k bs)) s"
      have send: "sock_send f bs x s = (Inr (min k (length bs)), ?s)" by (simp add: sock_send_def Send_bytes)
      show ?thesis
      proof (cases "min k (length bs) > 0")
        case False
        then have "s' = ?s" using "2.prems" True b send by (auto split: if_splits)
        then show ?thesis by (intro exI [of _ "[take k bs]"]) simp
      next
        case pos: True
        from 2(2) [OF True b send [symmetric] refl pos] "2.prems" True b send pos
        obtain bss where "effect ?s s' (map (Ev_send f) bss)" "s_live s' = s_live ?s" by auto
        then show ?thesis
          using effect_trans [OF effect_emit] by (intro exI [of _ "take k bs # bss"]) fastforce
      qed
    qed
  qed
qed

lemma read_block_length: "c_read_block data (unat (sz :: size_t)) = Some bs \<Longrightarrow> length bs < 2 ^ 64"
  using unat_size_bound [of sz] by (auto simp: c_read_block_def split: option.splits if_splits)

lemma write_all_block:
  assumes "c_read_block data (unat sz) = Some bs"
  shows "wc_socket_write_all f data sz script s = wc_socket_write_all f (Some bs) (of_nat (length bs)) script s"
proof (cases data)
  case None
  then have "sz = 0" "bs = []" using assms by (auto simp: c_read_block_def split: if_splits)
  then show ?thesis using None by (cases script) (simp_all add: wc_socket_write_all_def)
next
  case (Some d)
  then have d: "unat sz \<le> length d" "bs = take (unat sz) d" using assms by (auto simp: c_read_block_def split: if_splits)
  then have "of_nat (length bs) = sz" by simp
  then show ?thesis using Some write_loop_take [OF d(1)] d(2) by (simp add: wc_socket_write_all_def)
qed

lemma write_all_spec:
  assumes "c_read_block data (unat sz) = Some bs" "wc_socket_write_all f data sz script s = Some (st, s')"
  obtains bss where "effect s s' (map (Ev_send f) bss)" "s_live s' = s_live s" "prefix (concat bss) bs"
    "st = wc_ok \<longrightarrow> concat bss = bs"
proof -
  note len = read_block_length [OF assms(1)]
  have w: "write_loop f (Some bs) 0 (of_nat (length bs)) script s = Some (st, s')"
    using assms(2) unfolding write_all_block [OF assms(1)] by (simp add: wc_socket_write_all_def)
  obtain bss where b: "effect s s' (map (Ev_send f) bss)" "s_live s' = s_live s" using write_loop_effect [OF w] by blast
  obtain sent u where u: "sent_to f (s_trace s') = sent_to f (s_trace s) @ sent" "bs = sent @ u" "st = wc_ok \<longrightarrow> u = []"
    using write_loop_sound [of 0 bs bs f script s] w len by auto
  have "sent = concat bss" using u(1) by (simp add: effect_trace [OF b(1)])
  with b u(2,3) show thesis by (intro that) auto
qed

lemma write_all_returns:
  assumes "c_read_block data (unat sz) = Some bs" "willing script" "length bs \<le> accepted script"
  obtains s' where "wc_socket_write_all f data sz script s = Some (wc_ok, s')"
proof -
  from write_loop_returns [OF _ _ read_block_length [OF assms(1)] assms(2,3), of 0 f s] show thesis
    using that unfolding write_all_block [OF assms(1)] by (auto simp: wc_socket_write_all_def)
qed

section \<open>Receiving\<close>

text \<open>The bytes that arrive before the end of the stream or an error.\<close>

fun stream_of :: "read_outcome list \<Rightarrow> byte list" where
  "stream_of [] = []"
| "stream_of (Read_bytes bs # rest) = (if bs = [] then [] else bs @ stream_of rest)"
| "stream_of (Read_error e # rest) = (if e = EINTR then stream_of rest else [])"

lemma sock_read_cases:
  assumes "0 < n"
  obtains (blocked) "reads = []" "sock_read f n reads s = None"
  | (bytes) bs rest where "sock_read f n reads s = Some (Inr bs, rest, s_emit (Ev_recv f bs) s)" "bs \<noteq> []" "length bs \<le> n"
      "stream_of reads = bs @ stream_of rest" "script_size rest < script_size reads"
  | (finished) rest where "sock_read f n reads s = Some (Inr [], rest, s_emit (Ev_recv f []) s)" "stream_of reads = []"
  | (interrupted) rest where "sock_read f n reads s = Some (Inl EINTR, rest, s)" "stream_of reads = stream_of rest"
      "script_size rest < script_size reads"
  | (fails) e rest where "sock_read f n reads s = Some (Inl e, rest, s)" "e \<noteq> EINTR" "stream_of reads = []"
proof (cases reads)
  case Nil
  then show thesis using blocked by simp
next
  case (Cons x rest)
  show thesis
  proof (cases x)
    case (Read_bytes bs)
    show thesis
    proof (cases "bs = []")
      case True
      then show thesis using finished Cons Read_bytes by simp
    next
      case False
      let ?rest = "if length bs \<le> n then rest else Read_bytes (drop n bs) # rest"
      have r: "sock_read f n reads s = Some (Inr (take n bs), ?rest, s_emit (Ev_recv f (take n bs)) s)"
        using Cons Read_bytes by simp
      show thesis by (rule bytes [OF r]) (use Cons Read_bytes False assms in auto)
    qed
  next
    case (Read_error e)
    then show thesis using Cons interrupted [of rest] fails [of e rest] by (cases "e = EINTR") auto
  qed
qed

text \<open>One turn of the loop, on a well-formed buffer with the limit of the program.\<close>

abbreviation input_ok :: "wc_buffer \<Rightarrow> bool" where
  "input_ok b \<equiv> buf_wf b \<and> buf_max_size b = 65537"

lemma receive_complete:
  assumes "input_ok b" "response_spec (buf_bytes b) = Frame d k"
  shows "client_receive_loop f reads out b s = do {
      (result, s1) \<leftarrow> wc_socket_write_all 1 (map_option (drop 2) (buf_data b)) (of_nat (length d)) out s;
      Some (result, b, s1)
    }" and "c_read_block (map_option (drop 2) (buf_data b)) (unat (of_nat (length d) :: size_t)) = Some d"
proof -
  have wf: "buf_wf b" using assms(1) by simp
  note F = response_spec_FrameD [OF assms(2)]
  show "client_receive_loop f reads out b s = do {
      (result, s1) \<leftarrow> wc_socket_write_all 1 (map_option (drop 2) (buf_data b)) (of_nat (length d)) out s;
      Some (result, b, s1)
    }"
    using rsp.parse_buffer [OF wf] by (subst client_receive_loop.simps) (simp add: assms(2) response_out_def)
  have u: "unat (of_nat (length d) :: size_t) = length d" using F(3) by simp
  have "buf_bytes b \<noteq> []" using F(1,2) by auto
  then obtain blk where blk: "buf_data b = Some blk" by (auto simp: buf_bytes_def buf_block_def split: option.splits)
  have bb: "buf_bytes b = take (unat (buf_length b)) blk" "unat (buf_length b) \<le> length blk"
    using wf blk by (auto simp: buf_bytes_def buf_block_def buf_wf_def)
  have "take (length d) (drop 2 (take (2 + length d) (buf_bytes b))) = d"
    using F(1,4) by (simp add: response_frame_def)
  moreover have "2 + length d \<le> unat (buf_length b)" "2 + length d \<le> length blk" using F(1,2) bb by auto
  ultimately have "take (length d) (drop 2 blk) = d" unfolding bb(1) by (simp add: drop_take min_def)
  then show "c_read_block (map_option (drop 2) (buf_data b)) (unat (of_nat (length d) :: size_t)) = Some d"
    unfolding u blk c_read_block_def using \<open>2 + length d \<le> length blk\<close> by simp
qed

lemma receive_more:
  assumes "input_ok b" "response_spec (buf_bytes b) = More"
  obtains n where "0 < n" "n \<le> unat (buf_max_size b) - unat (buf_length b)" "n \<le> 4096"
    "client_receive_loop f reads out b s = (case sock_read f n reads s of
         None \<Rightarrow> None
       | Some (Inr bytes, rest, s1) \<Rightarrow>
           if length bytes > 0 then do {
             (st, b1, s2) \<leftarrow> wc_buffer_append b (Some bytes) (of_nat (length bytes)) s1;
             if st \<noteq> wc_ok then Some (st, b1, s2) else client_receive_loop f rest out b1 s2
           }
           else Some (Inl EPIPE, b, s1)
       | Some (Inl e, rest, s1) \<Rightarrow>
           if e = EINTR then client_receive_loop f rest out b s1 else Some (Inl e, b, s1))"
proof -
  have wf: "buf_wf b" using assms(1) by simp
  have short: "unat (buf_length b) < 65537" using rsp.more_bound [OF assms(2)] buf_wf_D(3) [OF wf] by simp
  define available where "available = buf_max_size b - buf_length b"
  define n where "n = unat (if available < 4096 then available else 4096)"
  have a: "unat available = 65537 - unat (buf_length b)"
    using assms(1) short by (simp add: available_def wc_size)
  have ne: "buf_length b \<noteq> buf_max_size b" using assms(1) short by auto
  have n: "0 < n" "n \<le> unat (buf_max_size b) - unat (buf_length b)" "n \<le> 4096"
    using a short assms(1) by (auto simp: n_def wc_size)
  show thesis
    by (rule that [OF n], subst client_receive_loop.simps)
       (simp add: rsp.parse_buffer [OF wf] assms(2) response_out_def ne Let_def n_def available_def)
qed

text \<open>The same by the outcome of the read.\<close>

lemma receive_cases:
  assumes "input_ok b" "response_spec (buf_bytes b) = More"
  obtains (blocked) "reads = []" "client_receive_loop f reads out b s = None"
  | (bytes) bs rest b1 s2 where "client_receive_loop f reads out b s = client_receive_loop f rest out b1 s2" "input_ok b1"
      "buf_bytes b1 = buf_bytes b @ bs" "effect s s2 [Ev_recv f bs]" "s_live s2 = s_live s + buf_owned b1 - buf_owned b"
      "stream_of reads = bs @ stream_of rest" "script_size rest < script_size reads"
  | (no_memory) bs rest s2 where "client_receive_loop f reads out b s = Some (Inl ENOMEM, b, s2)" "effect s s2 [Ev_recv f bs]"
      "s_live s2 = s_live s" "stream_of reads = bs @ stream_of rest" "\<not> mem_ample s"
  | (finished) "client_receive_loop f reads out b s = Some (Inl EPIPE, b, s_emit (Ev_recv f []) s)" "stream_of reads = []"
  | (interrupted) rest where "client_receive_loop f reads out b s = client_receive_loop f rest out b s" "stream_of reads = stream_of rest"
      "script_size rest < script_size reads"
  | (fails) e where "client_receive_loop f reads out b s = Some (Inl e, b, s)" "stream_of reads = []"
proof -
  have wf: "buf_wf b" using assms(1) by simp
  obtain n where n: "0 < n" "n \<le> unat (buf_max_size b) - unat (buf_length b)" "n \<le> 4096" and
    unf: "client_receive_loop f reads out b s = (case sock_read f n reads s of
         None \<Rightarrow> None
       | Some (Inr bytes, rest, s1) \<Rightarrow>
           if length bytes > 0 then do {
             (st, b1, s2) \<leftarrow> wc_buffer_append b (Some bytes) (of_nat (length bytes)) s1;
             if st \<noteq> wc_ok then Some (st, b1, s2) else client_receive_loop f rest out b1 s2
           }
           else Some (Inl EPIPE, b, s1)
       | Some (Inl e, rest, s1) \<Rightarrow>
           if e = EINTR then client_receive_loop f rest out b s1 else Some (Inl e, b, s1))"
    by (rule receive_more [OF assms])
  show thesis
  proof (rule sock_read_cases [OF n(1), of reads f s])
    fix bs rest
    assume r: "sock_read f n reads s = Some (Inr bs, rest, s_emit (Ev_recv f bs) s)" "bs \<noteq> []" "length bs \<le> n"
      "stream_of reads = bs @ stream_of rest" "script_size rest < script_size reads"
    let ?s = "s_emit (Ev_recv f bs) s" and ?n = "of_nat (length bs) :: size_t"
    have len: "unat ?n = length bs" using r(3) n(3) by simp
    obtain st1 b1 s2 where a: "wc_buffer_append b (Some bs) ?n ?s = Some (st1, b1, s2)" "buf_wf b1" "buf_max_size b1 = buf_max_size b"
      "sys_frame ?s s2" "s_live s2 = s_live ?s + buf_owned b1 - buf_owned b"
      "st1 = wc_ok \<and> buf_bytes b1 = buf_bytes b @ take (unat ?n) (case Some bs of None \<Rightarrow> [] | Some d \<Rightarrow> d)
       \<or> st1 = Inl ENOMEM \<and> b1 = b \<and> \<not> mem_ample ?s"
      by (rule append_spec [OF wf, where data = "Some bs" and n = ?n and s = ?s]) (use len r(3) n(2) in auto)
    have e: "effect s s2 [Ev_recv f bs]" using effect_trans [OF effect_emit sys_frame_effect [OF a(4)]] by simp
    have m: "mem_ample ?s = mem_ample s" by (rule effect_mem_ample [OF effect_emit])
    show thesis using a bytes [OF _ _ _ e _ r(4,5)] no_memory [OF _ e _ r(4)] r(1,2) assms(1) len m
      by (auto simp: unf)
  qed (use unf blocked finished interrupted fails in auto)
qed

text \<open>
  What the loop has done when it returns: it received \<open>bss\<close>, wrote \<open>outs\<close>, and what it wrote belongs to the
  first frame of the bytes in the buffer and those received.
\<close>

definition recv_result :: "fd \<Rightarrow> read_outcome list \<Rightarrow> wc_buffer \<Rightarrow> 'n sys \<Rightarrow> status \<Rightarrow> wc_buffer \<Rightarrow> 'n sys \<Rightarrow> bool" where
  "recv_result f reads b s st b' s' \<longleftrightarrow> (\<exists>bss outs. effect s s' (map (Ev_recv f) bss @ map (Ev_send 1) outs) \<and>
     s_live s' = s_live s + buf_owned b' - buf_owned b \<and> prefix (concat bss) (stream_of reads) \<and>
     (case response_spec (buf_bytes b @ concat bss) of
        Frame d k \<Rightarrow> prefix (concat outs) d \<and> (st = wc_ok \<longrightarrow> concat outs = d)
      | _ \<Rightarrow> st \<noteq> wc_ok \<and> outs = []))"

lemma recv_result_stop:
  assumes "st \<noteq> wc_ok" "effect s s' (map (Ev_recv f) bss)" "s_live s' = s_live s + buf_owned b' - buf_owned b"
    "prefix (concat bss) (stream_of reads)"
  shows "recv_result f reads b s st b' s'"
  unfolding recv_result_def using assms by (intro exI [of _ bss] exI [of _ "[]"]) (auto split: frame.split)

lemma recv_result_bytes:
  assumes "recv_result f rest b1 s2 st b' s'" "effect s s2 [Ev_recv f bs]" "s_live s2 = s_live s + buf_owned b1 - buf_owned b"
    "buf_bytes b1 = buf_bytes b @ bs" "stream_of reads = bs @ stream_of rest"
  shows "recv_result f reads b s st b' s'"
proof -
  obtain bss outs where r: "effect s2 s' (map (Ev_recv f) bss @ map (Ev_send 1) outs)"
     "s_live s' = s_live s2 + buf_owned b' - buf_owned b1" "prefix (concat bss) (stream_of rest)"
     "case response_spec (buf_bytes b1 @ concat bss) of
        Frame d k \<Rightarrow> prefix (concat outs) d \<and> (st = wc_ok \<longrightarrow> concat outs = d) | _ \<Rightarrow> st \<noteq> wc_ok \<and> outs = []"
    using assms(1) unfolding recv_result_def by blast
  show ?thesis
    unfolding recv_result_def using effect_trans [OF assms(2) r(1)] r(2-4) assms(3-5)
    by (intro exI [of _ "bs # bss"] exI [of _ outs]) simp
qed

lemma receive_sound:
  assumes "input_ok b" "client_receive_loop f reads out b s = Some (st, b', s')"
  shows "recv_result f reads b s st b' s'"
  using assms
proof (induction "script_size reads" arbitrary: reads b s rule: less_induct)
  case less
  have wf: "buf_wf b" using less.prems(1) by simp
  show ?case
  proof (cases "response_spec (buf_bytes b)")
    case Bad
    then show ?thesis using response_never_bad by blast
  next
    case (Frame d k)
    have w: "wc_socket_write_all 1 (map_option (drop 2) (buf_data b)) (of_nat (length d)) out s = Some (st, s')" and b: "b' = b"
      using less.prems(2) unfolding receive_complete(1) [OF less.prems(1) Frame] by (auto split: Option.bind_splits)
    obtain outs where "effect s s' (map (Ev_send 1) outs)" "s_live s' = s_live s" "prefix (concat outs) d" "st = wc_ok \<longrightarrow> concat outs = d"
      by (rule write_all_spec [OF receive_complete(2) [OF less.prems(1) Frame] w])
    then show ?thesis
      unfolding recv_result_def by (intro exI [of _ "[]"] exI [of _ outs]) (simp add: Frame b)
  next
    case More
    show ?thesis
    proof (cases rule: receive_cases [OF less.prems(1) More, of reads f out s,
        case_names blocked bytes no_memory finished interrupted fails])
      case (bytes bs rest b1 s2)
      have "client_receive_loop f rest out b1 s2 = Some (st, b', s')" using bytes(1) less.prems(2) by simp
      from recv_result_bytes [OF less.hyps [OF bytes(7,2) this] bytes(4,5,3,6)] show ?thesis .
    next
      case (no_memory bs rest s2)
      with less.prems(2) show ?thesis by (intro recv_result_stop [of _ _ _ _ "[bs]"]) auto
    next
      case finished
      with less.prems(2) show ?thesis by (intro recv_result_stop [of _ _ _ _ "[[]]"]) auto
    next
      case (interrupted rest)
      with less.hyps [OF interrupted(3) less.prems(1)] less.prems(2) show ?thesis by (simp add: recv_result_def)
    next
      case (fails e)
      with less.prems(2) show ?thesis by (intro recv_result_stop [of _ _ _ _ "[]"]) auto
    qed (use less.prems(2) in simp)
  qed
qed

text \<open>With enough memory and a willing standard output, a complete response is received.\<close>

lemma receive_returns:
  assumes "input_ok b" "mem_ample s" "response_spec (buf_bytes b @ stream_of reads) = Frame d k"
    "willing out" "length d \<le> accepted out"
  shows "\<exists>b' s'. client_receive_loop f reads out b s = Some (wc_ok, b', s')"
  using assms(1-3)
proof (induction "script_size reads" arbitrary: reads b s rule: less_induct)
  case less
  have wf: "buf_wf b" using less.prems(1) by simp
  show ?case
  proof (cases "response_spec (buf_bytes b)")
    case Bad
    then show ?thesis using response_never_bad by blast
  next
    case (Frame d1 k1)
    then have d: "d1 = d" using response_spec_extend [of "buf_bytes b" "stream_of reads"] less.prems(3) by simp
    obtain s' where "wc_socket_write_all 1 (map_option (drop 2) (buf_data b)) (of_nat (length d)) out s = Some (wc_ok, s')"
      by (rule write_all_returns [OF receive_complete(2) [OF less.prems(1) Frame [unfolded d]] assms(4,5)])
    then show ?thesis unfolding receive_complete(1) [OF less.prems(1) Frame] d by simp
  next
    case More
    have ne: "stream_of reads \<noteq> []" using More less.prems(3) by auto
    show ?thesis
    proof (cases rule: receive_cases [OF less.prems(1) More, of reads f out s,
        case_names blocked bytes no_memory finished interrupted fails])
      case (bytes bs rest b1 s2)
      have "mem_ample s2" using effect_mem_ample [OF bytes(4)] less.prems(2) by simp
      with less.hyps [OF bytes(7,2)] bytes(1,3,6) less.prems(3) show ?thesis by simp
    next
      case (interrupted rest)
      with less.hyps [OF interrupted(3) less.prems(1,2)] less.prems(3) show ?thesis by simp
    qed (use ne less.prems(2) in auto)
  qed
qed

lemma destroy_effect:
  "effect s (snd (wc_buffer_destroy b s)) []" "s_live (snd (wc_buffer_destroy b s)) = s_live s - buf_owned b"
  using destroy_spec(5,6) [of b s "fst (wc_buffer_destroy b s)" "snd (wc_buffer_destroy b s)"] sys_frame_effect by auto

lemma init_input: "input_ok (snd (wc_buffer_init 65537))"
  by simp

lemma receive_response_unfold:
  "wc_client_receive_response f reads out s = do {
     (result, b, s1) \<leftarrow> client_receive_loop f reads out (snd (wc_buffer_init 65537)) s;
     Some (result, snd (wc_buffer_destroy b s1))
   }"
  by (simp add: wc_client_receive_response_def wc_buffer_init_def UINT16_MAX_def)

lemma receive_response_sound:
  assumes "wc_client_receive_response f reads out s = Some (st, s')"
  obtains bss outs where "effect s s' (map (Ev_recv f) bss @ map (Ev_send 1) outs)" "s_live s' = s_live s"
    "prefix (concat bss) (stream_of reads)"
    "case response_spec (concat bss) of
        Frame d k \<Rightarrow> prefix (concat outs) d \<and> (st = wc_ok \<longrightarrow> concat outs = d) | _ \<Rightarrow> st \<noteq> wc_ok \<and> outs = []"
proof -
  obtain b s1 where l: "client_receive_loop f reads out (snd (wc_buffer_init 65537)) s = Some (st, b, s1)"
    and s': "s' = snd (wc_buffer_destroy b s1)"
    using assms unfolding receive_response_unfold by (auto split: Option.bind_splits)
  have e: "effect s s' evs" if "effect s s1 evs" for evs
    using effect_trans [OF that destroy_effect(1) [where b = b]] by (simp add: s')
  have "s_live s' = s_live s1 - buf_owned b" by (simp add: s' destroy_effect)
  then show thesis
    using receive_sound [OF init_input l] e that unfolding recv_result_def by force
qed

section \<open>The whole program\<close>

lemma connect_cases:
  fixes s :: "'n sys"
  obtains (fails) e s1 evs where
      "(if tcp then wc_client_connect_tcp host port env s else wc_client_connect_uds pth env s) = (Inl e, s1)"
      "effect s s1 evs" "s_live s1 = s_live s" "evs = [] \<or> (\<exists>f. cl_socket env = Inr f \<and> evs = [Ev_open f, Ev_close f])"
  | (opens) f where "cl_socket env = Inr f"
      "(if tcp then wc_client_connect_tcp host port env s else wc_client_connect_uds pth env s) = (Inr f, s_emit (Ev_open f) s)"
proof -
  let ?c = "if tcp then wc_client_connect_tcp host port env s else wc_client_connect_uds pth env s"
  have two: "effect s (s_emit (Ev_close f) (s_emit (Ev_open f) s)) [Ev_open f, Ev_close f]" for f
    by (simp add: effect_def)
  have "(\<exists>e. ?c = (Inl e, s)) \<or> (\<exists>f. cl_socket env = Inr f \<and>
      ((\<exists>e. ?c = (Inl e, s_emit (Ev_close f) (s_emit (Ev_open f) s))) \<or> ?c = (Inr f, s_emit (Ev_open f) s)))"
    by (cases "cl_pton env host"; cases "cl_socket env")
       (auto simp: wc_client_connect_tcp_def wc_client_connect_uds_def Let_def split: option.split sum.split)
  then consider e where "?c = (Inl e, s)"
    | e f where "cl_socket env = Inr f" "?c = (Inl e, s_emit (Ev_close f) (s_emit (Ev_open f) s))"
    | f where "cl_socket env = Inr f" "?c = (Inr f, s_emit (Ev_open f) s)" by blast
  then show thesis
  proof cases
    case (1 e)
    then show thesis by (rule fails [OF _ effect_refl]) simp_all
  next
    case (2 e f)
    show thesis by (rule fails [OF 2(2) two]) (use 2 in auto)
  next
    case (3 f)
    then show thesis by (rule opens)
  qed
qed

text \<open>The events of the connection, from \<open>socket\<close> to \<open>close\<close>.\<close>

definition dialogue :: "fd \<Rightarrow> byte list list \<Rightarrow> byte list list \<Rightarrow> byte list list \<Rightarrow> event list" where
  "dialogue f sends recvs outs =
     [Ev_open f] @ map (Ev_send f) sends @ map (Ev_recv f) recvs @ map (Ev_send 1) outs @ [Ev_close f]"

lemma dialogue_facts:
  assumes "f \<noteq> 1"
  shows "fd_run {1} (dialogue f sends recvs outs) = Some {1}" "sent_to f (dialogue f sends recvs outs) = concat sends"
    "received_from f (dialogue f sends recvs outs) = concat recvs" "sent_to 1 (dialogue f sends recvs outs) = concat outs"
proof -
  have l: "received_from f (e # es) = ev_received f e @ received_from f es" for e es by (simp add: received_from_def)
  have ones: "sent_to 1 (map (Ev_send f) sends) = []" "sent_to f (map (Ev_send 1) outs) = []"
    using assms by (simp_all add: trace_bytes_other)
  show "fd_run {1} (dialogue f sends recvs outs) = Some {1}"
    using assms by (auto simp: dialogue_def fd_run_append fd_run_sends fd_run_recvs)
  show "sent_to f (dialogue f sends recvs outs) = concat sends" "sent_to 1 (dialogue f sends recvs outs) = concat outs"
    "received_from f (dialogue f sends recvs outs) = concat recvs"
    using ones by (simp_all add: dialogue_def l)
qed

text \<open>What an exchange has done when it returns with a status.\<close>

definition exchange_ok :: "client_env \<Rightarrow> byte list \<Rightarrow> event list \<Rightarrow> int \<Rightarrow> bool" where
  "exchange_ok env request evs status \<longleftrightarrow> fd_run {1} evs = Some {1} \<and> status \<in> {0, 1} \<and>
     (status = 0 \<longrightarrow> (\<exists>f d k. cl_socket env = Inr f \<and> sent_to f evs = request \<and>
        response_spec (received_from f evs) = Frame d k \<and> sent_to 1 evs = d))"

lemma exchange_failed:
  assumes "cl_socket env \<noteq> Inr 1" "evs = [] \<or> (\<exists>f. cl_socket env = Inr f \<and> evs = [Ev_open f, Ev_close f])"
  shows "exchange_ok env request evs 1"
  using assms by (auto simp: exchange_ok_def)

lemma exchange_sound:
  assumes wf: "buf_wf request" and f1: "cl_socket env \<noteq> Inr 1" and run: "client_exchange opts env request s = Some (status, s')"
  shows "\<exists>evs. effect s s' evs \<and> s_live s' = s_live s - buf_owned request \<and> exchange_ok env (buf_bytes request) evs status"
proof -
  note free = destroy_effect [where b = request]
  show ?thesis
  proof (rule connect_cases [where tcp = "co_use_tcp opts" and host = "co_tcp_host opts" and port = "co_tcp_port opts"
        and env = env and s = s and pth = "co_socket_path opts"])
    fix e s1 evs
    assume c: "(if co_use_tcp opts then wc_client_connect_tcp (co_tcp_host opts) (co_tcp_port opts) env s
        else wc_client_connect_uds (co_socket_path opts) env s) = (Inl e, s1)" "effect s s1 evs" "s_live s1 = s_live s"
      "evs = [] \<or> (\<exists>f. cl_socket env = Inr f \<and> evs = [Ev_open f, Ev_close f])"
    have "status = 1" "s' = snd (wc_buffer_destroy request s1)" using run unfolding client_exchange_def c(1) by auto
    then show ?thesis using exchange_failed [OF f1 c(4)] effect_trans [OF c(2) free(1)] free(2) [of s1] c(3) by auto
  next
    fix f
    assume c: "cl_socket env = Inr f" "(if co_use_tcp opts then wc_client_connect_tcp (co_tcp_host opts) (co_tcp_port opts) env s
        else wc_client_connect_uds (co_socket_path opts) env s) = (Inr f, s_emit (Ev_open f) s)"
    let ?s = "s_emit (Ev_open f) s"
    obtain st s2 where w: "wc_socket_write_all f (buf_data request) (buf_length request) (cl_sends env) ?s = Some (st, s2)"
      using run unfolding client_exchange_def c(2) by (auto split: Option.bind_splits)
    obtain sends where S: "effect ?s s2 (map (Ev_send f) sends)" "s_live s2 = s_live ?s" "prefix (concat sends) (buf_bytes request)"
      "st = wc_ok \<longrightarrow> concat sends = buf_bytes request"
      by (rule write_all_spec [OF buf_read_block [OF wf] w])
    have ne: "f \<noteq> 1" using f1 c(1) by auto
    note run2 = run [unfolded client_exchange_def c(2) prod.case sum.case w Option.bind.bind_lunit]
    have fin: ?thesis if "effect s2 s3 (map (Ev_recv f) recvs @ map (Ev_send 1) outs)" "s_live s3 = s_live s2"
      "s' = snd (wc_buffer_destroy request (s_emit (Ev_close f) s3))" "status \<in> {0, 1}"
      "status = 0 \<longrightarrow> st = wc_ok \<and> (\<exists>d k. response_spec (concat recvs) = Frame d k \<and> concat outs = d)" for s3 recvs outs
    proof (intro exI conjI)
      have "effect s s3 (Ev_open f # map (Ev_send f) sends @ map (Ev_recv f) recvs @ map (Ev_send 1) outs)"
        using effect_trans [OF effect_trans [OF effect_emit S(1)] that(1)] by simp
      from effect_trans [OF effect_trans [OF this effect_emit] free(1)]
      show "effect s s' (dialogue f sends recvs outs)" unfolding that(3) dialogue_def by simp
      show "s_live s' = s_live s - buf_owned request" using that(2,3) S(2) by (simp add: destroy_effect)
      show "exchange_ok env (buf_bytes request) (dialogue f sends recvs outs) status"
        using that(4,5) S(4) c(1) by (auto simp: exchange_ok_def dialogue_facts [OF ne])
    qed
    show ?thesis
    proof (cases "st = wc_ok")
      case False
      then show ?thesis using run2 by (intro fin [of s2 "[]" "[]"]) auto
    next
      case True
      then obtain st2 s3 where r: "wc_client_receive_response f (cl_reads env) (cl_stdout env) s2 = Some (st2, s3)"
        using run2 by (auto split: Option.bind_splits)
      obtain recvs outs where R: "effect s2 s3 (map (Ev_recv f) recvs @ map (Ev_send 1) outs)" "s_live s3 = s_live s2"
        "case response_spec (concat recvs) of
          Frame d k \<Rightarrow> prefix (concat outs) d \<and> (st2 = wc_ok \<longrightarrow> concat outs = d) | _ \<Rightarrow> st2 \<noteq> wc_ok \<and> outs = []"
        by (rule receive_response_sound [OF r])
      show ?thesis using run2 True r R(3) by (intro fin [OF R(1,2)]) (auto split: if_splits frame.splits)
    qed
  qed
qed

text \<open>The address of the options is well formed and a server listens there.\<close>

definition reachable_address :: "client_env \<Rightarrow> client_options \<Rightarrow> bool" where
  "reachable_address env opts \<longleftrightarrow> (if co_use_tcp opts then
       (case cl_pton env (co_tcp_host opts) of
          Inr (Some a) \<Rightarrow> cl_connect env (Sockaddr_in a (co_tcp_port opts)) = wc_ok
        | _ \<Rightarrow> False)
     else 0 < length (co_socket_path opts) \<and> length (co_socket_path opts) < 108 \<and>
       cl_connect env (Sockaddr_un (co_socket_path opts)) = wc_ok)"

lemma exchange_returns:
  assumes wf: "buf_wf request" and m: "mem_ample s" and sock: "cl_socket env = Inr f" and conn: "reachable_address env opts" "cl_close env = wc_ok"
    and sends: "willing (cl_sends env)" "length (buf_bytes request) \<le> accepted (cl_sends env)"
    and reads: "response_spec (stream_of (cl_reads env)) = Frame d k" and out: "willing (cl_stdout env)" "length d \<le> accepted (cl_stdout env)"
  shows "\<exists>s'. client_exchange opts env request s = Some (0, s')"
proof -
  let ?s = "s_emit (Ev_open f) s"
  have c: "(if co_use_tcp opts then wc_client_connect_tcp (co_tcp_host opts) (co_tcp_port opts) env s
        else wc_client_connect_uds (co_socket_path opts) env s) = (Inr f, ?s)"
    using sock conn(1) by (cases "co_use_tcp opts")
      (auto simp: reachable_address_def wc_client_connect_tcp_def wc_client_connect_uds_def Let_def split: sum.splits option.splits)
  obtain s2 where w: "wc_socket_write_all f (buf_data request) (buf_length request) (cl_sends env) ?s = Some (wc_ok, s2)"
    by (rule write_all_returns [OF buf_read_block [OF wf] sends])
  obtain bss where "effect ?s s2 (map (Ev_send f) bss)" by (rule write_all_spec [OF buf_read_block [OF wf] w])
  then have m2: "mem_ample s2" using effect_mem_ample effect_mem_ample [OF effect_emit] m by blast
  obtain b s3 where "client_receive_loop f (cl_reads env) (cl_stdout env) (snd (wc_buffer_init 65537)) s2 = Some (wc_ok, b, s3)"
    using receive_returns [OF init_input m2 _ out, of "cl_reads env" k f] reads by auto
  then have "wc_client_receive_response f (cl_reads env) (cl_stdout env) s2 = Some (wc_ok, snd (wc_buffer_destroy b s3))"
    by (simp add: receive_response_unfold)
  then show ?thesis using w conn(2) unfolding client_exchange_def c by simp
qed

lemma client_request_typed:
  assumes "client_request args = Some (t, arg, n)" "\<forall>a \<in> set args. length a < 2 ^ 64"
  shows "t \<in> {1, 2, 3}" "readable arg n" "take (unat n) (opt_bytes arg) = opt_bytes arg" "unat n = length (opt_bytes arg)"
  using assms
  by (auto simp: client_request_def wc_client_parse_command_def readable_def opt_bytes_def split: list.splits sum.splits if_splits)

lemma encode_bytes:
  assumes "t \<in> {1, 2, 3}" "readable arg n" "take (unat n) (opt_bytes arg) = opt_bytes arg"
  obtains st b s1 where "wc_protocol_encode_request (snd (wc_buffer_init 65535)) t arg n s = Some (st, b, s1)" "buf_wf b"
    "sys_frame s s1" "s_live s1 = s_live s + buf_owned b" "st = wc_ok \<longrightarrow> buf_bytes b = request_frame t (opt_bytes arg) \<and> unat n \<le> 65529"
    "unat n \<le> 65529 \<longrightarrow> mem_ample s \<longrightarrow> st = wc_ok"
proof (cases "unat n \<le> 65529")
  case True
  show thesis
    by (rule encode_request_fits [where b = "snd (wc_buffer_init 65535)" and s = s, OF _ assms(1,2) True])
       (use True assms(3) in \<open>auto intro: that\<close>)
next
  case False
  have "wc_protocol_encode_request (snd (wc_buffer_init 65535)) t arg n s = Some (Inl EMSGSIZE, snd (wc_buffer_init 65535), s)"
    using encode_request_refused [OF _ assms(2), where b = "snd (wc_buffer_init 65535)" and s = s and t = t] assms(1) False by auto
  then show thesis using False by (intro that) auto
qed

lemma client_main_unfold:
  assumes "client_option_loop (drop 1 arguments) client_defaults = Some (opts, args)" "client_request args = Some (t, arg, n)"
  shows "client_main env arguments lg s = do {
     (st, request, s1) \<leftarrow> wc_protocol_encode_request (snd (wc_buffer_init 65535)) t arg n s;
     if st \<noteq> wc_ok \<or> cl_sigpipe env \<noteq> wc_ok then Some (1, wc_log_set_level (co_log_level opts) lg, snd (wc_buffer_destroy request s1))
     else do { (result, s2) \<leftarrow> client_exchange opts env request s1; Some (result, wc_log_set_level (co_log_level opts) lg, s2) }
   }"
  using assms by (auto simp: client_main_def Let_def wc_buffer_init_def UINT16_MAX_def intro!: Option.bind_cong)

lemma option_arguments:
  assumes "client_option_loop (drop 1 arguments) client_defaults = Some (opts, args)" "\<forall>a \<in> set arguments. length a < 2 ^ 64"
  shows "\<forall>a \<in> set args. length a < 2 ^ 64"
proof -
  have "suffix args (drop 1 arguments)"
    using client_loop_typed [OF assms(1)] by (simp add: client_defaults_def wc_log_level_valid_def)
  then show ?thesis using assms(2) set_mono_suffix set_drop_subset by fastforce
qed

text \<open>System calls that let the client succeed with a request of \<open>len\<close> bytes and a response with data \<open>d\<close>.\<close>

definition connected_env :: "client_env \<Rightarrow> client_options \<Rightarrow> nat \<Rightarrow> byte list \<Rightarrow> bool" where
  "connected_env env opts len d \<longleftrightarrow> cl_sigpipe env = wc_ok \<and> reachable_address env opts \<and> cl_close env = wc_ok \<and>
     (case cl_socket env of Inl _ \<Rightarrow> False | Inr f \<Rightarrow> f \<noteq> 1) \<and>
     willing (cl_sends env) \<and> len \<le> accepted (cl_sends env) \<and> willing (cl_stdout env) \<and> length d \<le> accepted (cl_stdout env)"

lemma client_main_returns:
  assumes o: "client_option_loop (drop 1 arguments) client_defaults = Some (opts, args)" "client_request args = Some (t, arg, n)"
    and args: "\<forall>a \<in> set arguments. length a < 2 ^ 64" and m: "mem_ample s" and n: "length (opt_bytes arg) \<le> 65529"
    and env: "connected_env env opts (6 + length (opt_bytes arg)) d"
    and reads: "response_spec (stream_of (cl_reads env)) = Frame d k"
  shows "\<exists>lg' s'. client_main env arguments lg s = Some (0, lg', s')"
proof -
  note T = client_request_typed [OF o(2) option_arguments [OF o(1) args]]
  obtain st b s1 where e: "wc_protocol_encode_request (snd (wc_buffer_init 65535)) t arg n s = Some (st, b, s1)" "buf_wf b"
    "sys_frame s s1" "st = wc_ok \<longrightarrow> buf_bytes b = request_frame t (opt_bytes arg) \<and> unat n \<le> 65529" "unat n \<le> 65529 \<longrightarrow> mem_ample s \<longrightarrow> st = wc_ok"
    by (rule encode_bytes [OF T(1-3)])
  have st: "st = wc_ok" using e(5) n m T(4) by simp
  have m1: "mem_ample s1" using sys_frame_mem_ample [OF e(3)] m by simp
  obtain f where f: "cl_socket env = Inr f" using env by (auto simp: connected_env_def split: sum.splits)
  have "\<exists>s'. client_exchange opts env b s1 = Some (0, s')"
    by (rule exchange_returns [OF e(2) m1 f _ _ _ _ reads]) (use env e(4) st in \<open>auto simp: connected_env_def\<close>)
  then show ?thesis using e(1) st env unfolding client_main_unfold [OF o] by (auto simp: connected_env_def)
qed

lemma client_main_sound:
  assumes args: "\<forall>a \<in> set arguments. length a < 2 ^ 64" and f1: "cl_socket env \<noteq> Inr 1"
    and run: "client_main env arguments lg s = Some (status, lg', s')"
  shows "\<exists>evs. s_trace s' = s_trace s @ evs \<and> s_live s' = s_live s \<and> fd_run {1} evs = Some {1} \<and> status \<in> {0, 1, 2} \<and>
     (status = 2 \<longrightarrow> evs = []) \<and>
     (status = 0 \<longrightarrow> (\<exists>opts operands t arg n f d k. client_option_loop (drop 1 arguments) client_defaults = Some (opts, operands) \<and>
        client_request operands = Some (t, arg, n) \<and> t \<in> {1, 2, 3} \<and> length (opt_bytes arg) \<le> 65529 \<and> cl_socket env = Inr f \<and> sent_to f evs = request_frame t (opt_bytes arg) \<and>
        response_spec (received_from f evs) = Frame d k \<and> sent_to 1 evs = d))"
proof (cases "\<exists>opts operands t arg n. client_option_loop (drop 1 arguments) client_defaults = Some (opts, operands) \<and>
    client_request operands = Some (t, arg, n)")
  case False
  then have "status = 2 \<and> s' = s"
    using run by (auto simp: client_main_def Let_def split: option.splits)
  then show ?thesis by (intro exI [of _ "[]"]) simp
next
  case True
  then obtain opts operands t arg n where o: "client_option_loop (drop 1 arguments) client_defaults = Some (opts, operands)"
    "client_request operands = Some (t, arg, n)" by blast
  note T = client_request_typed [OF o(2) option_arguments [OF o(1) args]]
  obtain st b s1 where e: "wc_protocol_encode_request (snd (wc_buffer_init 65535)) t arg n s = Some (st, b, s1)" "buf_wf b"
    "sys_frame s s1" "s_live s1 = s_live s + buf_owned b" "st = wc_ok \<longrightarrow> buf_bytes b = request_frame t (opt_bytes arg) \<and> unat n \<le> 65529"
    by (rule encode_bytes [OF T(1-3)])
  note run2 = run [unfolded client_main_unfold [OF o] e(1) Option.bind.bind_lunit prod.case]
  show ?thesis
  proof (cases "st \<noteq> wc_ok \<or> cl_sigpipe env \<noteq> wc_ok")
    case fails: True
    then have s': "status = 1" "s' = snd (wc_buffer_destroy b s1)" using run2 by auto
    obtain b2 where d: "wc_buffer_destroy b s1 = (b2, s')" using s' by (cases "wc_buffer_destroy b s1") auto
    from destroy_spec(5,6) [OF d] e(3,4) s'(1) show ?thesis by (intro exI [of _ "[]"]) (auto simp: sys_frame_def)
  next
    case False
    then have "client_exchange opts env b s1 = Some (status, s')" using run2 by (auto split: Option.bind_splits)
    from exchange_sound [OF e(2) f1 this] obtain evs where x: "effect s1 s' evs" "s_live s' = s_live s1 - buf_owned b"
      "exchange_ok env (buf_bytes b) evs status" by blast
    have "s_trace s' = s_trace s @ evs" using effect_trace [OF x(1)] e(3) by (simp add: sys_frame_def)
    with x(2,3) e(4,5) o False T(1,4) show ?thesis by (intro exI [of _ evs]) (auto simp: exchange_ok_def)
  qed
qed

section \<open>Properties\<close>

text \<open>
  C19. The client prints the response. Whenever \<open>wc_client_receive_response\<close> returns, its buffer is freed; if the bytes that
  arrive begin with a complete response frame, what it has written to standard output is a prefix of the data of that response,
  all of it when it reports success; if they do not, it reports an error and has written nothing. With enough memory, when
  they begin with a complete frame and standard output accepts its data, it returns success, however the bytes were cut into
  pieces and calls interrupted.
\<close>

theorem client_receive_correct:
  "(\<forall>st s'. wc_client_receive_response f reads out s = Some (st, s') \<longrightarrow> s_live s' = s_live s \<and>
      (\<exists>w. sent_to 1 (s_trace s') = sent_to 1 (s_trace s) @ w \<and>
        (case response_spec (stream_of reads) of
           Frame d k \<Rightarrow> prefix w d \<and> (st = wc_ok \<longrightarrow> w = d)
         | _ \<Rightarrow> st \<noteq> wc_ok \<and> w = []))) \<and>
   (\<forall>d k. mem_ample s \<and> response_spec (stream_of reads) = Frame d k \<and> willing out \<and> length d \<le> accepted out \<longrightarrow>
      (\<exists>s'. wc_client_receive_response f reads out s = Some (wc_ok, s')))"
proof (intro conjI allI impI)
  fix st s'
  assume r: "wc_client_receive_response f reads out s = Some (st, s')"
  obtain outs bss where S: "sent_to 1 (s_trace s') = sent_to 1 (s_trace s) @ concat outs" "prefix (concat bss) (stream_of reads)"
      "case response_spec (concat bss) of
         Frame d k \<Rightarrow> prefix (concat outs) d \<and> (st = wc_ok \<longrightarrow> concat outs = d) | _ \<Rightarrow> st \<noteq> wc_ok \<and> outs = []"
      and live: "s_live s' = s_live s"
    by (rule receive_response_sound [OF r]) (auto simp: effect_trace)
  show "s_live s' = s_live s" by (rule live)
  have "response_spec (concat bss) \<noteq> More \<Longrightarrow> response_spec (stream_of reads) = response_spec (concat bss)"
    using S(2) response_spec_extend by (auto simp: prefix_def)
  with S(1,3) show "\<exists>w. sent_to 1 (s_trace s') = sent_to 1 (s_trace s) @ w \<and>
        (case response_spec (stream_of reads) of
           Frame d k \<Rightarrow> prefix w d \<and> (st = wc_ok \<longrightarrow> w = d) | _ \<Rightarrow> st \<noteq> wc_ok \<and> w = [])"
    by (intro exI [of _ "concat outs"]) (auto split: frame.splits)
next
  fix d k
  assume "mem_ample s \<and> response_spec (stream_of reads) = Frame d k \<and> willing out \<and> length d \<le> accepted out"
  then have ok: "mem_ample s" "response_spec (stream_of reads) = Frame d k" "willing out" "length d \<le> accepted out" by simp_all
  show "\<exists>s'. wc_client_receive_response f reads out s = Some (wc_ok, s')"
    using receive_returns [OF init_input ok(1) _ ok(3,4), of reads k f] ok(2) by (auto simp: receive_response_unfold)
qed


section \<open>Witnesses\<close>

definition demo_client_env :: client_env where
  "demo_client_env = \<lparr>cl_sigpipe = wc_ok, cl_pton = (\<lambda>_. Inr (Some 2130706433)), cl_socket = Inr 3, cl_connect = (\<lambda>_. wc_ok), cl_sends = [Send_bytes 4, Send_bytes 9],
     cl_reads = [Read_bytes [0], Read_error EINTR, Read_bytes [1, 47, 9]], cl_stdout = [Send_error EINTR, Send_bytes 5], cl_close = wc_ok\<rparr>"

lemma demo_client_facts:
  "client_option_loop (drop 1 [c_str ''client'', c_str ''PWD'']) client_defaults = Some (client_defaults, [c_str ''PWD''])"
  "client_request [c_str ''PWD''] = Some (2, None, 0)" "\<forall>a \<in> set [c_str ''client'', c_str ''PWD'']. length a < 2 ^ 64"
  "connected_env demo_client_env client_defaults (6 + length (opt_bytes None)) [47]" "length (opt_bytes None) \<le> 65529"
  "response_spec (stream_of (cl_reads demo_client_env)) = Frame [47] 3" "cl_socket demo_client_env \<noteq> Inr 1"
  by (simp_all add: client_request_def wc_client_parse_command_def c_str_def of_char_def connected_env_def reachable_address_def demo_client_env_def
      client_defaults_def opt_bytes_def response_spec_def u16_at_def)

theorem client_receive_correct_witness:
  "\<exists>s'. wc_client_receive_response 3 [Read_bytes [0], Read_error EINTR, Read_bytes [1, 47, 9]] [Send_bytes 5] (sys0 :: unit sys) =
     Some (wc_ok, s') \<and> sent_to 1 (s_trace s') = [47]"
proof -
  let ?reads = "[Read_bytes [0], Read_error EINTR, Read_bytes [1, 47, 9]]"
  note c = client_receive_correct [of 3 ?reads "[Send_bytes 5]" "sys0 :: unit sys"]
  have r: "response_spec (stream_of ?reads) = Frame [47] 3" by (simp add: response_spec_def u16_at_def)
  obtain s' where s': "wc_client_receive_response 3 ?reads [Send_bytes 5] (sys0 :: unit sys) = Some (wc_ok, s')"
    using c r mem_ample_sys0 by fastforce
  moreover have "sent_to 1 (s_trace s') = [47]" using c s' unfolding r by (simp add: sys0_def)
  ultimately show ?thesis by blast
qed


end
