(* ===== verification/WC_Programs.thy ===== *)
theory WC_Programs
  imports WC_Options WC_Pool_Theorems
begin

text \<open>
  The server programs: \<open>main\<close>, the signal handlers and the installation of signal dispositions of
  \<^verbatim>\<open>src/src/main_tcp.c\<close>, \<^verbatim>\<open>src/src/main_uds.c\<close> and \<^verbatim>\<open>src/src/main_uds_threaded.c\<close>, on top of the option loops of
  \<open>WC_Options\<close> and the runs of the servers. The moment at which a stop signal arrives is the number of iterations of the
  main loop, an input of the run.

  The lemmas say what an exit status of 0 means.
\<close>

section \<open>Signals\<close>

datatype disposition = Sig_default | Sig_ignore | Sig_stop

abbreviation (input) SIGINT :: int where "SIGINT \<equiv> 2"
abbreviation (input) SIGPIPE :: int where "SIGPIPE \<equiv> 13"
abbreviation (input) SIGTERM :: int where "SIGTERM \<equiv> 15"

text \<open>The dispositions, the flag \<open>wc_tcp_stop_requested\<close> (or its counterpart) and the logger of a process.\<close>

record process =
  pr_signals :: "int \<Rightarrow> disposition"
  pr_stop_requested :: bool
  pr_log :: log_state

text \<open>The results of \<open>sigemptyset\<close> and \<open>sigaction\<close> for each signal.\<close>

record signal_env =
  se_emptyset :: "int \<Rightarrow> status"
  se_action :: "int \<Rightarrow> status"

definition wc_socket_ignore_sigpipe :: "signal_env \<Rightarrow> process \<Rightarrow> status \<times> process" where
  "wc_socket_ignore_sigpipe se pr =
     (if se_emptyset se SIGPIPE \<noteq> wc_ok then (se_emptyset se SIGPIPE, pr)
      else if se_action se SIGPIPE \<noteq> wc_ok then (se_action se SIGPIPE, pr)
      else (wc_ok, pr\<lparr>pr_signals := (pr_signals pr)(SIGPIPE := Sig_ignore)\<rparr>))"

definition wc_tcp_handle_stop_signal :: "int \<Rightarrow> process \<Rightarrow> process" where
  "wc_tcp_handle_stop_signal signal_number pr = pr\<lparr>pr_stop_requested := True\<rparr>"

definition wc_tcp_install_stop_handler :: "signal_env \<Rightarrow> int \<Rightarrow> process \<Rightarrow> status \<times> process" where
  "wc_tcp_install_stop_handler se signal_number pr =
     (if se_emptyset se signal_number \<noteq> wc_ok then (se_emptyset se signal_number, pr)
      else if se_action se signal_number \<noteq> wc_ok then (se_action se signal_number, pr)
      else (wc_ok, pr\<lparr>pr_signals := (pr_signals pr)(signal_number := Sig_stop)\<rparr>))"

definition wc_handle_stop_signal :: "int \<Rightarrow> process \<Rightarrow> process" where
  "wc_handle_stop_signal signal_number pr = pr\<lparr>pr_stop_requested := True\<rparr>"

definition wc_install_stop_handler :: "signal_env \<Rightarrow> int \<Rightarrow> process \<Rightarrow> status \<times> process" where
  "wc_install_stop_handler se signal_number pr =
     (if se_emptyset se signal_number \<noteq> wc_ok then (se_emptyset se signal_number, pr)
      else if se_action se signal_number \<noteq> wc_ok then (se_action se signal_number, pr)
      else (wc_ok, pr\<lparr>pr_signals := (pr_signals pr)(signal_number := Sig_stop)\<rparr>))"

definition wc_threaded_handle_stop_signal :: "int \<Rightarrow> process \<Rightarrow> process" where
  "wc_threaded_handle_stop_signal signal_number pr = pr\<lparr>pr_stop_requested := True\<rparr>"

definition wc_threaded_install_stop_handler :: "signal_env \<Rightarrow> int \<Rightarrow> process \<Rightarrow> status \<times> process" where
  "wc_threaded_install_stop_handler se signal_number pr =
     (if se_emptyset se signal_number \<noteq> wc_ok then (se_emptyset se signal_number, pr)
      else if se_action se signal_number \<noteq> wc_ok then (se_action se signal_number, pr)
      else (wc_ok, pr\<lparr>pr_signals := (pr_signals pr)(signal_number := Sig_stop)\<rparr>))"

section \<open>The programs\<close>

text \<open>The exit status, the process and, when the server was run, its final state.\<close>

definition tcp_main :: "(errno \<Rightarrow> byte list) \<Rightarrow> byte list list \<Rightarrow> signal_env \<Rightarrow> tcp_listener_env \<Rightarrow> main_env list \<Rightarrow> run_env \<Rightarrow>
    process \<Rightarrow> unit sys \<Rightarrow> (int \<times> process \<times> pool option) option" where
  "tcp_main strerror arguments se lenv ms env pr s =
     (case tcp_option_loop (drop 1 arguments) tcp_defaults of
        None \<Rightarrow> Some (2, pr, None)
      | Some opts \<Rightarrow>
          let pr0 = pr\<lparr>pr_log := wc_log_set_level (to_log_level opts) (pr_log pr)\<rparr>;
              (st1, pr1) = wc_socket_ignore_sigpipe se pr0 in
          if st1 \<noteq> wc_ok then Some (1, pr1, None)
          else let (st2, pr2) = wc_tcp_install_stop_handler se SIGINT pr1 in
            if st2 \<noteq> wc_ok then Some (1, pr2, None)
            else let (st3, pr3) = wc_tcp_install_stop_handler se SIGTERM pr2 in
              if st3 \<noteq> wc_ok then Some (1, pr3, None)
              else do {
                (st, p) \<leftarrow> wc_server_tcp_run strerror (Some (to_bind_address opts)) (to_port opts) True lenv ms env s;
                Some (if st \<noteq> wc_ok then 1 else 0, pr3, Some p)
              })"

definition uds_main :: "(errno \<Rightarrow> byte list) \<Rightarrow> byte list list \<Rightarrow> signal_env \<Rightarrow> clients \<Rightarrow> listener_env \<Rightarrow> uds_io list \<Rightarrow>
    status \<Rightarrow> status \<Rightarrow> process \<Rightarrow> qsys \<Rightarrow> (int \<times> process \<times> qsys option) option" where
  "uds_main strerror arguments se table env ios close_st unlink_st pr s =
     (case uds_option_loop (drop 1 arguments) uds_defaults of
        None \<Rightarrow> Some (2, pr, None)
      | Some opts \<Rightarrow>
          let pr0 = pr\<lparr>pr_log := wc_log_set_level (uo_log_level opts) (pr_log pr)\<rparr>;
              (st1, pr1) = wc_socket_ignore_sigpipe se pr0 in
          if st1 \<noteq> wc_ok then Some (1, pr1, None)
          else let (st2, pr2) = wc_install_stop_handler se SIGINT pr1 in
            if st2 \<noteq> wc_ok then Some (1, pr2, None)
            else let (st3, pr3) = wc_install_stop_handler se SIGTERM pr2 in
              if st3 \<noteq> wc_ok then Some (1, pr3, None)
              else do {
                (st, s1) \<leftarrow> wc_server_uds_run strerror (Some (uo_socket_path opts)) True table env ios close_st unlink_st s;
                Some (if st \<noteq> wc_ok then 1 else 0, pr3, Some s1)
              })"

definition threaded_main :: "(errno \<Rightarrow> byte list) \<Rightarrow> byte list list \<Rightarrow> signal_env \<Rightarrow> listener_env \<Rightarrow> main_env list \<Rightarrow> run_env \<Rightarrow>
    status \<Rightarrow> process \<Rightarrow> unit sys \<Rightarrow> (int \<times> process \<times> pool option) option" where
  "threaded_main strerror arguments se lenv ms env unlink_st pr s =
     (case threaded_option_loop (drop 1 arguments) threaded_defaults of
        None \<Rightarrow> Some (2, pr, None)
      | Some opts \<Rightarrow>
          let pr0 = pr\<lparr>pr_log := wc_log_set_level (uo_log_level opts) (pr_log pr)\<rparr>;
              (st1, pr1) = wc_socket_ignore_sigpipe se pr0 in
          if st1 \<noteq> wc_ok then Some (1, pr1, None)
          else let (st2, pr2) = wc_threaded_install_stop_handler se SIGINT pr1 in
            if st2 \<noteq> wc_ok then Some (1, pr2, None)
            else let (st3, pr3) = wc_threaded_install_stop_handler se SIGTERM pr2 in
              if st3 \<noteq> wc_ok then Some (1, pr3, None)
              else do {
                (st, p) \<leftarrow> wc_server_uds_threaded_run strerror (Some (uo_socket_path opts)) True lenv ms env unlink_st s;
                Some (if st \<noteq> wc_ok then 1 else 0, pr3, Some p)
              })"

section \<open>Lemmas\<close>

lemma install_eqs:
  "wc_install_stop_handler = wc_tcp_install_stop_handler" "wc_threaded_install_stop_handler = wc_tcp_install_stop_handler"
  by (intro ext, simp only: wc_install_stop_handler_def wc_tcp_install_stop_handler_def wc_threaded_install_stop_handler_def)+

text \<open>A process that serves: a broken connection does not kill it, \<open>SIGINT\<close> and \<open>SIGTERM\<close> stop it, and it logs at \<open>level\<close>.\<close>

definition serving :: "wc_log_level \<Rightarrow> process \<Rightarrow> bool" where
  "serving level pr \<longleftrightarrow> wc_log_level_valid level \<and> wc_log_get_level (pr_log pr) = level \<and>
     pr_signals pr SIGPIPE = Sig_ignore \<and> pr_signals pr SIGINT = Sig_stop \<and> pr_signals pr SIGTERM = Sig_stop"

lemma setup_serving:
  assumes "wc_socket_ignore_sigpipe se (pr\<lparr>pr_log := wc_log_set_level level (pr_log pr)\<rparr>) = (wc_ok, pr1)"
    "wc_tcp_install_stop_handler se SIGINT pr1 = (wc_ok, pr2)" "wc_tcp_install_stop_handler se SIGTERM pr2 = (wc_ok, pr3)"
    "wc_log_level_valid level"
  shows "serving level pr3"
  using assms
  by (auto simp: serving_def wc_socket_ignore_sigpipe_def wc_tcp_install_stop_handler_def wc_log_set_level_def wc_log_get_level_def
      split: if_splits)

lemma tcp_loop_typed:
  assumes "tcp_option_loop args opts = Some opts'" "wc_log_level_valid (to_log_level opts)"
  shows "wc_log_level_valid (to_log_level opts')"
  using assms
  by (induction args opts rule: tcp_option_loop.induct) (auto simp: parse_log_level_eqs parse_log_level_valid split: if_splits sum.splits)

lemma uds_loop_typed:
  assumes "uds_option_loop args opts = Some opts'" "wc_log_level_valid (uo_log_level opts)"
  shows "wc_log_level_valid (uo_log_level opts')"
  using assms
  by (induction args opts rule: uds_option_loop.induct) (auto simp: parse_log_level_eqs parse_log_level_valid split: if_splits sum.splits)

lemma threaded_option_eq: "threaded_option_loop args opts = uds_option_loop args opts"
  by (induction args opts rule: uds_option_loop.induct) (simp_all add: parse_log_level_eqs split: sum.split)

lemmas level_info = wc_log_level_valid_def tcp_defaults_def uds_defaults_def threaded_defaults_def

lemma tcp_main_zero:
  assumes "tcp_main strerror arguments se lenv ms env pr s = Some (0, pr', r)"
  obtains opts p where "tcp_option_loop (drop 1 arguments) tcp_defaults = Some opts" "r = Some p" "serving (to_log_level opts) pr'"
    "wc_server_tcp_run strerror (Some (to_bind_address opts)) (to_port opts) True lenv ms env s = Some (wc_ok, p)"
proof -
  obtain opts where o: "tcp_option_loop (drop 1 arguments) tcp_defaults = Some opts"
    using assms by (auto simp: tcp_main_def split: option.splits)
  have v: "wc_log_level_valid (to_log_level opts)" by (rule tcp_loop_typed [OF o]) (simp add: level_info)
  show thesis
    using assms [unfolded tcp_main_def o option.case Let_def] that [OF o] setup_serving [OF _ _ _ v, where se = se and pr = pr]
    by (auto split: prod.splits if_splits Option.bind_splits)
qed

lemma uds_main_zero:
  assumes "uds_main strerror arguments se table env ios close_st unlink_st pr s = Some (0, pr', r)"
  obtains opts s' where "uds_option_loop (drop 1 arguments) uds_defaults = Some opts" "r = Some s'" "serving (uo_log_level opts) pr'"
    "wc_server_uds_run strerror (Some (uo_socket_path opts)) True table env ios close_st unlink_st s = Some (wc_ok, s')"
proof -
  obtain opts where o: "uds_option_loop (drop 1 arguments) uds_defaults = Some opts"
    using assms by (auto simp: uds_main_def split: option.splits)
  have v: "wc_log_level_valid (uo_log_level opts)" by (rule uds_loop_typed [OF o]) (simp add: level_info)
  show thesis
    using assms [unfolded uds_main_def o option.case install_eqs Let_def] that [OF o] setup_serving [OF _ _ _ v, where se = se and pr = pr]
    by (auto split: prod.splits if_splits Option.bind_splits)
qed

lemma threaded_main_zero:
  assumes "threaded_main strerror arguments se lenv ms env unlink_st pr s = Some (0, pr', r)"
  obtains opts p where "threaded_option_loop (drop 1 arguments) threaded_defaults = Some opts" "r = Some p" "serving (uo_log_level opts) pr'"
    "wc_server_uds_threaded_run strerror (Some (uo_socket_path opts)) True lenv ms env unlink_st s = Some (wc_ok, p)"
proof -
  obtain opts where o: "threaded_option_loop (drop 1 arguments) threaded_defaults = Some opts"
    using assms by (auto simp: threaded_main_def split: option.splits)
  have v: "wc_log_level_valid (uo_log_level opts)"
    by (rule uds_loop_typed [OF o [unfolded threaded_option_eq]]) (simp add: level_info)
  show thesis
    using assms [unfolded threaded_main_def o option.case install_eqs Let_def] that [OF o] setup_serving [OF _ _ _ v, where se = se and pr = pr]
    by (auto split: prod.splits if_splits Option.bind_splits)
qed

section \<open>Properties\<close>

text \<open>
  C20. What exit status 0 of the TCP server program means: the command line was accepted; the process ignores \<open>SIGPIPE\<close>, stops on
  \<open>SIGINT\<close> and \<open>SIGTERM\<close> and logs at the requested, valid level; and when the program ends every worker
  thread has returned, no memory is left allocated and every descriptor is closed. The exit status 0 alone implies that
  all threads were joined.
\<close>

theorem tcp_program_correct:
  assumes "s_trace s = []" "fresh_mains ms" "tcp_main strerror arguments se lenv ms env pr s = Some (0, pr', r)"
  shows "\<exists>opts p. tcp_option_loop (drop 1 arguments) tcp_defaults = Some opts \<and> r = Some p \<and>
     wc_log_level_valid (to_log_level opts) \<and> wc_log_get_level (pr_log pr') = to_log_level opts \<and>
     pr_signals pr' SIGPIPE = Sig_ignore \<and> pr_signals pr' SIGINT = Sig_stop \<and> pr_signals pr' SIGTERM = Sig_stop \<and>
     (\<forall>t \<in> set (pl_threads p). t = Returned) \<and> s_live (pl_sys p) = s_live s \<and> fd_run {} (s_trace (pl_sys p)) = Some {}"
proof -
  obtain opts p where z: "tcp_option_loop (drop 1 arguments) tcp_defaults = Some opts" "r = Some p" "serving (to_log_level opts) pr'"
    "wc_server_tcp_run strerror (Some (to_bind_address opts)) (to_port opts) True lenv ms env s = Some (wc_ok, p)"
    by (rule tcp_main_zero [OF assms(3)])
  from run_ok_released [OF tcp_run_ok [OF assms(1,2) z(4)] disjI2 [OF refl]] z(1-3) show ?thesis by (auto simp: serving_def)
qed

text \<open>The same for the two Unix-domain server programs.\<close>

lemma uds_program_correct:
  assumes "length table = 64" "s_nodes s = Map.empty" "s_trace s = []" "fresh_ios ios"
    "uds_main strerror arguments se table env ios close_st unlink_st pr s = Some (0, pr', r)"
  shows "\<exists>opts s'. uds_option_loop (drop 1 arguments) uds_defaults = Some opts \<and> r = Some s' \<and> serving (uo_log_level opts) pr' \<and>
     s_live s' = s_live s \<and> fd_run {} (s_trace s') = Some {}"
proof -
  obtain opts s' where z: "uds_option_loop (drop 1 arguments) uds_defaults = Some opts" "r = Some s'" "serving (uo_log_level opts) pr'"
    "wc_server_uds_run strerror (Some (uo_socket_path opts)) True table env ios close_st unlink_st s = Some (wc_ok, s')"
    by (rule uds_main_zero [OF assms(5)])
  have "all_released strerror s s'"
    using run_released [OF assms(1-4), of strerror "Some (uo_socket_path opts)" True env close_st unlink_st] z(4) by auto
  with z(1-3) show ?thesis by (auto simp: all_released_def)
qed

lemma threaded_program_correct:
  assumes "s_trace s = []" "fresh_mains ms" "threaded_main strerror arguments se lenv ms env unlink_st pr s = Some (0, pr', r)"
  shows "\<exists>opts p. threaded_option_loop (drop 1 arguments) threaded_defaults = Some opts \<and> r = Some p \<and> serving (uo_log_level opts) pr' \<and>
     (\<forall>t \<in> set (pl_threads p). t = Returned) \<and> s_live (pl_sys p) = s_live s \<and> fd_run {} (s_trace (pl_sys p)) = Some {}"
proof -
  obtain opts p where z: "threaded_option_loop (drop 1 arguments) threaded_defaults = Some opts" "r = Some p" "serving (uo_log_level opts) pr'"
    "wc_server_uds_threaded_run strerror (Some (uo_socket_path opts)) True lenv ms env unlink_st s = Some (wc_ok, p)"
    by (rule threaded_main_zero [OF assms(3)])
  from run_ok_released [OF threaded_run_ok [OF assms(1,2) z(4)] disjI2 [OF refl]] z(1-3) show ?thesis by auto
qed

section \<open>Witnesses\<close>

text \<open>The program without options and without clients.\<close>

definition demo_signals :: signal_env where
  "demo_signals = \<lparr>se_emptyset = (\<lambda>_. wc_ok), se_action = (\<lambda>_. wc_ok)\<rparr>"

definition demo_process :: process where
  "demo_process = \<lparr>pr_signals = (\<lambda>_. Sig_default), pr_stop_requested = False, pr_log = log_initial\<rparr>"

lemma demo_tcp_main:
  "map_option (\<lambda>(status, pr, r). (status, wc_minimum_level (pr_log pr), map_option (\<lambda>p. s_trace (pl_sys p)) r))
     (tcp_main (\<lambda>_. []) [c_str ''tcp'', c_str ''--log-level'', c_str ''Debug''] demo_signals demo_tcp [] demo_run demo_process sys0) =
   Some (0, 3, Some [Ev_open 3, Ev_close 3])"
  by code_simp

theorem tcp_program_correct_witness:
  "\<exists>pr r p. tcp_main (\<lambda>_. []) [c_str ''tcp'', c_str ''--log-level'', c_str ''Debug''] demo_signals demo_tcp [] demo_run demo_process sys0 =
     Some (0, pr, r) \<and> r = Some p \<and> pr_signals pr SIGTERM = Sig_stop \<and> fd_run {} (s_trace (pl_sys p)) = Some {}"
proof -
  obtain pr r where r: "tcp_main (\<lambda>_. []) [c_str ''tcp'', c_str ''--log-level'', c_str ''Debug''] demo_signals demo_tcp [] demo_run
      demo_process sys0 = Some (0, pr, r)"
    using demo_tcp_main by auto
  have "fresh_mains []" by simp
  from tcp_program_correct [OF demo_run_facts(1) this r] r show ?thesis by auto
qed

end
