(* ===== verification/Spec2Isabelle.thy ===== *)
theory Spec2Isabelle
  imports WC_Prelude WC_Buffer WC_Protocol WC_Queue WC_Commands WC_Logging WC_Socket WC_Respond WC_Server_UDS WC_UDS_Handlers WC_UDS_Invariant WC_UDS_Run
    WC_History WC_Server_TCP WC_Server_Threaded WC_Session WC_TCP_Main WC_Threaded_Main WC_Pool WC_Pool_Run WC_Pool_Theorems WC_Lifecycle
    WC_Options WC_Client WC_Programs
begin

text \<open>
  \<^bold>\<open>WireCommand.\<close> A client sends one request (\<open>LS\<close>, \<open>PWD\<close> or \<open>CAT\<close> with an argument) in a binary frame over a stream socket
  and prints the data of the response frame. Three server programs answer: a single-threaded Unix-domain server around \<open>poll\<close> with
  a queue of requests, and two servers with one worker thread per connection, over TCP and over Unix-domain sockets. All of them use
  the same buffer, protocol, command, logging and socket modules; commands are run by the shell through \<open>popen\<close>.

  \<^bold>\<open>The model.\<close> Every C function is a HOL function with the same name where possible; functions that are
  loops of a larger one have names of their own. The state of the process outside the modelled structures is the record \<open>sys\<close> of
  \<open>WC_Prelude\<close>: an allocator that may refuse any request, the contents of uninitialised memory, the number of live blocks, the
  heap of queue nodes, the behaviour of child processes, and the trace of externally visible events (descriptors opened, closed, read and
  written, commands run, paths unlinked). A function returns an option: \<open>None\<close> is undefined behaviour, or a loop or a call that never
  ends. A result of -1 with \<open>errno\<close> is \<open>Inl e\<close> and 0 is \<open>wc_ok\<close>. Sizes are 64-bit words and wrap around; bytes are 8-bit words. What the
  kernel answers to system calls is an argument: scripts for \<open>read\<close>, \<open>write\<close> and \<open>send\<close>, outcomes of
  \<open>accept\<close> and \<open>poll\<close>, and the results of the remaining calls. Theorems quantify over all of these. The servers' safety theorems
  demand of them only that \<open>accept\<close> and \<open>socket\<close> return descriptors that are not open; a theorem that an operation succeeds
  names what it needs beyond that: an allocator that never refuses (\<open>mem_ample\<close>), a peer that accepts bytes (\<open>willing\<close>), threads that are
  scheduled. The flag values of \<open>fcntl\<close> and what \<open>F_SETFL\<close> changes are those of Linux.

  \<^bold>\<open>Theories and sources.\<close>
  \<^item> \<open>WC_Prelude\<close>: machine types, \<open>errno\<close>, \<open>sys\<close>, the memory functions of the C library.
  \<^item> \<open>WC_Buffer\<close>, \<^verbatim>\<open>src/src/buffer.c\<close>: the bounded buffer, as a byte sequence with a limit.
  \<^item> \<open>WC_Protocol\<close>, \<^verbatim>\<open>src/src/protocol.c\<close>: both encoders and both incremental parsers, equal to frame layouts in plain
    arithmetic; locale \<open>framing\<close>, interpreted for requests and responses, shows that parsing does not depend on how bytes arrive.
  \<^item> \<open>WC_Queue\<close>, \<^verbatim>\<open>src/src/queue.c\<close>: the linked list of requests on an explicit heap, as a first-in-first-out list; locale \<open>request_fifo\<close>.
  \<^item> \<open>WC_Commands\<close>, \<^verbatim>\<open>src/src/commands.c\<close>: quoting, command lines, reading the child's output.
  \<^item> \<open>WC_Logging\<close>, \<^verbatim>\<open>src/src/logging.c\<close>: the logger. It changes nothing but standard error, which is why the models of the servers
    and the client leave its calls out.
  \<^item> \<open>WC_Socket\<close>, \<^verbatim>\<open>src/src/socket_utils.c\<close>: nonblocking mode, writing all bytes; system calls, traces and sessions.
  \<^item> \<open>WC_Respond\<close>: locale \<open>responder\<close>, the contract of the functions that answer one request, and the relation \<open>answers\<close> between a
    request, the child process and the reply. \<open>WC_History\<close>: what may have been sent in a session, given what was received.
  \<^item> \<open>WC_Server_UDS\<close>, \<^verbatim>\<open>src/src/server_uds.c\<close>: every function of the single-threaded server. \<open>WC_UDS_Handlers\<close>, \<open>WC_UDS_Invariant\<close> and
    \<open>WC_UDS_Run\<close>: the handlers one by one, the invariant of the event loop, and the run from start to shutdown.
  \<^item> \<open>WC_Server_TCP\<close> and \<open>WC_TCP_Main\<close>, \<^verbatim>\<open>src/src/server_tcp.c\<close>: the worker threads and the main thread of the TCP server.
    \<open>WC_Server_Threaded\<close> and \<open>WC_Threaded_Main\<close>, \<^verbatim>\<open>src/src/server_uds_threaded.c\<close>: the same for the threaded Unix-domain server.
  \<^item> \<open>WC_Session\<close>: one worker and its connection; locale \<open>connection\<close>, interpreted for both servers. \<open>WC_Pool\<close>: the invariant of
    table, threads, descriptors, memory and sessions. \<open>WC_Pool_Run\<close> and \<open>WC_Pool_Theorems\<close>: main loop, shutdown and runs; locale
    \<open>worker_pool\<close>, interpreted for both servers. \<open>WC_Lifecycle\<close>: the life of a thread as a step relation, and the reuse of slots.
  \<^item> \<open>WC_Options\<close>: the command lines of all programs. \<open>WC_Client\<close>, \<^verbatim>\<open>src/src/main_client.c\<close>: the client. \<open>WC_Programs\<close>,
    \<^verbatim>\<open>src/src/main_tcp.c\<close>, \<^verbatim>\<open>src/src/main_uds.c\<close> and \<^verbatim>\<open>src/src/main_uds_threaded.c\<close>: signals and \<open>main\<close> of the servers.
  \<^item> This theory: a client together with a server.

  \<^bold>\<open>Threads.\<close> The threads created so far are part of the state. A step of a worker is one iteration of its loop. A worker shares with
  the others only the lock-protected flags of its slot and the stop flag, so an iteration may be taken as one step. Wherever the main
  thread waits (for the lock, in \<open>poll\<close>, \<open>accept\<close> or \<open>pthread_join\<close>) an arbitrary schedule of steps is an argument of the model, and the theorems
  hold for all schedules. The allocator and the child processes are oracles indexed by a counter, so interleaved allocations are covered by
  the quantification over oracles.

  \<^bold>\<open>What is shown.\<close> For the modules: refinement of the buffer and the queue to sequences, round trips and exact acceptance of the protocol,
  that a quoted argument is one shell word, complete functional descriptions of the remaining operations with their error paths, and
  termination of their loops. For the servers: every run of the single-threaded server returns, all three keep their invariants, send in each session
  a prefix of the replies to an initial part of the requests received there, in order and with the output of the right command, run no other
  command, and leave no memory, thread or descriptor behind (the two threaded ones unless a call of \<open>pthread_join\<close> fails). For the client: it prints exactly the data of a complete response, and its exit status means what it says. For
  client and server together: when the client exits with 0, it has printed the reply to the command on its command line.

  \<^bold>\<open>Bounds.\<close> There is no fuel. Loops that end for a reason outside their data recurse over the script of the system calls that drive them, so
  that a list of any finite length is covered; loops that need an argument are \<open>partial_function\<close>s and shown to return. The run of a server
  takes a list with one entry per iteration of its main loop, whose end is the arrival of a stop signal. \<open>pthread_join\<close> is \<open>None\<close> when the
  thread has not returned by then; three steps of every thread after the stop flag is set are shown to be enough.

  \<^bold>\<open>Not modelled.\<close> Messages on standard error other than log records (usage texts, \<open>perror\<close>), since nothing reads them. The text of
  \<open>strerror\<close>, \<open>inet_pton\<close>, \<open>strftime\<close> and \<open>vsnprintf\<close>, the shell and the programs it starts, and the scheduler, which are parameters. The
  point inside an iteration at which a signal arrives: the flag is read only at the head of the loops. The signal masks of the
  workers are represented by the results of the calls that set them. Weak memory does not matter: what the main thread and a worker both access is
  protected by the lock or ordered by the creation and the joining of the thread.
\<close>

section \<open>A client and a server\<close>

text \<open>
  The two ends of a connection: the server's descriptor is \<open>g\<close>, in the history \<open>s\<close>. What one end receives is a
  prefix of what the other has sent.
\<close>

lemma exchange_reply:
  assumes hist: "history_ok strerror s g" and t: "t \<in> {1, 2, 3}" and a: "length a \<le> 65529"
    and request: "prefix (session_recv g (s_trace s)) (request_frame t a)"
    and reply: "prefix got (session_sent g (s_trace s))" "response_spec got = Frame d k"
  shows "\<exists>cmds. answers strerror (s_popen s) (mem_ample s) t a cmds d"
proof -
  obtain ans where ans: "prefix (session_sent g (s_trace s)) (concat (map (\<lambda>x. response_frame (snd (snd x))) ans))"
    "prefix (map asked ans) (fst (drain request_spec (session_recv g (s_trace s))))" "list_all (answered_ok strerror s) ans"
    using hist unfolding history_ok_def by blast
  have "drain request_spec (request_frame t a) = ([(t, a)], [], True)"
    using drain_frame [OF request_spec_frame [of t a "[]"]] t a by simp
  moreover obtain rest where "request_frame t a = session_recv g (s_trace s) @ rest" using request by (rule prefixE)
  ultimately have "prefix (fst (drain request_spec (session_recv g (s_trace s)))) [(t, a)]"
    using drain_prefix [of "session_recv g (s_trace s)" rest] by simp
  with ans(2) have "prefix (map asked ans) [(t, a)]" by (rule prefix_order.trans)
  moreover have "prefix got (concat (map (\<lambda>x. response_frame (snd (snd x))) ans))"
    by (rule prefix_order.trans [OF reply(1) ans(1)])
  moreover have "got \<noteq> []" using reply(2) by (auto simp: response_spec_def)
  ultimately obtain d1 where d1: "ans = [(t, a, d1)]" "prefix got (response_frame d1)"
    by (cases ans) auto
  have ok: "answered_ok strerror s (t, a, d1)" using ans(3) d1(1) by simp
  obtain more where "response_frame d1 = got @ more" using d1(2) by (rule prefixE)
  moreover have "response_spec (response_frame d1) = Frame d1 (2 + length d1)"
    using response_spec_frame [of d1 "[]"] ok by (simp add: answered_ok_def)
  ultimately have "d = d1" using response_spec_extend [of got more] reply(2) by simp
  with ok show ?thesis by (auto simp: answered_ok_def)
qed

lemma client_reply:
  assumes client: "\<forall>a \<in> set arguments. length a < 2 ^ 64" "cl_socket cenv = Inr f" "f \<noteq> 1" "s_trace cs = []"
      "client_main cenv arguments lg cs = Some (0, lg', cs')"
    and server: "history_ok strerror s g"
    and network: "prefix (session_recv g (s_trace s)) (sent_to f (s_trace cs'))"
      "prefix (received_from f (s_trace cs')) (session_sent g (s_trace s))"
  shows "\<exists>opts operands t arg n cmds. client_option_loop (drop 1 arguments) client_defaults = Some (opts, operands) \<and>
     client_request operands = Some (t, arg, n) \<and>
     answers strerror (s_popen s) (mem_ample s) t (opt_bytes arg) cmds (sent_to 1 (s_trace cs'))"
proof -
  have f1: "cl_socket cenv \<noteq> Inr 1" using client(2,3) by simp
  obtain opts operands t arg n d k where c: "client_option_loop (drop 1 arguments) client_defaults = Some (opts, operands)"
    "client_request operands = Some (t, arg, n)" "t \<in> {1, 2, 3}" "length (opt_bytes arg) \<le> 65529"
    "sent_to f (s_trace cs') = request_frame t (opt_bytes arg)" "response_spec (received_from f (s_trace cs')) = Frame d k"
    "sent_to 1 (s_trace cs') = d"
    using client_main_sound [OF client(1) f1 client(5)] client(2,4) by auto
  show ?thesis using exchange_reply [OF server c(3,4) network(1) [unfolded c(5)] network(2) c(6)] c(1,2,7) by blast
qed

section \<open>Properties\<close>

text \<open>
  C1. What a user of the TCP server sees. When the client exits with status 0, and on the connection each end received a prefix of
  the bytes the other end sent (as a stream socket guarantees), then what the client wrote to standard output is the reply to
  the command on its command line: the output of that command, run once by the server, or the text of the error that
  prevented it. This holds for every run of the server, whatever else it did.
\<close>

theorem client_tcp_end_to_end:
  assumes "s_trace s = []" "fresh_mains ms" "wc_server_tcp_run strerror bind_address port stop lenv ms env s = Some (st, p)"
    and "\<forall>a \<in> set arguments. length a < 2 ^ 64" "cl_socket cenv = Inr f" "f \<noteq> 1" "s_trace cs = []"
    and "client_main cenv arguments lg cs = Some (0, lg', cs')"
    and "prefix (session_recv g (s_trace (pl_sys p))) (sent_to f (s_trace cs'))"
      "prefix (received_from f (s_trace cs')) (session_sent g (s_trace (pl_sys p)))"
  shows "\<exists>opts operands t arg n cmds. client_option_loop (drop 1 arguments) client_defaults = Some (opts, operands) \<and>
     client_request operands = Some (t, arg, n) \<and>
     answers strerror (s_popen (pl_sys p)) (mem_ample (pl_sys p)) t (opt_bytes arg) cmds (sent_to 1 (s_trace cs'))"
proof -
  have "history_ok strerror (pl_sys p) g" using tcp_run_ok [OF assms(1-3)] by (simp add: run_ok_def pool_inv_def)
  from client_reply [OF assms(4-8) this assms(9,10)] show ?thesis .
qed

text \<open>
  C2. The same for the single-threaded Unix-domain server, which is the client's default.
\<close>

theorem client_uds_end_to_end:
  assumes "length table = 64" "s_nodes s = Map.empty" "s_trace s = []" "fresh_ios ios"
    and "wc_server_uds_run strerror socket_path stop table env ios close_st unlink_st s = Some (st, s')"
    and "\<forall>a \<in> set arguments. length a < 2 ^ 64" "cl_socket cenv = Inr f" "f \<noteq> 1" "s_trace cs = []"
    and "client_main cenv arguments lg cs = Some (0, lg', cs')"
    and "prefix (session_recv g (s_trace s')) (sent_to f (s_trace cs'))"
      "prefix (received_from f (s_trace cs')) (session_sent g (s_trace s'))"
  shows "\<exists>opts operands t arg n cmds. client_option_loop (drop 1 arguments) client_defaults = Some (opts, operands) \<and>
     client_request operands = Some (t, arg, n) \<and>
     answers strerror (s_popen s') (mem_ample s') t (opt_bytes arg) cmds (sent_to 1 (s_trace cs'))"
proof -
  have "all_released strerror s s'"
    using run_released [OF assms(1-4), of strerror socket_path stop env close_st unlink_st] assms(5) by auto
  then have "history_ok strerror s' g" by (simp add: all_released_def)
  from client_reply [OF assms(6-10) this assms(11,12)] show ?thesis .
qed

section \<open>Witnesses\<close>

text \<open>A client that asks for the working directory, and runs of the two servers that answer it.\<close>

definition pwd_client :: client_env where
  "pwd_client = demo_client_env\<lparr>cl_reads := [Read_bytes [0, 0]]\<rparr>"

lemma pwd_client_run:
  "map_option (\<lambda>(status, lg, cs). (status, s_trace cs)) (client_main pwd_client [c_str ''client'', c_str ''PWD''] log_initial (sys0 :: unit sys)) =
     Some (0, [Ev_open 3, Ev_send 3 [0, 6, 0, 2], Ev_send 3 [0, 0], Ev_recv 3 [0, 0], Ev_close 3])"
  by code_simp

definition pwd_mains :: "main_env list" where
  "pwd_mains = [demo_main\<lparr>me_reap := (\<lambda>_. \<lparr>re_sched = [], re_lock = True, re_unlock = True, re_join = True\<rparr>), me_sched := []\<rparr>,
     \<lparr>me_reap = (\<lambda>_. \<lparr>re_sched = [], re_lock = True, re_unlock = True, re_join = True\<rparr>),
      me_sched = [(0, demo_worker_env), (0, demo_worker_env), (0, demo_worker_env\<lparr>we_poll := Poll_events 4, we_send := Send_bytes 9\<rparr>)],
      me_poll = Inr 0, me_accepts = []\<rparr>]"

lemma pwd_server_run:
  "map_option (\<lambda>(st, p). s_trace (pl_sys p)) (wc_server_tcp_run (\<lambda>_. []) (Some [48]) 80 True demo_tcp pwd_mains demo_run sys0) =
     Some [Ev_open 3, Ev_open 4, Ev_recv 4 [0, 6, 0, 2, 0, 0], Ev_run (c_str ''pwd 2>/dev/null''), Ev_send 4 [0, 0], Ev_close 3, Ev_close 4]"
  by code_simp

definition pwd_ios :: "uds_io list" where
  "pwd_ios = [demo_io, demo_io\<lparr>io_poll := (\<lambda>_. Inr (0, \<lambda>_. 1))\<rparr>,
     demo_io\<lparr>io_poll := (\<lambda>_. Inr (0, \<lambda>_. 4)), io_sends := (\<lambda>_. [Send_bytes 9])\<rparr>]"

lemma pwd_uds_run:
  "map_option (\<lambda>(st, s). s_trace s) (wc_server_uds_run (\<lambda>_. []) (Some [47, 115]) True demo_table demo_env pwd_ios wc_ok wc_ok (sys0 :: qsys)) =
     Some [Ev_open 3, Ev_unlink [47, 115], Ev_open 4, Ev_recv 4 [0, 6, 0, 2, 0, 0], Ev_run (c_str ''pwd 2>/dev/null''), Ev_send 4 [0, 0],
       Ev_close 4, Ev_close 3, Ev_unlink [47, 115]]"
  by code_simp

lemma pwd_facts:
  "fresh_mains pwd_mains" "fresh_ios pwd_ios" "cl_socket pwd_client = Inr 3"
  using demo_run_facts(2) demo_facts(1) by (simp_all add: pwd_mains_def pwd_ios_def demo_main_def demo_io_def pwd_client_def demo_client_env_def)

theorem client_tcp_end_to_end_witness:
  "\<exists>st p lg cs cmds. wc_server_tcp_run (\<lambda>_. []) (Some [48]) 80 True demo_tcp pwd_mains demo_run sys0 = Some (st, p) \<and>
     client_main pwd_client [c_str ''client'', c_str ''PWD''] log_initial (sys0 :: unit sys) = Some (0, lg, cs) \<and>
     answers (\<lambda>_. []) (s_popen (pl_sys p)) (mem_ample (pl_sys p)) 2 [] cmds (sent_to 1 (s_trace cs))"
proof -
  obtain st p where r: "wc_server_tcp_run (\<lambda>_. []) (Some [48]) 80 True demo_tcp pwd_mains demo_run sys0 = Some (st, p)"
    "s_trace (pl_sys p) = [Ev_open 3, Ev_open 4, Ev_recv 4 [0, 6, 0, 2, 0, 0], Ev_run (c_str ''pwd 2>/dev/null''), Ev_send 4 [0, 0],
       Ev_close 3, Ev_close 4]"
    using pwd_server_run by auto
  obtain lg cs where c: "client_main pwd_client [c_str ''client'', c_str ''PWD''] log_initial (sys0 :: unit sys) = Some (0, lg, cs)"
    "s_trace cs = [Ev_open 3, Ev_send 3 [0, 6, 0, 2], Ev_send 3 [0, 0], Ev_recv 3 [0, 0], Ev_close 3]"
    using pwd_client_run by auto
  have "prefix (session_recv 4 (s_trace (pl_sys p))) (sent_to 3 (s_trace cs))"
    "prefix (received_from 3 (s_trace cs)) (session_sent 4 (s_trace (pl_sys p)))"
    unfolding r(2) c(2) by (simp_all add: session_recv_def session_sent_def received_from_def)
  from client_tcp_end_to_end [OF demo_run_facts(1) pwd_facts(1) r(1) demo_client_facts(3) pwd_facts(3) _ demo_run_facts(1) c(1) this]
  show ?thesis using r(1) c(1) demo_client_facts(1,2) by (auto simp: opt_bytes_def)
qed

theorem client_uds_end_to_end_witness:
  "\<exists>st s lg cs cmds. wc_server_uds_run (\<lambda>_. []) (Some [47, 115]) True demo_table demo_env pwd_ios wc_ok wc_ok (sys0 :: qsys) = Some (st, s) \<and>
     client_main pwd_client [c_str ''client'', c_str ''PWD''] log_initial (sys0 :: unit sys) = Some (0, lg, cs) \<and>
     answers (\<lambda>_. []) (s_popen s) (mem_ample s) 2 [] cmds (sent_to 1 (s_trace cs))"
proof -
  obtain st s where r: "wc_server_uds_run (\<lambda>_. []) (Some [47, 115]) True demo_table demo_env pwd_ios wc_ok wc_ok (sys0 :: qsys) = Some (st, s)"
    "s_trace s = [Ev_open 3, Ev_unlink [47, 115], Ev_open 4, Ev_recv 4 [0, 6, 0, 2, 0, 0], Ev_run (c_str ''pwd 2>/dev/null''), Ev_send 4 [0, 0],
       Ev_close 4, Ev_close 3, Ev_unlink [47, 115]]"
    using pwd_uds_run by auto
  obtain lg cs where c: "client_main pwd_client [c_str ''client'', c_str ''PWD''] log_initial (sys0 :: unit sys) = Some (0, lg, cs)"
    "s_trace cs = [Ev_open 3, Ev_send 3 [0, 6, 0, 2], Ev_send 3 [0, 0], Ev_recv 3 [0, 0], Ev_close 3]"
    using pwd_client_run by auto
  have "prefix (session_recv 4 (s_trace s)) (sent_to 3 (s_trace cs))" "prefix (received_from 3 (s_trace cs)) (session_sent 4 (s_trace s))"
    unfolding r(2) c(2) by (simp_all add: session_recv_def session_sent_def received_from_def)
  from client_uds_end_to_end [OF demo_facts(2-4) pwd_facts(2) r(1) demo_client_facts(3) pwd_facts(3) _ demo_run_facts(1) c(1) this]
  show ?thesis using r(1) c(1) demo_client_facts(1,2) by (auto simp: opt_bytes_def)
qed

end
